(* ===== verification/Prelude.thy ===== *)
theory Prelude
  imports Main "HOL-Library.Word" "HOL-Library.Monad_Syntax"
begin

text \<open>
  What every component shares: the C integer types as words, C arrays as lists with checked
  reads and writes, bits in air order (one C \<open>char\<close> per received symbol), and the algebra of
  exclusive or that the codes of the Bluetooth baseband rest on.

  An access outside an array is undefined behaviour in C. The model makes it a value: every read
  or write at a computed position is an \<open>option\<close>, and \<open>None\<close> means that the code reaches outside
  the array. A lemma that an operation returns \<open>Some\<close> is therefore a statement of memory safety.
\<close>

unbundle bit_operations_syntax

type_synonym u8 = "8 word"
type_synonym u16 = "16 word"
type_synonym u32 = "32 word"
type_synonym u64 = "64 word"

text \<open>A received symbol: a C \<open>char\<close>, whose value is 0 or 1 when it comes from the demodulator.\<close>

type_synonym sym = "8 word"

named_theorems mem_simps \<open>checked accesses that are inside their array\<close>
named_theorems bits_intros \<open>lists that hold only the symbols 0 and 1\<close>

subsection \<open>Arrays with checked access\<close>

text \<open>
  \<open>sub xs off n\<close> is the block of \<open>n\<close> elements that starts at \<open>xs + off\<close>; \<open>wr xs off ys\<close> stores a
  block there. Offsets are integers, since C pointer arithmetic may go below the array.
\<close>

definition sub :: "'a list \<Rightarrow> int \<Rightarrow> nat \<Rightarrow> 'a list option" where
  "sub xs off n =
     (if 0 \<le> off \<and> off + int n \<le> int (length xs) then Some (take n (drop (nat off) xs)) else None)"

definition wr :: "'a list \<Rightarrow> int \<Rightarrow> 'a list \<Rightarrow> 'a list option" where
  "wr xs off ys =
     (if 0 \<le> off \<and> off + int (length ys) \<le> int (length xs)
      then Some (take (nat off) xs @ ys @ drop (nat off + length ys) xs) else None)"

definition rd :: "'a list \<Rightarrow> int \<Rightarrow> 'a option" where
  "rd xs off = (if 0 \<le> off \<and> off < int (length xs) then Some (xs ! nat off) else None)"

lemma sub_inside [mem_simps]:
  "0 \<le> off \<Longrightarrow> off + int n \<le> int (length xs) \<Longrightarrow> sub xs off n = Some (take n (drop (nat off) xs))"
  by (simp add: sub_def)

lemma sub_SomeD:
  assumes "sub xs off n = Some ys"
  shows "ys = take n (drop (nat off) xs)" "length ys = n" "set ys \<subseteq> set xs"
  using assms by (auto simp: sub_def split: if_splits dest: in_set_takeD in_set_dropD)

lemma sub_eq_None_iff: "sub xs off n = None \<longleftrightarrow> off < 0 \<or> int (length xs) < off + int n"
  by (auto simp: sub_def)

lemma wr_inside [mem_simps]:
  "0 \<le> off \<Longrightarrow> off + int (length ys) \<le> int (length xs) \<Longrightarrow>
   wr xs off ys = Some (take (nat off) xs @ ys @ drop (nat off + length ys) xs)"
  by (simp add: wr_def)

lemma wr_SomeD:
  assumes "wr xs off ys = Some zs"
  shows "length zs = length xs" "set zs \<subseteq> set xs \<union> set ys"
  using assms by (auto simp: wr_def split: if_splits dest: in_set_takeD in_set_dropD)

lemma wr_all [simp]: "length ys = length xs \<Longrightarrow> wr xs 0 ys = Some ys"
  by (simp add: wr_def)

lemma sub_wr_same:
  assumes "wr xs off ys = Some zs"
  shows "sub zs off (length ys) = Some ys"
  using assms by (auto simp: wr_def sub_def split: if_splits)

lemma rd_inside [mem_simps]: "0 \<le> off \<Longrightarrow> off < int (length xs) \<Longrightarrow> rd xs off = Some (xs ! nat off)"
  by (simp add: rd_def)

lemma rd_eq_None_iff: "rd xs off = None \<longleftrightarrow> off < 0 \<or> int (length xs) \<le> off"
  by (auto simp: rd_def)

text \<open>A loop over a list whose body may leave an array.\<close>

fun foldM :: "('x \<Rightarrow> 's \<Rightarrow> 's option) \<Rightarrow> 'x list \<Rightarrow> 's \<Rightarrow> 's option" where
  "foldM f [] s = Some s"
| "foldM f (x # xs) s = do { s \<leftarrow> f x s; foldM f xs s }"

lemma foldM_append: "foldM f (xs @ ys) s = do { s \<leftarrow> foldM f xs s; foldM f ys s }"
  by (induction xs arbitrary: s) (auto split: bind_splits)

text \<open>A loop invariant: \<open>I n s\<close> holds after \<open>n\<close> turns.\<close>

lemma foldM_invariant:
  assumes "I 0 s"
    and "\<And>n s. n < length xs \<Longrightarrow> I n s \<Longrightarrow> \<exists>t. f (xs ! n) s = Some t \<and> I (Suc n) t"
  shows "\<exists>t. foldM f xs s = Some t \<and> I (length xs) t"
  using assms
proof (induction xs arbitrary: s I)
  case (Cons x xs)
  from Cons.prems(2) [of 0 s] Cons.prems(1) obtain u where u: "f x s = Some u" "I (Suc 0) u"
    by auto
  have "\<exists>t. foldM f xs u = Some t \<and> I (Suc (length xs)) t"
    using Cons.IH [of "\<lambda>n. I (Suc n)" u] u(2) Cons.prems(2) [of "Suc n" for n] by fastforce
  with u show ?case by simp
qed simp

subsection \<open>Symbols and integers\<close>

definition is_bits :: "sym list \<Rightarrow> bool" where
  "is_bits xs \<longleftrightarrow> (\<forall>x \<in> set xs. x = 0 \<or> x = 1)"

lemma is_bits_simps [simp]:
  "is_bits []"
  "is_bits (x # xs) \<longleftrightarrow> (x = 0 \<or> x = 1) \<and> is_bits xs"
  "is_bits (xs @ ys) \<longleftrightarrow> is_bits xs \<and> is_bits ys"
  by (auto simp: is_bits_def)

lemma is_bits_take [bits_intros]: "is_bits xs \<Longrightarrow> is_bits (take n xs)"
  by (auto simp: is_bits_def dest: in_set_takeD)

lemma is_bits_drop [bits_intros]: "is_bits xs \<Longrightarrow> is_bits (drop n xs)"
  by (auto simp: is_bits_def dest: in_set_dropD)

lemma is_bits_replicate_0 [bits_intros]: "is_bits (replicate n 0)"
  by (auto simp: is_bits_def)

lemma is_bits_sub: "sub xs off n = Some ys \<Longrightarrow> is_bits xs \<Longrightarrow> is_bits ys"
  using sub_SomeD(3) by (fastforce simp: is_bits_def)

lemma is_bits_wr: "wr xs off ys = Some zs \<Longrightarrow> is_bits xs \<Longrightarrow> is_bits ys \<Longrightarrow> is_bits zs"
  using wr_SomeD(2) by (fastforce simp: is_bits_def)

lemma is_bits_nth: "is_bits xs \<Longrightarrow> i < length xs \<Longrightarrow> xs ! i = 0 \<or> xs ! i = 1"
  by (simp add: is_bits_def)

text \<open>
  The loop of \<open>air_to_host8/16/32/64\<close>: symbol \<open>i\<close> is widened to the result type and shifted left by
  \<open>i\<close>. A \<open>char\<close> is signed on the targets of this host, so widening sign-extends.
\<close>

fun a2h :: "nat \<Rightarrow> sym list \<Rightarrow> 'a::len word \<Rightarrow> 'a word" where
  "a2h i [] acc = acc"
| "a2h i (s # ss) acc = a2h (Suc i) ss (acc OR push_bit i (scast s))"

text \<open>The inverse: the low \<open>n\<close> bits of an integer as symbols, least significant bit first.\<close>

definition host_to_air :: "nat \<Rightarrow> 'a::len word \<Rightarrow> sym list" where
  "host_to_air n w = map (\<lambda>i. of_bool (bit w i)) [0..<n]"

lemma length_host_to_air [simp]: "length (host_to_air n w) = n"
  by (simp add: host_to_air_def)

lemma is_bits_host_to_air [bits_intros, simp]: "is_bits (host_to_air n w)"
  by (auto simp: is_bits_def host_to_air_def)

lemma nth_host_to_air [simp]: "i < n \<Longrightarrow> host_to_air n w ! i = of_bool (bit w i)"
  by (simp add: host_to_air_def)

lemma bit_a2h:
  fixes acc :: "'a::len word"
  assumes "is_bits ss" "n < LENGTH('a)"
  shows "bit (a2h i ss acc) n \<longleftrightarrow> bit acc n \<or> (i \<le> n \<and> n - i < length ss \<and> ss ! (n - i) = 1)"
  using assms(1)
proof (induction i ss acc rule: a2h.induct)
  case (1 i acc)
  then show ?case by simp
next
  case (2 i s ss acc)
  have "bit (scast s :: 'a word) m \<longleftrightarrow> m = 0 \<and> s = 1" if "m < LENGTH('a)" for m
    using 2(2) that by (auto simp: bit_simps)
  moreover have "(n - i < length (s # ss) \<and> (s # ss) ! (n - i) = 1) \<longleftrightarrow>
      (n = i \<and> s = 1) \<or> (Suc i \<le> n \<and> n - Suc i < length ss \<and> ss ! (n - Suc i) = 1)" if "i \<le> n"
    using that by (cases "n = i") (auto simp: nth_Cons' Suc_diff_Suc)
  ultimately show ?case
    using 2 assms(2) by (auto simp: bit_simps)
qed

lemma bit_a2h_0:
  "is_bits ss \<Longrightarrow> bit (a2h 0 ss (0 :: 'a::len word)) n \<longleftrightarrow> n < LENGTH('a) \<and> n < length ss \<and> ss ! n = 1"
  by (cases "n < LENGTH('a)") (auto simp: bit_a2h dest: bit_imp_le_length)

lemma a2h_host_to_air:
  "a2h 0 (host_to_air n w) (0 :: 'a::len word) = take_bit n w"
  by (rule bit_word_eqI) (auto simp: bit_a2h_0 bit_simps)

lemma host_to_air_a2h:
  assumes "is_bits ss" "length ss \<le> LENGTH('a)"
  shows "host_to_air (length ss) (a2h 0 ss (0 :: 'a::len word)) = ss"
  using assms by (auto simp: bit_a2h_0 intro!: nth_equalityI dest: is_bits_nth)

text \<open>Index ranges with numeral bounds, spelled out.\<close>

lemma upt_0_numeral: "[0..<numeral n] = 0 # [Suc 0..<numeral n]"
  by (simp add: upt_conv_Cons)

lemma upt_1_numeral: "[Suc 0..<numeral n] = (if (1::nat) < numeral n then Suc 0 # [2..<numeral n] else [])"
  by (simp add: upt_conv_Cons numeral_2_eq_2)

lemmas upt_eval = upt_0_numeral upt_1_numeral upt_rec_numeral

subsection \<open>Exclusive or\<close>

text \<open>
  \<open>xsel bs cs\<close> is the exclusive or of the words of \<open>bs\<close> that \<open>cs\<close> selects: the product of a bit
  vector with a matrix over the field of two elements.
\<close>

fun xsel :: "'b::len word list \<Rightarrow> bool list \<Rightarrow> 'b word" where
  "xsel (b # bs) (c # cs) = (if c then b XOR xsel bs cs else xsel bs cs)"
| "xsel _ _ = 0"

lemma xsel_Nil [simp]: "xsel bs [] = 0"
  by (cases bs) auto

lemma xor_xor_self_left [simp]: "x XOR (x XOR y) = (y :: 'a::len word)"
  by (simp flip: xor.assoc)

lemma xor_self_middle [simp]: "x XOR (y XOR x) = (y :: 'a::len word)"
  by (simp add: xor.commute)

lemma xor_eq_0_iff_eq: "x XOR y = 0 \<longleftrightarrow> x = (y :: 'a::len word)"
  by (metis xor_self_eq xor.right_neutral xor_xor_self_left)

lemma drop_bit_xor: "drop_bit n (a XOR b) = drop_bit n a XOR drop_bit n (b :: 'a::len word)"
  by (rule bit_word_eqI) (simp add: bit_simps)

lemma ucast_xor: "ucast (a XOR b) = (ucast a XOR ucast b :: 'b::len word)"
  for a b :: "'a::len word"
  by (rule bit_word_eqI) (auto simp add: bit_simps)

lemma map_bit_xor: "map (bit (x XOR y)) is = map (\<lambda>i. bit x i \<noteq> bit y i) is"
  for x y :: "'a::len word"
  by (simp add: bit_xor_iff)

lemma fold_xor_xsel:
  "fold (\<lambda>i c. if P i then c XOR g i else c) xs c = c XOR xsel (map g xs) (map P xs)"
  by (induction xs arbitrary: c) (auto simp: xor.assoc)

text \<open>
  The interface of a linear map between words: syndrome computations, encoders and lookup tables
  promise it, and the error correcting codes are built on what follows from it.
\<close>

locale xor_linear =
  fixes f :: "'a::len word \<Rightarrow> 'b::len word"
  assumes xor: "f (x XOR y) = f x XOR f y"
begin

lemma zero: "f 0 = 0"
  using xor [of 0 0] by simp

lemma xsel: "f (xsel bs cs) = xsel (map f bs) cs"
  by (induction bs cs rule: xsel.induct) (auto simp: xor zero)

lemma coset: "f c = 0 \<Longrightarrow> f (c XOR e) = f e"
  by (simp add: xor)

lemma kernel_fold:
  assumes "\<And>i. i \<in> set xs \<Longrightarrow> f (g i) = 0"
  shows "f (fold (\<lambda>i c. if P i then c XOR g i else c) xs c) = f c"
  using assms by (induction xs arbitrary: c) (auto simp: xor)

lemma eq_iff: "f x = f y \<longleftrightarrow> f (x XOR y) = 0"
  by (simp add: xor xor_eq_0_iff_eq)

end

text \<open>
  All exclusive ors of a list of words (the word with the highest index bit first), and the proof
  that a table of this shape is linear in its index.
\<close>

fun span_xor :: "'b::len word list \<Rightarrow> 'b word list" where
  "span_xor [] = [0]"
| "span_xor (b # bs) = (let l = span_xor bs in l @ map (\<lambda>x. b XOR x) l)"

lemma length_span_xor [simp]: "length (span_xor bs) = 2 ^ length bs"
  by (induction bs) (auto simp: Let_def)

lemma nth_span_xor:
  "n < 2 ^ length bs \<Longrightarrow> span_xor bs ! n = xsel bs (map (bit n) (rev [0..<length bs]))"
proof (induction bs arbitrary: n)
  case Nil
  then show ?case by simp
next
  case (Cons b bs)
  let ?k = "length bs"
  have *: "bit n ?k \<longleftrightarrow> 2 ^ ?k \<le> n"
  proof (cases "2 ^ ?k \<le> n")
    case True
    with Cons.prems have "n div 2 ^ ?k = 1" by (intro div_nat_eqI) auto
    with True show ?thesis by (simp add: bit_iff_odd)
  next
    case False
    then show ?thesis by (simp add: bit_iff_odd)
  qed
  show ?case
  proof (cases "2 ^ ?k \<le> n")
    case False
    with Cons show ?thesis by (simp add: Let_def nth_append *)
  next
    case True
    have m: "n - 2 ^ ?k = take_bit ?k n"
      using Cons.prems True by (simp add: take_bit_eq_mod mod_if)
    have b: "map (bit (take_bit ?k n)) (rev [0..<?k]) = map (bit n) (rev [0..<?k])"
      by (auto simp add: bit_simps)
    moreover have "take_bit ?k n < 2 ^ ?k" by simp
    ultimately show ?thesis
      using Cons.IH [of "take_bit ?k n"] True Cons.prems by (simp add: Let_def nth_append * m b del: map_eq_conv)
  qed
qed

lemma xsel_xor:
  "xsel bs (map (\<lambda>i. P i \<noteq> Q i) is) = xsel bs (map P is) XOR xsel bs (map Q is)"
proof (induction "is" arbitrary: bs)
  case (Cons i "is")
  then show ?case by (cases bs) (auto simp: xor.assoc xor.left_commute)
qed simp

lemma span_xor_linear:
  fixes a b :: "'a::len word"
  assumes "length bs = LENGTH('a)"
  shows "span_xor bs ! unat (a XOR b) = span_xor bs ! unat a XOR span_xor bs ! unat b"
proof -
  have lt: "unat x < 2 ^ length bs" for x :: "'a word"
    using assms by simp
  have "map (bit (unat (a XOR b))) (rev [0..<length bs]) =
      map (\<lambda>i. bit (unat a) i \<noteq> bit (unat b) i) (rev [0..<length bs])"
    by (simp add: unsigned_xor_eq bit_simps)
  then show ?thesis
    unfolding nth_span_xor [OF lt] by (simp only: xsel_xor)
qed

lemma span_xor_word:
  fixes b :: "'a::len word"
  assumes "length bs = LENGTH('a)"
  shows "span_xor bs ! unat b = xsel bs (map (bit b) (rev [0..<LENGTH('a)]))"
proof -
  have "unat b < 2 ^ length bs"
    using assms by simp
  from nth_span_xor [OF this] show ?thesis
    using assms by (simp add: bit_unsigned_iff cong: map_cong)
qed

lemma span_xor_byte:
  fixes b :: u8
  assumes "length bs = 8"
  shows "span_xor bs ! unat b =
    xsel bs [bit b 7, bit b 6, bit b 5, bit b 4, bit b 3, bit b 2, bit b 1, bit b 0]"
  using assms by (simp add: span_xor_word upt_conv_Cons_Cons upt_rec numeral_eq_Suc)

declare span_xor.simps [simp del]

lemma bit_xsel_exp:
  "distinct is \<Longrightarrow> bit (xsel (map (\<lambda>i. 2 ^ i) is) (map P is) :: 'a::len word) n
     \<longleftrightarrow> n < LENGTH('a) \<and> n \<in> set is \<and> P n"
  by (induction "is") (auto simp: bit_simps)

context xor_linear
begin

text \<open>A linear map is determined by its columns, the values at the single bits.\<close>

lemma columns:
  assumes "distinct is" "{i. bit w i} \<subseteq> set is"
  shows "f w = xsel (map (\<lambda>i. f (2 ^ i)) is) (map (bit w) is)"
proof -
  have "w = xsel (map (\<lambda>i. 2 ^ i) is) (map (bit w) is)"
    using assms by (auto intro!: bit_word_eqI simp: bit_xsel_exp)
  then have "f w = f (xsel (map (\<lambda>i. 2 ^ i) is) (map (bit w) is))" by simp
  then show ?thesis by (simp add: xsel comp_def)
qed

end

text \<open>
  \<open>all_xor n P a bs\<close>: the exclusive or of \<open>a\<close> with any \<open>n\<close> words of \<open>bs\<close> satisfies \<open>P\<close>. It evaluates
  without building the list of combinations.
\<close>

fun all_xor :: "nat \<Rightarrow> ('b::len word \<Rightarrow> bool) \<Rightarrow> 'b word \<Rightarrow> 'b word list \<Rightarrow> bool" where
  "all_xor 0 P a bs = P a"
| "all_xor (Suc n) P a [] = True"
| "all_xor (Suc n) P a (b # bs) = (all_xor n P (a XOR b) bs \<and> all_xor (Suc n) P a bs)"

lemma all_xor_numeral:
  "all_xor (numeral k) P a [] = True"
  "all_xor (numeral k) P a (b # bs) =
     (all_xor (pred_numeral k) P (a XOR b) bs \<and> all_xor (numeral k) P a bs)"
  by (simp_all add: numeral_eq_Suc)

lemma all_xor_xsel:
  "all_xor n P a bs \<Longrightarrow> length cs = length bs \<Longrightarrow> length (filter id cs) = n \<Longrightarrow> P (a XOR xsel bs cs)"
proof (induction n P a bs arbitrary: cs rule: all_xor.induct)
  case (1 P a bs)
  then have "set cs \<subseteq> {False}" by (auto simp: filter_empty_conv)
  then have "xsel bs cs = 0" by (induction bs cs rule: xsel.induct) auto
  with 1 show ?case by simp
next
  case (2 n P a)
  then show ?case by simp
next
  case (3 n P a b bs)
  then obtain c cs' where "cs = c # cs'" by (cases cs) auto
  with 3 show ?case by (cases c) (auto simp: xor.assoc)
qed

lemma xsel_zero_rows: "set bs \<subseteq> {0} \<Longrightarrow> xsel bs cs = 0"
  by (induction bs cs rule: xsel.induct) auto

subsection \<open>Counting the one bits of a word\<close>

definition weight :: "'a::len word \<Rightarrow> nat" where
  "weight w = card {i. bit w i}"

lemma finite_bits [simp]: "finite {i. bit (w :: 'a::len word) i}"
  by (rule finite_subset [of _ "{..<LENGTH('a)}"]) (auto dest: bit_imp_le_length)

lemma bits_below: "take_bit n w = w \<Longrightarrow> {i. bit w i} \<subseteq> {..<n}" for w :: "'a::len word"
  by (metis (mono_tags) bit_take_bit_iff lessThan_iff mem_Collect_eq subsetI)

lemma weight_eq_0_iff [simp]: "weight w = 0 \<longleftrightarrow> w = 0"
  by (auto simp: weight_def intro: bit_word_eqI)

lemma weight_0 [simp]: "weight 0 = 0"
  by simp

lemma weight_filter:
  assumes "distinct is" "{i. bit w i} \<subseteq> set is"
  shows "length (filter id (map (bit w) is)) = weight w"
proof -
  have "{i. bit w i} \<inter> set is = {i. bit w i}"
    using assms by auto
  then show ?thesis
    using assms by (simp add: weight_def filter_map comp_def distinct_length_filter)
qed

lemma weight_xor_le: "weight (a XOR b) \<le> weight a + weight b"
proof -
  have "{i. bit (a XOR b) i} \<subseteq> {i. bit a i} \<union> {i. bit b i}"
    by (auto simp: bit_simps)
  then show ?thesis
    unfolding weight_def
    by (meson card_Un_le card_mono finite_UnI finite_bits order_trans)
qed

lemma weight_exp: "i < LENGTH('a) \<Longrightarrow> weight (2 ^ i :: 'a::len word) = 1"
  by (auto simp: weight_def bit_simps card_1_singleton_iff)

lemma weight_two_bits:
  "i < LENGTH('a) \<Longrightarrow> j < LENGTH('a) \<Longrightarrow> i \<noteq> j \<Longrightarrow> weight (2 ^ i XOR 2 ^ j :: 'a::len word) = 2"
proof -
  assume "i < LENGTH('a)" "j < LENGTH('a)" "i \<noteq> j"
  then have "{n. bit (2 ^ i XOR 2 ^ j :: 'a word) n} = {i, j}"
    by (auto simp: bit_simps)
  with \<open>i \<noteq> j\<close> show ?thesis by (simp add: weight_def)
qed

text \<open>The loop \<open>for (i = 0; n != 0; i++) n &= n - 1;\<close> of the code's \<open>count_bits\<close> functions.\<close>

lemma and_pred_less: "n \<noteq> 0 \<Longrightarrow> unat (n AND (n - 1)) < unat (n :: 'a::len word)"
proof -
  assume "n \<noteq> 0"
  then have "unat (n - 1) < unat n"
    by (simp add: unat_minus_one unat_gt_0)
  moreover have "unat (n AND (n - 1)) \<le> unat (n - 1)"
    by (simp add: word_and_le1 flip: word_le_nat_alt)
  ultimately show ?thesis by simp
qed

function clear_lowest_loop :: "'a::len word \<Rightarrow> nat" where
  "clear_lowest_loop n = (if n = 0 then 0 else Suc (clear_lowest_loop (n AND (n - 1))))"
  by pat_completeness auto
termination
  by (relation "measure unat") (auto simp: and_pred_less)

declare clear_lowest_loop.simps [simp del]

lemma lowest_bit:
  fixes n :: "'a::len word"
  assumes "n \<noteq> 0"
  obtains k where "bit n k" "\<And>i. i < k \<Longrightarrow> \<not> bit n i"
proof -
  from assms obtain i where "bit n i"
    using bit_word_eqI [of n 0] by auto
  then have "bit n (LEAST i. bit n i)" by (rule LeastI)
  then show ?thesis using not_less_Least that by blast
qed

lemma bits_and_pred:
  fixes n :: "'a::len word"
  assumes "n \<noteq> 0"
  obtains k where "bit n k" "{i. bit (n AND (n - 1)) i} = {i. bit n i} - {k}"
proof -
  obtain k where k: "bit n k" and low: "\<And>i. i < k \<Longrightarrow> \<not> bit n i"
    using lowest_bit [OF assms] by blast
  have "n = unset_bit k n OR 2 ^ k"
    using k by (intro bit_word_eqI) (auto simp: bit_simps)
  also have "\<dots> = unset_bit k n + 2 ^ k"
    by (rule disjunctive_add [symmetric]) (auto simp: bit_simps)
  finally have "n - 1 = unset_bit k n + mask k"
    by (simp add: mask_eq_exp_minus_1 algebra_simps)
  also have "\<dots> = unset_bit k n OR mask k"
    by (rule disjunctive_add) (auto simp: bit_simps low)
  finally have *: "n - 1 = unset_bit k n OR mask k" .
  have "bit (n AND (n - 1)) i \<longleftrightarrow> bit n i \<and> i \<noteq> k" for i
    unfolding * by (cases "i < k") (auto simp: bit_simps low)
  then show ?thesis using k that by blast
qed

lemma weight_and_pred: "weight (w AND (w - 1)) = weight w - 1"
proof (cases "w = 0")
  case False
  then obtain k where "bit w k" "{i. bit (w AND (w - 1)) i} = {i. bit w i} - {k}"
    by (rule bits_and_pred)
  then show ?thesis by (simp add: weight_def)
qed (simp add: weight_def)

text \<open>Evaluation on literals.\<close>

lemma weight_1 [simp]: "weight 1 = 1"
  using weight_exp [where 'a = 'a, of 0] by simp

lemma weight_numeral:
  "weight (numeral k :: 'a::len word) =
     (if (numeral k :: 'a word) = 0 then 0 else Suc (weight (numeral k AND (numeral k - 1 :: 'a word))))"
  using weight_and_pred [of "numeral k :: 'a word"] weight_eq_0_iff [of "numeral k :: 'a word"]
  by (auto simp del: weight_eq_0_iff)

lemma weight_le_LENGTH: "weight (w :: 'a::len word) \<le> LENGTH('a)"
proof -
  have "card {i. bit w i} \<le> card {..<LENGTH('a)}"
    by (rule card_mono) (auto dest: bit_imp_le_length)
  then show ?thesis by (simp add: weight_def)
qed

lemma clear_lowest_loop_weight: "clear_lowest_loop n = weight n"
proof (induction n rule: clear_lowest_loop.induct)
  case (1 n)
  show ?case
  proof (cases "n = 0")
    case False
    then obtain k where k: "bit n k" and *: "{i. bit (n AND (n - 1)) i} = {i. bit n i} - {k}"
      by (rule bits_and_pred)
    have "weight n = Suc (weight (n AND (n - 1)))"
      unfolding weight_def * by (rule card.remove) (use k in auto)
    with 1 False show ?thesis by (simp add: clear_lowest_loop.simps [of n])
  qed (simp add: clear_lowest_loop.simps)
qed

lemma weight_le_1_cases:
  assumes "weight (w :: 'a::len word) \<le> 1"
  obtains "w = 0" | i where "i < LENGTH('a)" "w = 2 ^ i"
proof (cases "w = 0")
  case False
  then obtain i where i: "bit w i" "{j. bit (w AND (w - 1)) j} = {j. bit w j} - {i}"
    by (rule bits_and_pred)
  have "weight (w AND (w - 1)) = 0"
    using assms by (simp add: weight_and_pred del: weight_eq_0_iff)
  then have "{j. bit w j} \<subseteq> {i}"
    using i by simp
  then have "w = 2 ^ i"
    using i(1) by (intro bit_word_eqI) (auto simp: bit_simps)
  then show ?thesis
    using that(2) bit_imp_le_length [OF i(1)] by blast
qed (use that in blast)

end
