(* ===== verification/SyncWord.thy ===== *)
theory SyncWord
  imports SwTables
begin

text \<open>
  The sync word code of \<open>lib/src/bluetooth_packet.c\<close>: a (64,30) block code in which every LAP has one
  sync word. \<open>btbb_gen_syncword\<close> encodes a LAP, \<open>gen_syndrome\<close> checks a received word, and the map
  built by \<open>gen_syndrome_map\<close> takes the syndrome of a correctable error to the error.

  The state is \<open>syndrome_map\<close>, a hash table that \<open>add_syndrome\<close> extends: an association list here, the
  newest entry first, which is the order in which a uthash bucket is searched.
\<close>

section \<open>Tables and the encoder\<close>

definition AC_ERROR_LIMIT :: int where "AC_ERROR_LIMIT = 5"

definition DEFAULT_CODEWORD :: u64 where "DEFAULT_CODEWORD = 0xb0000002c7820e7e"

definition DEFAULT_AC :: u64 where "DEFAULT_AC = 0xcc7b7268ff614e1b"

definition pn :: u64 where "pn = 0x83848D96BBCC54FC"

definition sw_matrix :: "u64 list" where
  "sw_matrix = [
    0xfe000002a0d1c014, 0x01000003f0b9201f, 0x008000033ae40edb, 0x004000035fca99b9,
    0x002000036d5dd208, 0x00100001b6aee904, 0x00080000db577482, 0x000400006dabba41,
    0x00020002f46d43f4, 0x000100017a36a1fa, 0x00008000bd1b50fd, 0x000040029c3536aa,
    0x000020014e1a9b55, 0x0000100265b5d37e, 0x0000080132dae9bf, 0x000004025bd5ea0b,
    0x00000203ef526bd1, 0x000001033511ab3c, 0x000000819a88d59e, 0x00000040cd446acf,
    0x00000022a41aabb3, 0x0000001390b5cb0d, 0x0000000b0ae27b52, 0x0000000585713da9]"

definition barker_correct :: "u64 list" where
  "barker_correct = [
    0xb000000000000000, 0x4e00000000000000, 0x4e00000000000000, 0x4e00000000000000,
    0x4e00000000000000, 0x4e00000000000000, 0x4e00000000000000, 0x4e00000000000000,
    0xb000000000000000, 0xb000000000000000, 0xb000000000000000, 0x4e00000000000000,
    0xb000000000000000, 0x4e00000000000000, 0x4e00000000000000, 0x4e00000000000000,
    0xb000000000000000, 0xb000000000000000, 0xb000000000000000, 0x4e00000000000000,
    0xb000000000000000, 0x4e00000000000000, 0x4e00000000000000, 0x4e00000000000000,
    0xb000000000000000, 0xb000000000000000, 0xb000000000000000, 0xb000000000000000,
    0xb000000000000000, 0xb000000000000000, 0xb000000000000000, 0x4e00000000000000,
    0x4e00000000000000, 0x4e00000000000000, 0x4e00000000000000, 0x4e00000000000000,
    0x4e00000000000000, 0x4e00000000000000, 0x4e00000000000000, 0x4e00000000000000,
    0xb000000000000000, 0x4e00000000000000, 0x4e00000000000000, 0x4e00000000000000,
    0x4e00000000000000, 0x4e00000000000000, 0x4e00000000000000, 0x4e00000000000000,
    0xb000000000000000, 0x4e00000000000000, 0x4e00000000000000, 0x4e00000000000000,
    0x4e00000000000000, 0x4e00000000000000, 0x4e00000000000000, 0x4e00000000000000,
    0xb000000000000000, 0xb000000000000000, 0xb000000000000000, 0x4e00000000000000,
    0xb000000000000000, 0x4e00000000000000, 0x4e00000000000000, 0x4e00000000000000,
    0xb000000000000000, 0xb000000000000000, 0xb000000000000000, 0x4e00000000000000,
    0xb000000000000000, 0x4e00000000000000, 0x4e00000000000000, 0x4e00000000000000,
    0xb000000000000000, 0xb000000000000000, 0xb000000000000000, 0xb000000000000000,
    0xb000000000000000, 0xb000000000000000, 0xb000000000000000, 0x4e00000000000000,
    0xb000000000000000, 0xb000000000000000, 0xb000000000000000, 0xb000000000000000,
    0xb000000000000000, 0xb000000000000000, 0xb000000000000000, 0x4e00000000000000,
    0xb000000000000000, 0xb000000000000000, 0xb000000000000000, 0xb000000000000000,
    0xb000000000000000, 0xb000000000000000, 0xb000000000000000, 0xb000000000000000,
    0xb000000000000000, 0x4e00000000000000, 0x4e00000000000000, 0x4e00000000000000,
    0x4e00000000000000, 0x4e00000000000000, 0x4e00000000000000, 0x4e00000000000000,
    0xb000000000000000, 0xb000000000000000, 0xb000000000000000, 0x4e00000000000000,
    0xb000000000000000, 0x4e00000000000000, 0x4e00000000000000, 0x4e00000000000000,
    0xb000000000000000, 0xb000000000000000, 0xb000000000000000, 0x4e00000000000000,
    0xb000000000000000, 0x4e00000000000000, 0x4e00000000000000, 0x4e00000000000000,
    0xb000000000000000, 0xb000000000000000, 0xb000000000000000, 0xb000000000000000,
    0xb000000000000000, 0xb000000000000000, 0xb000000000000000, 0x4e00000000000000]"

definition BARKER_DISTANCE :: "u8 list" where
  "BARKER_DISTANCE = [
    3, 3, 3, 2, 3, 2, 2, 1, 2, 3, 3, 3, 3, 3, 3, 2, 2, 3, 3, 3, 3, 3, 3, 2, 1, 2, 2, 3, 2, 3, 3, 3,
    3, 2, 2, 1, 2, 1, 1, 0, 3, 3, 3, 2, 3, 2, 2, 1, 3, 3, 3, 2, 3, 2, 2, 1, 2, 3, 3, 3, 3, 3, 3, 2,
    2, 3, 3, 3, 3, 3, 3, 2, 1, 2, 2, 3, 2, 3, 3, 3, 1, 2, 2, 3, 2, 3, 3, 3, 0, 1, 1, 2, 1, 2, 2, 3,
    3, 3, 3, 2, 3, 2, 2, 1, 2, 3, 3, 3, 3, 3, 3, 2, 2, 3, 3, 3, 3, 3, 3, 2, 1, 2, 2, 3, 2, 3, 3, 3]"

text \<open>\<open>btbb_gen_syncword\<close>: one generator row for each bit of the LAP, most significant bit first.\<close>

definition btbb_gen_syncword :: "u32 \<Rightarrow> u64" where
  "btbb_gen_syncword LAP =
     fold (\<lambda>i codeword. if LAP AND drop_bit i 0x800000 \<noteq> 0 then codeword XOR sw_matrix ! i else codeword)
       [0..<24] DEFAULT_CODEWORD"

section \<open>Syndromes\<close>

definition gen_syndrome :: "u64 \<Rightarrow> u64" where
  "gen_syndrome codeword =
     (let syndrome = codeword AND 0xffffffff;
          codeword = drop_bit 32 codeword;
          syndrome = syndrome XOR sw_check_table4 ! unat (codeword AND 0xff);
          codeword = drop_bit 8 codeword;
          syndrome = syndrome XOR sw_check_table5 ! unat (codeword AND 0xff);
          codeword = drop_bit 8 codeword;
          syndrome = syndrome XOR sw_check_table6 ! unat (codeword AND 0xff);
          codeword = drop_bit 8 codeword;
          syndrome = syndrome XOR sw_check_table7 ! unat (codeword AND 0xff)
      in syndrome)"

text \<open>The index \<open>codeword & 0xff\<close> is always inside the table of 256 entries.\<close>

lemma unat_and_ff: "unat (w AND 0xff :: u64) = unat (ucast w :: u8)"
proof -
  have "(w AND 0xff :: u64) = take_bit 8 w"
    by (simp add: take_bit_eq_mask mask_eq_exp_minus_1)
  then show ?thesis by (simp add: unsigned_take_bit_eq unsigned_ucast_eq)
qed

lemma gen_syndrome_bytes:
  "gen_syndrome c = (c AND 0xffffffff) XOR
     sw_check_table4 ! unat (ucast (drop_bit 32 c) :: u8) XOR
     sw_check_table5 ! unat (ucast (drop_bit 40 c) :: u8) XOR
     sw_check_table6 ! unat (ucast (drop_bit 48 c) :: u8) XOR
     sw_check_table7 ! unat (ucast (drop_bit 56 c) :: u8)"
  unfolding gen_syndrome_def Let_def unat_and_ff by (simp add: xor.assoc)

lemma gen_syndrome_xor: "gen_syndrome (a XOR b) = gen_syndrome a XOR gen_syndrome b"
  unfolding gen_syndrome_bytes drop_bit_xor ucast_xor bit.conj_xor_distrib2
    table4.xor table5.xor table6.xor table7.xor
  by (simp only: ac_simps)

interpretation syndrome: xor_linear gen_syndrome
  by unfold_locales (rule gen_syndrome_xor)

text \<open>The syndrome as a product with the spanning rows: a closed word evaluates with no walk along the tables.\<close>

lemma gen_syndrome_bits:
  "gen_syndrome c = (c AND 0xffffffff) XOR
     xsel [0x19a88d59e, 0xcd446acf, 0x2a41aabb3, 0x390b5cb0d,
       0x30ae27b52, 0x185713da9, 0x200000000, 0x100000000]
      [bit c 39, bit c 38, bit c 37, bit c 36, bit c 35, bit c 34, bit c 33, bit c 32] XOR
     xsel [0xbd1b50fd, 0x29c3536aa, 0x14e1a9b55, 0x265b5d37e,
       0x132dae9bf, 0x25bd5ea0b, 0x3ef526bd1, 0x33511ab3c]
      [bit c 47, bit c 46, bit c 45, bit c 44, bit c 43, bit c 42, bit c 41, bit c 40] XOR
     xsel [0x33ae40edb, 0x35fca99b9, 0x36d5dd208, 0x1b6aee904,
       0xdb577482, 0x6dabba41, 0x2f46d43f4, 0x17a36a1fa]
      [bit c 55, bit c 54, bit c 53, bit c 52, bit c 51, bit c 50, bit c 49, bit c 48] XOR
     xsel [0x1, 0x2c2b89ed4, 0x1615c4f6a, 0xb0ae27b5,
       0x29aef8d0e, 0x14d77c687, 0x264037d97, 0x3f0b9201f]
      [bit c 63, bit c 62, bit c 61, bit c 60, bit c 59, bit c 58, bit c 57, bit c 56]"
  unfolding gen_syndrome_bytes sw_check_table4_span sw_check_table5_span sw_check_table6_span
    sw_check_table7_span
  by (subst span_xor_byte, simp)+ (simp add: bit_simps)

section \<open>Every sync word is a codeword\<close>

lemma LAP_mask: "i < 24 \<Longrightarrow> LAP AND drop_bit i 0x800000 \<noteq> 0 \<longleftrightarrow> bit (LAP :: u32) (23 - i)"
proof -
  assume "i < 24"
  have "drop_bit i (0x800000 :: u32) = drop_bit i (2 ^ 23)" by simp
  also have "\<dots> = 2 ^ (23 - i)"
    using \<open>i < 24\<close> by (subst drop_bit_exp_eq) simp
  finally show ?thesis by (simp add: and_exp_eq_0_iff_not_bit)
qed

lemma sw_matrix_codeword: "i < 24 \<Longrightarrow> gen_syndrome (sw_matrix ! i) = 0"
proof -
  have "\<forall>row \<in> set sw_matrix. gen_syndrome row = 0"
    by (simp add: sw_matrix_def gen_syndrome_bits)
  moreover assume "i < 24"
  moreover have "length sw_matrix = 24" by (simp add: sw_matrix_def)
  ultimately show ?thesis by simp
qed

lemma DEFAULT_CODEWORD_pn: "gen_syndrome (DEFAULT_CODEWORD XOR pn) = 0"
  by (simp add: DEFAULT_CODEWORD_def pn_def gen_syndrome_bits)

lemma DEFAULT_AC_codeword: "gen_syndrome DEFAULT_AC = 0"
  by (simp add: DEFAULT_AC_def gen_syndrome_bits)

lemma gen_syndrome_syncword: "gen_syndrome (btbb_gen_syncword LAP) = gen_syndrome DEFAULT_CODEWORD"
  unfolding btbb_gen_syncword_def
  by (rule syndrome.kernel_fold) (simp add: sw_matrix_codeword)

section \<open>The LAP and the Barker code inside a sync word\<close>

lemma btbb_gen_syncword_xsel:
  "btbb_gen_syncword LAP = DEFAULT_CODEWORD XOR xsel sw_matrix (map (\<lambda>i. bit LAP (23 - i)) [0..<24])"
proof -
  have "btbb_gen_syncword LAP =
      fold (\<lambda>i c. if bit LAP (23 - i) then c XOR sw_matrix ! i else c) [0..<24] DEFAULT_CODEWORD"
    unfolding btbb_gen_syncword_def by (rule fold_cong) (auto simp: LAP_mask)
  moreover have "length sw_matrix = 24" by (simp add: sw_matrix_def)
  then have "map ((!) sw_matrix) [0..<24] = sw_matrix"
    using map_nth [of sw_matrix] by simp
  ultimately show ?thesis by (simp only: fold_xor_xsel)
qed

text \<open>What \<open>promiscuous_packet_search\<close> reads out of a sync word: \<open>(syncword >> 34) & 0xffffff\<close>.\<close>

definition lap_of_syncword :: "u64 \<Rightarrow> u32" where
  "lap_of_syncword syncword = ucast (drop_bit 34 syncword AND 0xffffff)"

interpretation lap_bits: xor_linear lap_of_syncword
  by unfold_locales (simp add: lap_of_syncword_def drop_bit_xor bit.conj_xor_distrib2 ucast_xor)

interpretation barker_bits: xor_linear "drop_bit 57 :: u64 \<Rightarrow> u64"
  by unfold_locales (rule drop_bit_xor)

lemma lap_rows: "map lap_of_syncword sw_matrix = map (\<lambda>i. 2 ^ i) (rev [0..<24])"
  by (simp add: sw_matrix_def lap_of_syncword_def upt_eval)

lemma lap_of_gen_syncword: "lap_of_syncword (btbb_gen_syncword LAP) = take_bit 24 LAP"
proof -
  have "map (\<lambda>i. bit LAP (23 - i)) [0..<24] = map (bit LAP) (rev [0..<24])"
    by (rule nth_equalityI) (auto simp: rev_nth)
  then have "lap_of_syncword (btbb_gen_syncword LAP) =
      xsel (map (\<lambda>i. 2 ^ i) (rev [0..<24])) (map (bit LAP) (rev [0..<24]))"
    unfolding btbb_gen_syncword_xsel lap_bits.xor lap_bits.xsel lap_rows
    by (simp add: lap_of_syncword_def DEFAULT_CODEWORD_def)
  then show ?thesis
    by (auto intro!: bit_word_eqI simp: bit_xsel_exp bit_simps)
qed

lemma barker_rows: "\<exists>rows. map (drop_bit 57) sw_matrix = 0x7f # rows \<and> set rows \<subseteq> {0}"
  by (simp add: sw_matrix_def)

lemma barker_of_gen_syncword:
  "drop_bit 57 (btbb_gen_syncword LAP) = (if bit LAP 23 then 0x27 else 0x58)"
proof -
  obtain rows where "map (drop_bit 57) sw_matrix = 0x7f # rows" "set rows \<subseteq> {0}"
    using barker_rows by (elim exE conjE)
  then show ?thesis
    unfolding btbb_gen_syncword_xsel barker_bits.xor barker_bits.xsel
    by (simp add: upt_0_numeral xsel_zero_rows DEFAULT_CODEWORD_def)
qed

end
