(* ===== verification/SyndromeMap.thy ===== *)
theory SyndromeMap
  imports SyncWord
begin

text \<open>
  The correction table of \<open>lib/src/bluetooth_packet.c\<close>: \<open>btbb_init\<close> fills \<open>syndrome_map\<close> with the
  syndrome of every error of up to \<open>max_ac_errors\<close> bits in the lower 58 bits of a sync word
  (\<open>gen_syndrome_map\<close>, \<open>cycle\<close>, \<open>add_syndrome\<close>), and \<open>find_syndrome\<close> looks an error up.

  The lemmas show that the table is exactly the list of those errors and, for up to two errors, that
  no two of them have the same syndrome, so that a lookup returns the error that happened.
\<close>

section \<open>The state and its operations\<close>

type_synonym syndrome_map = "(u64 \<times> u64) list"

definition add_syndrome :: "u64 \<Rightarrow> u64 \<Rightarrow> syndrome_map \<Rightarrow> syndrome_map" where
  "add_syndrome syndrome error syndrome_map = (syndrome, error) # syndrome_map"

definition find_syndrome :: "syndrome_map \<Rightarrow> u64 \<Rightarrow> u64 option" where
  "find_syndrome syndrome_map syndrome = map_of syndrome_map syndrome"

text \<open>The recursion of \<open>cycle\<close> places one error bit per level, each above the one before.\<close>

function cycle :: "u64 \<Rightarrow> nat \<Rightarrow> int \<Rightarrow> u64 \<Rightarrow> syndrome_map \<Rightarrow> syndrome_map" where
  "cycle error start depth codeword syndrome_map =
     (let depth = depth - 1 in
      fold (\<lambda>i m.
          let new_error = push_bit i 1 OR error in
          if depth \<noteq> 0 then cycle new_error (i + 1) depth codeword m
          else add_syndrome (gen_syndrome (codeword XOR new_error)) new_error m)
        [start..<58] syndrome_map)"
  by pat_completeness auto
termination
  by (relation "measure (\<lambda>(error, start, depth, codeword, m). 58 - start)") auto

declare cycle.simps [simp del]

definition gen_syndrome_map :: "int \<Rightarrow> syndrome_map \<Rightarrow> syndrome_map" where
  "gen_syndrome_map bit_errors syndrome_map =
     fold (\<lambda>i m. cycle 0 0 i DEFAULT_AC m) [1..bit_errors] syndrome_map"

text \<open>\<open>btbb_init\<close> returns its status and the table; a table that is not NULL is left alone.\<close>

definition btbb_init :: "int \<Rightarrow> syndrome_map \<Rightarrow> int \<times> syndrome_map" where
  "btbb_init max_ac_errors syndrome_map =
     (if max_ac_errors < 0 \<or> max_ac_errors > AC_ERROR_LIMIT then (-1, syndrome_map)
      else if syndrome_map = [] \<and> max_ac_errors \<noteq> 0
      then (0, gen_syndrome_map max_ac_errors syndrome_map)
      else (0, syndrome_map))"

section \<open>What the table holds\<close>

definition entry :: "u64 \<Rightarrow> u64 \<times> u64" where
  "entry e = (gen_syndrome e, e)"

lemma fold_Cons_map: "fold (\<lambda>i m. g i # m) xs m = rev (map g xs) @ m"
  by (induction xs arbitrary: m) auto

lemma fold_append_rev: "fold (\<lambda>i m. rev (g i) @ m) xs m = rev (concat (map g xs)) @ m"
  by (induction xs arbitrary: m) auto

text \<open>The error patterns with \<open>d\<close> bits at or above \<open>s\<close>, added to \<open>e\<close>, in the order of the loops.\<close>

fun patterns :: "nat \<Rightarrow> nat \<Rightarrow> u64 \<Rightarrow> u64 list" where
  "patterns 0 s e = [e]"
| "patterns (Suc d) s e = concat (map (\<lambda>i. patterns d (Suc i) (2 ^ i OR e)) [s..<58])"

lemma cycle_patterns:
  "cycle e s (int (Suc d)) DEFAULT_AC m = rev (map entry (patterns (Suc d) s e)) @ m"
proof (induction d arbitrary: e s m)
  case 0
  have "entry x = (gen_syndrome (DEFAULT_AC XOR x), x)" for x
    by (simp add: entry_def syndrome.coset DEFAULT_AC_codeword)
  then show ?case
    by (simp add: cycle.simps add_syndrome_def Let_def fold_Cons_map push_bit_eq_mult comp_def concat_map_singleton)
next
  case (Suc d)
  have "cycle e s (int (Suc (Suc d))) DEFAULT_AC m =
      fold (\<lambda>i m. cycle (2 ^ i OR e) (Suc i) (int (Suc d)) DEFAULT_AC m) [s..<58] m"
    by (subst cycle.simps) (simp add: Let_def push_bit_eq_mult algebra_simps)
  also have "\<dots> = rev (map entry (patterns (Suc (Suc d)) s e)) @ m"
    by (simp only: Suc.IH fold_append_rev) (simp add: map_concat comp_def)
  finally show ?case .
qed

lemma gen_syndrome_map_entries:
  "gen_syndrome_map (int n) m = rev (map entry (concat (map (\<lambda>d. patterns d 0 0) [1..<Suc n]))) @ m"
proof (induction n)
  case 0
  then show ?case by (simp add: gen_syndrome_map_def)
next
  case (Suc n)
  have "[1..int (Suc n)] = [1..int n] @ [int (Suc n)]"
    by (simp add: upto_rec2)
  with Suc show ?case
    by (simp add: gen_syndrome_map_def cycle_patterns del: patterns.simps of_nat_Suc)
qed

section \<open>The distance of the code\<close>

text \<open>Clearing the lowest one bit \<open>k\<close> times leaves something exactly when more than \<open>k\<close> bits are set.\<close>

fun clear_lowest :: "nat \<Rightarrow> 'a::len word \<Rightarrow> 'a word" where
  "clear_lowest 0 w = w"
| "clear_lowest (Suc k) w = clear_lowest k (w AND (w - 1))"

lemma clear_lowest_numeral:
  "clear_lowest (numeral k) w = clear_lowest (pred_numeral k) (w AND (w - 1))"
  by (simp add: numeral_eq_Suc)

lemma clear_lowest_nonzero: "clear_lowest k w \<noteq> 0 \<Longrightarrow> k < weight w"
proof (induction k arbitrary: w)
  case 0
  then show ?case using weight_eq_0_iff [of w] by (simp del: weight_eq_0_iff)
next
  case (Suc k)
  then have "k < weight w - 1" by (metis clear_lowest.simps(2) weight_and_pred)
  then show ?case by simp
qed

text \<open>The syndromes of single errors in the information bits 34 to 57.\<close>

definition data_columns :: "u64 list" where
  "data_columns = [
    0x185713da9, 0x30ae27b52, 0x390b5cb0d, 0x2a41aabb3, 0xcd446acf, 0x19a88d59e,
    0x33511ab3c, 0x3ef526bd1, 0x25bd5ea0b, 0x132dae9bf, 0x265b5d37e, 0x14e1a9b55,
    0x29c3536aa, 0xbd1b50fd, 0x17a36a1fa, 0x2f46d43f4, 0x6dabba41, 0xdb577482,
    0x1b6aee904, 0x36d5dd208, 0x35fca99b9, 0x33ae40edb, 0x3f0b9201f, 0x264037d97]"

lemma data_columns: "data_columns = map (\<lambda>i. gen_syndrome (2 ^ i)) [34..<58]"
  by (simp add: upt_eval data_columns_def gen_syndrome_bits)

lemma data_columns_far:
  "all_xor 1 (\<lambda>w. clear_lowest 3 w \<noteq> 0) 0 data_columns"
  "all_xor 2 (\<lambda>w. clear_lowest 2 w \<noteq> 0) 0 data_columns"
  "all_xor 3 (\<lambda>w. clear_lowest 1 w \<noteq> 0) 0 data_columns"
  by (simp_all add: data_columns_def all_xor_numeral clear_lowest_numeral)

text \<open>The information columns are linearly independent: a linear map takes them to the unit vectors.\<close>

definition data_of_parity :: "u64 \<Rightarrow> u32" where
  "data_of_parity w = xsel [
     0x0, 0x0, 0x0, 0x0, 0x0, 0x0, 0x0, 0x0,
     0x0, 0x0, 0xb0ae27, 0x585713, 0x2c2b89, 0xa6bbe3, 0x535df1, 0x9900df,
     0xfc2e48, 0xceb903, 0xd7f2a6, 0xdb5774, 0x6dabba, 0x36d5dd, 0x1b6aee, 0xbd1b50,
     0x5e8da8, 0x2f46d4, 0xa70d4d, 0x5386a6, 0x996d74, 0x4cb6ba, 0x96f57a, 0xfbd49a,
     0xcd446a, 0x66a235]
     (map (bit w) (rev [0..<34]))"

interpretation data_of_parity: xor_linear data_of_parity
proof
  fix x y :: u64
  have "map (bit (x XOR y)) (rev [0..<34]) = map (\<lambda>i. bit x i \<noteq> bit y i) (rev [0..<34])"
    by (simp add: bit_simps)
  then show "data_of_parity (x XOR y) = data_of_parity x XOR data_of_parity y"
    unfolding data_of_parity_def by (simp only: xsel_xor)
qed

lemma data_of_parity_columns: "map data_of_parity data_columns = map (\<lambda>i. 2 ^ i) [0..<24]"
  by (simp add: data_columns_def data_of_parity_def upt_eval)

lemma data_columns_independent:
  assumes "xsel data_columns (map P [0..<24]) = 0"
  shows "i < 24 \<Longrightarrow> \<not> P i"
proof -
  assume "i < 24"
  have "xsel (map (\<lambda>i. 2 ^ i) [0..<24]) (map P [0..<24]) = (0 :: u32)"
    using data_of_parity.xsel [of data_columns "map P [0..<24]"]
    by (simp add: assms data_of_parity_columns data_of_parity.zero)
  then have "\<not> bit (xsel (map (\<lambda>i. 2 ^ i) [0..<24]) (map P [0..<24]) :: u32) i" by simp
  with \<open>i < 24\<close> show ?thesis by (simp add: bit_xsel_exp)
qed

lemma gen_syndrome_low:
  assumes "{i. bit w i} \<subseteq> {..<34}"
  shows "gen_syndrome w = w"
proof -
  have rows: "map (\<lambda>i. gen_syndrome (2 ^ i)) [0..<34] = map (\<lambda>i. 2 ^ i) [0..<34]"
    by (simp add: upt_eval gen_syndrome_bits)
  have "gen_syndrome w = xsel (map (\<lambda>i. gen_syndrome (2 ^ i)) [0..<34]) (map (bit w) [0..<34])"
    by (rule syndrome.columns) (use assms in \<open>auto simp: lessThan_atLeast0\<close>)
  also have "\<dots> = w"
    using assms unfolding rows by (auto intro!: bit_word_eqI simp: bit_xsel_exp dest: bit_imp_le_length)
  finally show ?thesis .
qed

lemma gen_syndrome_data:
  assumes "{i. bit w i} \<subseteq> {34..<58}"
  shows "gen_syndrome w = xsel data_columns (map (bit w) [34..<58])"
  unfolding data_columns by (rule syndrome.columns) (use assms in \<open>simp_all only: set_upt distinct_upt\<close>)

lemma data_weight:
  assumes "{i. bit w i} \<subseteq> {34..<58}" "weight w \<in> {1, 2, 3}"
  shows "4 - weight w < weight (gen_syndrome w)"
proof -
  have len: "length (map (bit w) [34..<58]) = length data_columns"
    by (simp add: data_columns)
  have n: "length (filter id (map (bit w) [34..<58])) = weight w"
    by (rule weight_filter) (use assms in \<open>simp_all only: set_upt distinct_upt\<close>)
  have far: "all_xor (weight w) (\<lambda>v. clear_lowest (4 - weight w) v \<noteq> 0) 0 data_columns"
    using assms(2) data_columns_far by auto
  show ?thesis
    using all_xor_xsel [OF far len n] unfolding gen_syndrome_data [OF assms(1)]
    by (simp add: clear_lowest_nonzero)
qed

lemma data_independent:
  assumes "{i. bit w i} \<subseteq> {34..<58}" "gen_syndrome w = 0"
  shows "w = 0"
proof -
  have "map (\<lambda>i. bit w (i + 34)) [0..<24] = map (bit w) [34..<58]"
    using arg_cong [OF map_add_upt [of 34 24], of "map (bit w)"] by (simp add: comp_def del: upt_rec_numeral)
  then have shift: "\<not> bit w (i + 34)" if "i < 24" for i
    using data_columns_independent [of "\<lambda>i. bit w (i + 34)"] that assms gen_syndrome_data [OF assms(1)]
    by simp
  have "\<not> bit w i" for i
  proof
    assume "bit w i"
    then have "i \<in> {34..<58}" using assms(1) by blast
    then have "i - 34 < 24" "i - 34 + 34 = i" by auto
    then show False using \<open>bit w i\<close> shift by metis
  qed
  then show ?thesis by (auto intro: bit_word_eqI)
qed

text \<open>No error of one to four bits is a codeword.\<close>

lemma gen_syndrome_distance:
  assumes "{i. bit e i} \<subseteq> {..<58}" "weight e \<le> 4" "gen_syndrome e = 0"
  shows "e = 0"
proof -
  define lo where "lo = take_bit 34 e"
  define hi where "hi = e XOR lo"
  have lo: "{i. bit lo i} \<subseteq> {..<34}" and hi: "{i. bit hi i} \<subseteq> {34..<58}"
    using assms(1) by (auto simp: lo_def hi_def bit_simps)
  have e: "{i. bit e i} = {i. bit lo i} \<union> {i. bit hi i}"
    by (auto simp: lo_def hi_def bit_simps dest: bit_imp_le_length)
  have "weight e = weight lo + weight hi"
    unfolding weight_def e by (rule card_Un_disjoint) (use lo hi in \<open>fastforce+\<close>)
  moreover have "gen_syndrome hi = lo"
    using assms(3) syndrome.xor [of lo hi] gen_syndrome_low [OF lo] by (simp add: hi_def xor_eq_0_iff_eq)
  ultimately have "weight hi \<notin> {1, 2, 3}"
    using data_weight [OF hi] assms(2) by auto
  then have "weight hi = 0 \<or> weight lo = 0"
    using \<open>weight e = weight lo + weight hi\<close> assms(2)
    by (simp del: weight_eq_0_iff) linarith
  then have "weight lo = 0"
    using \<open>gen_syndrome hi = lo\<close> by (auto simp: syndrome.zero)
  then have "lo = 0" "hi = 0"
    using data_independent [OF hi] \<open>gen_syndrome hi = lo\<close> by auto
  then show ?thesis by (simp add: hi_def)
qed


section \<open>The table corrects the errors it was built for\<close>

text \<open>The errors of \<open>d\<close> bits at or above position \<open>s\<close>, below the Barker code.\<close>

definition errors_from :: "nat \<Rightarrow> nat \<Rightarrow> u64 set" where
  "errors_from d s = {w. weight w = d \<and> {i. bit w i} \<subseteq> {s..<58}}"

lemma errors_from_0: "errors_from 0 s = {0}"
  by (auto simp: errors_from_def)

lemma weight_set_bit:
  assumes "{j. bit w j} \<subseteq> {Suc i..<58}" "i < 58"
  shows "weight (2 ^ i OR w :: u64) = Suc (weight w)"
proof -
  have "{j. bit (2 ^ i OR w) j} = insert i {j. bit w j}"
    using assms by (auto simp: bit_simps)
  moreover have "i \<notin> {j. bit w j}"
    using assms by auto
  ultimately show ?thesis by (simp add: weight_def)
qed

lemma errors_from_Suc:
  "errors_from (Suc d) s = (\<Union>i \<in> {s..<58}. (\<lambda>w. 2 ^ i OR w) ` errors_from d (Suc i))"
proof (intro equalityI subsetI)
  fix w
  assume w: "w \<in> errors_from (Suc d) s"
  then have "w \<noteq> 0" by (auto simp: errors_from_def)
  then obtain i where i: "bit w i" "\<And>j. j < i \<Longrightarrow> \<not> bit w j"
    by (rule lowest_bit) blast
  let ?v = "unset_bit i w"
  have iw: "i \<in> {s..<58}" using w i by (auto simp: errors_from_def)
  have "j \<in> {Suc i..<58}" if "bit ?v j" for j
    using that i w by (cases j i rule: linorder_cases) (auto simp: bit_simps errors_from_def)
  then have above: "{j. bit ?v j} \<subseteq> {Suc i..<58}" by blast
  moreover have eq: "w = 2 ^ i OR ?v"
    using i iw by (intro bit_word_eqI) (auto simp: bit_simps)
  moreover have "weight ?v = d"
    using weight_set_bit [OF above] iw eq w by (simp add: errors_from_def)
  ultimately have "?v \<in> errors_from d (Suc i)" by (auto simp: errors_from_def)
  with iw eq show "w \<in> (\<Union>i \<in> {s..<58}. (\<lambda>w. 2 ^ i OR w) ` errors_from d (Suc i))" by blast
next
  fix w
  assume "w \<in> (\<Union>i \<in> {s..<58}. (\<lambda>w. 2 ^ i OR w) ` errors_from d (Suc i))"
  then obtain i v where iv: "i \<in> {s..<58}" "v \<in> errors_from d (Suc i)" "w = 2 ^ i OR v"
    by blast
  then have "weight w = Suc d"
    using weight_set_bit [of v i] by (auto simp: errors_from_def)
  moreover have "{j. bit w j} \<subseteq> {s..<58}"
    using iv by (fastforce simp: errors_from_def bit_simps)
  ultimately show "w \<in> errors_from (Suc d) s" by (simp add: errors_from_def)
qed

lemma set_patterns: "set (patterns d s e) = (\<lambda>w. e OR w) ` errors_from d s"
proof (induction d arbitrary: s e)
  case (Suc d)
  then show ?case
    by (simp add: errors_from_Suc image_UN image_image or.assoc or.left_commute or.commute)
qed (simp add: errors_from_0)

definition table_errors :: "nat \<Rightarrow> u64 set" where
  "table_errors n = {e. e \<noteq> 0 \<and> weight e \<le> n \<and> {i. bit e i} \<subseteq> {..<58}}"

lemma table_errors_patterns: "set (concat (map (\<lambda>d. patterns d 0 0) [1..<Suc n])) = table_errors n"
  by (auto simp: set_patterns errors_from_def table_errors_def atLeast0LessThan less_Suc_eq_le
        simp flip: weight_eq_0_iff simp del: weight_eq_0_iff)

lemma set_gen_syndrome_map: "set (gen_syndrome_map (int n) []) = entry ` table_errors n"
  unfolding gen_syndrome_map_entries append_Nil2 set_rev set_map table_errors_patterns by (rule refl)

text \<open>Whatever the table returns is an error of at most \<open>n\<close> bits with the syndrome looked up.\<close>

lemma find_syndrome_sound:
  assumes "find_syndrome (gen_syndrome_map (int n) []) s = Some e"
  shows "e \<in> table_errors n \<and> gen_syndrome e = s"
  using map_of_SomeD [OF assms [unfolded find_syndrome_def]]
  by (auto simp: set_gen_syndrome_map entry_def)

lemma table_errors_inj:
  assumes "e \<in> table_errors n" "e' \<in> table_errors n" "n \<le> 2" "gen_syndrome e = gen_syndrome e'"
  shows "e = e'"
proof -
  have "weight (e XOR e') \<le> 4"
    using weight_xor_le [of e e'] assms by (simp add: table_errors_def)
  moreover have "{i. bit (e XOR e') i} \<subseteq> {..<58}"
    using assms by (fastforce simp: table_errors_def bit_simps)
  moreover have "gen_syndrome (e XOR e') = 0"
    using assms syndrome.eq_iff by blast
  ultimately have "e XOR e' = 0" using gen_syndrome_distance by blast
  then show ?thesis by (simp add: xor_eq_0_iff_eq)
qed

lemma find_syndrome_corrects:
  assumes "n \<le> 2" "e \<in> table_errors n"
  shows "find_syndrome (gen_syndrome_map (int n) []) (gen_syndrome e) = Some e"
proof -
  let ?m = "gen_syndrome_map (int n) []"
  have "(gen_syndrome e, e) \<in> set ?m"
    using assms(2) by (auto simp: set_gen_syndrome_map entry_def)
  then obtain e' where e': "find_syndrome ?m (gen_syndrome e) = Some e'"
    unfolding find_syndrome_def by (metis weak_map_of_SomeI)
  then have "e' = e"
    using find_syndrome_sound [OF e'] table_errors_inj assms by metis
  with e' show ?thesis by simp
qed

text \<open>A codeword has no entry: what needs no correction is not changed.\<close>

lemma find_syndrome_zero:
  assumes "n \<le> 4"
  shows "find_syndrome (gen_syndrome_map (int n) []) 0 = None"
proof (cases "find_syndrome (gen_syndrome_map (int n) []) 0")
  case (Some e)
  then have "e \<in> table_errors n" "gen_syndrome e = 0"
    using find_syndrome_sound by blast+
  then show ?thesis
    using gen_syndrome_distance [of e] assms by (auto simp: table_errors_def)
qed simp

end
