(* ===== verification/Packet.thy ===== *)
theory Packet
  imports Prelude
begin

text \<open>
  The packet of \<open>lib/src/bluetooth_packet.c\<close> and \<open>bluetooth_packet.h\<close>: \<open>struct btbb_packet\<close> with its
  constructors, flags and accessors. A \<open>btbb_packet *\<close> is the record itself, returned updated; field
  \<open>f\<close> of the struct is the selector \<open>pkt_f\<close>.

  \<open>packet_wf\<close> is the invariant of the arrays: their sizes, symbols that are 0 or 1, a symbol count
  and a payload length inside the arrays. The decoders need it to stay in bounds.
\<close>

section \<open>Constants\<close>

definition BTBB_WHITENED :: nat where [simp]: "BTBB_WHITENED = 0"
definition BTBB_NAP_VALID :: nat where [simp]: "BTBB_NAP_VALID = 1"
definition BTBB_UAP_VALID :: nat where [simp]: "BTBB_UAP_VALID = 2"
definition BTBB_LAP_VALID :: nat where [simp]: "BTBB_LAP_VALID = 3"
definition BTBB_CLK6_VALID :: nat where [simp]: "BTBB_CLK6_VALID = 4"
definition BTBB_CLK27_VALID :: nat where [simp]: "BTBB_CLK27_VALID = 5"
definition BTBB_CRC_CORRECT :: nat where [simp]: "BTBB_CRC_CORRECT = 6"
definition BTBB_HAS_PAYLOAD :: nat where [simp]: "BTBB_HAS_PAYLOAD = 7"
definition BTBB_IS_EDR :: nat where [simp]: "BTBB_IS_EDR = 8"
definition BTBB_HOP_REVERSAL_INIT :: nat where [simp]: "BTBB_HOP_REVERSAL_INIT = 9"
definition BTBB_GOT_FIRST_PACKET :: nat where [simp]: "BTBB_GOT_FIRST_PACKET = 10"
definition BTBB_IS_AFH :: nat where [simp]: "BTBB_IS_AFH = 11"
definition BTBB_LOOKS_LIKE_AFH :: nat where [simp]: "BTBB_LOOKS_LIKE_AFH = 12"
definition BTBB_IS_ALIASED :: nat where [simp]: "BTBB_IS_ALIASED = 13"
definition BTBB_FOLLOWING :: nat where [simp]: "BTBB_FOLLOWING = 14"

definition LAP_ANY :: u32 where "LAP_ANY = 0xffffffff"

definition MAX_SYMBOLS :: nat where [simp]: "MAX_SYMBOLS = 3125"
definition MAX_PAYLOAD_LENGTH :: nat where [simp]: "MAX_PAYLOAD_LENGTH = 2744"
definition ID_THRESHOLD :: int where [simp]: "ID_THRESHOLD = 5"

definition PACKET_TYPE_NULL :: u8 where [simp]: "PACKET_TYPE_NULL = 0"
definition PACKET_TYPE_POLL :: u8 where [simp]: "PACKET_TYPE_POLL = 1"
definition PACKET_TYPE_FHS :: u8 where [simp]: "PACKET_TYPE_FHS = 2"
definition PACKET_TYPE_DM1 :: u8 where [simp]: "PACKET_TYPE_DM1 = 3"
definition PACKET_TYPE_DH1 :: u8 where [simp]: "PACKET_TYPE_DH1 = 4"
definition PACKET_TYPE_HV1 :: u8 where [simp]: "PACKET_TYPE_HV1 = 5"
definition PACKET_TYPE_HV2 :: u8 where [simp]: "PACKET_TYPE_HV2 = 6"
definition PACKET_TYPE_HV3 :: u8 where [simp]: "PACKET_TYPE_HV3 = 7"
definition PACKET_TYPE_DV :: u8 where [simp]: "PACKET_TYPE_DV = 8"
definition PACKET_TYPE_AUX1 :: u8 where [simp]: "PACKET_TYPE_AUX1 = 9"
definition PACKET_TYPE_DM3 :: u8 where [simp]: "PACKET_TYPE_DM3 = 10"
definition PACKET_TYPE_DH3 :: u8 where [simp]: "PACKET_TYPE_DH3 = 11"
definition PACKET_TYPE_EV4 :: u8 where [simp]: "PACKET_TYPE_EV4 = 12"
definition PACKET_TYPE_EV5 :: u8 where [simp]: "PACKET_TYPE_EV5 = 13"
definition PACKET_TYPE_DM5 :: u8 where [simp]: "PACKET_TYPE_DM5 = 14"
definition PACKET_TYPE_DH5 :: u8 where [simp]: "PACKET_TYPE_DH5 = 15"

section \<open>The structure\<close>

record btbb_packet =
  pkt_refcount :: u32
  pkt_flags :: u32
  pkt_channel :: u8
  pkt_UAP :: u8
  pkt_NAP :: u16
  pkt_LAP :: u32
  pkt_modulation :: u8
  pkt_transport :: u8
  pkt_packet_type :: u8
  pkt_packet_lt_addr :: u8
  pkt_packet_flags :: u8
  pkt_packet_hec :: u8
  pkt_packet_header :: "sym list"
  pkt_payload_header_length :: int
  pkt_payload_header :: "sym list"
  pkt_payload_llid :: u8
  pkt_payload_flow :: u8
  pkt_payload_length :: int
  pkt_payload :: "sym list"
  pkt_crc :: u16
  pkt_clkn :: u32
  pkt_ac_errors :: u8
  pkt_length :: u16
  pkt_symbols :: "sym list"

text \<open>\<open>calloc\<close> zeroes the packet, or fails: \<open>allocated\<close> is what it answers.\<close>

definition btbb_packet_new :: "bool \<Rightarrow> btbb_packet option" where
  "btbb_packet_new allocated =
     (if allocated then Some \<lparr>
        pkt_refcount = 1, pkt_flags = 0, pkt_channel = 0, pkt_UAP = 0, pkt_NAP = 0, pkt_LAP = 0,
        pkt_modulation = 0, pkt_transport = 0, pkt_packet_type = 0, pkt_packet_lt_addr = 0,
        pkt_packet_flags = 0, pkt_packet_hec = 0, pkt_packet_header = replicate 18 0,
        pkt_payload_header_length = 0, pkt_payload_header = replicate 16 0, pkt_payload_llid = 0,
        pkt_payload_flow = 0, pkt_payload_length = 0, pkt_payload = replicate MAX_PAYLOAD_LENGTH 0,
        pkt_crc = 0, pkt_clkn = 0, pkt_ac_errors = 0, pkt_length = 0,
        pkt_symbols = replicate MAX_SYMBOLS 0 \<rparr>
      else None)"

definition btbb_packet_ref :: "btbb_packet \<Rightarrow> btbb_packet" where
  "btbb_packet_ref pkt = pkt\<lparr>pkt_refcount := pkt_refcount pkt + 1\<rparr>"

text \<open>\<open>None\<close>: the packet has been freed.\<close>

definition btbb_packet_unref :: "btbb_packet \<Rightarrow> btbb_packet option" where
  "btbb_packet_unref pkt =
     (let pkt = pkt\<lparr>pkt_refcount := pkt_refcount pkt - 1\<rparr>
      in if pkt_refcount pkt = 0 then None else Some pkt)"

section \<open>Flags\<close>

definition btbb_packet_set_flag :: "btbb_packet \<Rightarrow> nat \<Rightarrow> int \<Rightarrow> btbb_packet" where
  "btbb_packet_set_flag pkt flag val =
     (let mask = push_bit flag 1;
          pkt = pkt\<lparr>pkt_flags := pkt_flags pkt AND NOT mask\<rparr>
      in if val \<noteq> 0 then pkt\<lparr>pkt_flags := pkt_flags pkt OR mask\<rparr> else pkt)"

definition btbb_packet_get_flag :: "btbb_packet \<Rightarrow> nat \<Rightarrow> bool" where
  "btbb_packet_get_flag pkt flag =
     (let mask = push_bit flag 1 in pkt_flags pkt AND mask \<noteq> 0)"

definition init_packet :: "btbb_packet \<Rightarrow> u32 \<Rightarrow> u8 \<Rightarrow> btbb_packet" where
  "init_packet pkt lap ac_errors =
     (let pkt = pkt\<lparr>pkt_LAP := lap\<rparr>;
          pkt = pkt\<lparr>pkt_ac_errors := ac_errors\<rparr>;
          pkt = pkt\<lparr>pkt_flags := 0\<rparr>
      in btbb_packet_set_flag pkt BTBB_WHITENED 1)"

section \<open>Accessors\<close>

definition btbb_packet_get_lap :: "btbb_packet \<Rightarrow> u32" where
  "btbb_packet_get_lap pkt = pkt_LAP pkt"

definition btbb_packet_set_uap :: "btbb_packet \<Rightarrow> u8 \<Rightarrow> btbb_packet" where
  "btbb_packet_set_uap pkt uap = btbb_packet_set_flag (pkt\<lparr>pkt_UAP := uap\<rparr>) BTBB_UAP_VALID 1"

definition btbb_packet_get_uap :: "btbb_packet \<Rightarrow> u8" where
  "btbb_packet_get_uap pkt = pkt_UAP pkt"

definition btbb_packet_get_nap :: "btbb_packet \<Rightarrow> u16" where
  "btbb_packet_get_nap pkt = pkt_NAP pkt"

definition btbb_packet_get_clkn :: "btbb_packet \<Rightarrow> u32" where
  "btbb_packet_get_clkn pkt = pkt_clkn pkt"

definition btbb_packet_get_channel :: "btbb_packet \<Rightarrow> u8" where
  "btbb_packet_get_channel pkt = pkt_channel pkt"

definition btbb_packet_set_modulation :: "btbb_packet \<Rightarrow> u8 \<Rightarrow> btbb_packet" where
  "btbb_packet_set_modulation pkt modulation = pkt\<lparr>pkt_modulation := modulation\<rparr>"

definition btbb_packet_get_modulation :: "btbb_packet \<Rightarrow> u8" where
  "btbb_packet_get_modulation pkt = pkt_modulation pkt"

definition btbb_packet_set_transport :: "btbb_packet \<Rightarrow> u8 \<Rightarrow> btbb_packet" where
  "btbb_packet_set_transport pkt transport = pkt\<lparr>pkt_transport := transport\<rparr>"

definition btbb_packet_get_transport :: "btbb_packet \<Rightarrow> u8" where
  "btbb_packet_get_transport pkt = pkt_transport pkt"

definition btbb_packet_get_ac_errors :: "btbb_packet \<Rightarrow> u8" where
  "btbb_packet_get_ac_errors pkt = pkt_ac_errors pkt"

definition btbb_get_symbols :: "btbb_packet \<Rightarrow> sym list" where
  "btbb_get_symbols pkt = pkt_symbols pkt"

definition btbb_packet_get_payload_length :: "btbb_packet \<Rightarrow> int" where
  "btbb_packet_get_payload_length pkt = pkt_payload_length pkt"

definition btbb_get_payload :: "btbb_packet \<Rightarrow> sym list" where
  "btbb_get_payload pkt = pkt_payload pkt"

definition btbb_packet_get_type :: "btbb_packet \<Rightarrow> u8" where
  "btbb_packet_get_type pkt = pkt_packet_type pkt"

definition btbb_packet_get_lt_addr :: "btbb_packet \<Rightarrow> u8" where
  "btbb_packet_get_lt_addr pkt = pkt_packet_lt_addr pkt"

definition btbb_packet_get_header_flags :: "btbb_packet \<Rightarrow> u8" where
  "btbb_packet_get_header_flags pkt = pkt_packet_flags pkt"

definition btbb_packet_get_hec :: "btbb_packet \<Rightarrow> u8" where
  "btbb_packet_get_hec pkt = pkt_packet_hec pkt"

text \<open>
  \<open>btbb_packet_set_data\<close> copies at most \<open>MAX_SYMBOLS\<close> symbols of \<open>data\<close>; the loop does not run for a
  negative length. The length is stored in 16 bits.
\<close>

definition btbb_packet_set_data ::
    "btbb_packet \<Rightarrow> sym list \<Rightarrow> int \<Rightarrow> u8 \<Rightarrow> u32 \<Rightarrow> btbb_packet option" where
  "btbb_packet_set_data pkt data len channel clkn =
     (let len = (if len > int MAX_SYMBOLS then int MAX_SYMBOLS else len) in
      do {
        block \<leftarrow> sub data 0 (nat len);
        syms \<leftarrow> wr (pkt_symbols pkt) 0 block;
        Some (pkt\<lparr>pkt_symbols := syms, pkt_length := word_of_int len, pkt_channel := channel,
                  pkt_clkn := drop_bit 1 clkn\<rparr>)
      })"

section \<open>Air order\<close>

definition air_to_host8 :: "sym list \<Rightarrow> int \<Rightarrow> nat \<Rightarrow> u8 option" where
  "air_to_host8 air_order offset bits = do { ss \<leftarrow> sub air_order offset bits; Some (a2h 0 ss 0) }"

definition air_to_host16 :: "sym list \<Rightarrow> int \<Rightarrow> nat \<Rightarrow> u16 option" where
  "air_to_host16 air_order offset bits = do { ss \<leftarrow> sub air_order offset bits; Some (a2h 0 ss 0) }"

definition air_to_host32 :: "sym list \<Rightarrow> int \<Rightarrow> nat \<Rightarrow> u32 option" where
  "air_to_host32 air_order offset bits = do { ss \<leftarrow> sub air_order offset bits; Some (a2h 0 ss 0) }"

definition air_to_host64 :: "sym list \<Rightarrow> int \<Rightarrow> nat \<Rightarrow> u64 option" where
  "air_to_host64 air_order offset bits = do { ss \<leftarrow> sub air_order offset bits; Some (a2h 0 ss 0) }"

text \<open>The payload as bytes: the loop runs once for each byte of \<open>payload_length\<close>.\<close>

definition btbb_get_payload_packed :: "btbb_packet \<Rightarrow> (u8 list \<times> int) option" where
  "btbb_get_payload_packed pkt = do {
     dst \<leftarrow> those (map (\<lambda>i. air_to_host8 (pkt_payload pkt) (i * 8) 8) [0..pkt_payload_length pkt - 1]);
     Some (dst, pkt_payload_length pkt)
   }"

definition btbb_packet_get_header_packed :: "btbb_packet \<Rightarrow> u32 option" where
  "btbb_packet_get_header_packed pkt = air_to_host32 (pkt_packet_header pkt) 0 18"

section \<open>The invariant\<close>

definition packet_wf :: "btbb_packet \<Rightarrow> bool" where
  "packet_wf pkt \<longleftrightarrow>
     length (pkt_symbols pkt) = MAX_SYMBOLS \<and> is_bits (pkt_symbols pkt) \<and>
     length (pkt_payload pkt) = MAX_PAYLOAD_LENGTH \<and> is_bits (pkt_payload pkt) \<and>
     length (pkt_packet_header pkt) = 18 \<and> is_bits (pkt_packet_header pkt) \<and>
     length (pkt_payload_header pkt) = 16 \<and> is_bits (pkt_payload_header pkt) \<and>
     uint (pkt_length pkt) \<le> int MAX_SYMBOLS \<and>
     0 \<le> pkt_payload_length pkt \<and> pkt_payload_length pkt \<le> 343"

lemma packet_new_wf: "btbb_packet_new True = Some pkt \<Longrightarrow> packet_wf pkt"
  by (auto simp: btbb_packet_new_def packet_wf_def is_bits_def)

lemma set_flag_wf [simp]: "packet_wf (btbb_packet_set_flag pkt flag val) = packet_wf pkt"
  by (simp add: btbb_packet_set_flag_def packet_wf_def Let_def)

lemma set_flag_simps [simp]:
  "pkt_symbols (btbb_packet_set_flag pkt flag val) = pkt_symbols pkt"
  "pkt_payload (btbb_packet_set_flag pkt flag val) = pkt_payload pkt"
  "pkt_payload_length (btbb_packet_set_flag pkt flag val) = pkt_payload_length pkt"
  "pkt_length (btbb_packet_set_flag pkt flag val) = pkt_length pkt"
  "pkt_packet_type (btbb_packet_set_flag pkt flag val) = pkt_packet_type pkt"
  "pkt_UAP (btbb_packet_set_flag pkt flag val) = pkt_UAP pkt"
  "pkt_LAP (btbb_packet_set_flag pkt flag val) = pkt_LAP pkt"
  "pkt_clkn (btbb_packet_set_flag pkt flag val) = pkt_clkn pkt"
  "pkt_ac_errors (btbb_packet_set_flag pkt flag val) = pkt_ac_errors pkt"
  by (simp_all add: btbb_packet_set_flag_def Let_def)

lemma init_packet_wf [simp]: "packet_wf (init_packet pkt lap e) = packet_wf pkt"
  by (simp add: init_packet_def Let_def) (simp add: packet_wf_def)

text \<open>Flags are bits: a flag that is set is read back, and the others are unchanged.\<close>

lemma get_flag_bit: "flag < 32 \<Longrightarrow> btbb_packet_get_flag pkt flag \<longleftrightarrow> bit (pkt_flags pkt) flag"
  by (simp add: btbb_packet_get_flag_def push_bit_eq_mult and_exp_eq_0_iff_not_bit)

lemma bit_set_flag:
  "flag < 32 \<Longrightarrow> bit (pkt_flags (btbb_packet_set_flag pkt flag val)) n =
     (if n = flag then val \<noteq> 0 else bit (pkt_flags pkt) n)"
  using bit_imp_le_length [of "pkt_flags pkt" n]
  by (auto simp: btbb_packet_set_flag_def Let_def bit_simps)

text \<open>
  \<open>btbb_packet_set_data\<close> stores symbols that are 0 or 1 inside the arrays; only a negative length,
  which the 16 bit field turns into a large one, can break the invariant.
\<close>

lemma set_data_wf:
  assumes "packet_wf pkt" "is_bits data" "0 \<le> len" "len \<le> int (length data)"
  shows "\<exists>p. btbb_packet_set_data pkt data len channel clkn = Some p \<and> packet_wf p \<and>
    uint (pkt_length p) = min len (int MAX_SYMBOLS) \<and>
    take (nat (min len (int MAX_SYMBOLS))) (pkt_symbols p) = take (nat (min len (int MAX_SYMBOLS))) data"
proof -
  define n where "n = min len (int MAX_SYMBOLS)"
  have n: "0 \<le> n" "n \<le> int (length data)" "n \<le> 3125"
    using assms by (auto simp: n_def)
  have "(if len > int MAX_SYMBOLS then int MAX_SYMBOLS else len) = n"
    by (auto simp: n_def)
  moreover have "uint (word_of_int n :: u16) = n"
    using n by (simp add: word_uint_eqI take_bit_int_eq_self_iff of_int_eq_iff unsigned_of_int)
  moreover have "sub data 0 (nat n) = Some (take (nat n) data)"
    using n by (simp add: sub_def)
  ultimately show ?thesis
    using assms n unfolding btbb_packet_set_data_def n_def [symmetric] Let_def
    by (auto simp: wr_def packet_wf_def intro!: bits_intros)
qed

end
