(* ===== verification/AccessCode.thy ===== *)
theory AccessCode
  imports SyndromeMap Packet
begin

text \<open>
  Finding an access code in a symbol stream: \<open>promiscuous_packet_search\<close>, \<open>find_known_lap\<close> and
  \<open>btbb_find_ac\<close> of \<open>lib/src/bluetooth_packet.c\<close>.

  The loops run over the offset \<open>count\<close>; \<open>remaining\<close> is the number of offsets left. A result
  \<open>None\<close> is a read outside the stream or a table. The output parameters \<open>lap\<close> and \<open>ac_errors\<close> are
  threaded as values, so that what the code leaves in them on failure is visible.
\<close>

section \<open>The search loops\<close>

definition MAX_BARKER_ERRORS :: u8 where "MAX_BARKER_ERRORS = 1"

text \<open>\<open>count_bits\<close>, in the portable form of the code: clear the lowest one bit and count.\<close>

definition count_bits :: "u64 \<Rightarrow> u8" where
  "count_bits n = of_nat (clear_lowest_loop n)"

text \<open>The correction of one candidate: the sync word and its error count (\<open>0xff\<close> for a failure).\<close>

definition correct_syncword :: "syndrome_map \<Rightarrow> u64 \<Rightarrow> (u64 \<times> u8) option" where
  "correct_syncword syndrome_map syncword = do {
     corrected_barker \<leftarrow> rd barker_correct (uint (ucast (drop_bit 57 syncword) :: u8));
     let syncword = (syncword AND 0x01ffffffffffffff) OR corrected_barker;
     let codeword = syncword XOR pn;
     let syndrome = gen_syndrome codeword;
     Some (if syndrome \<noteq> 0 then
             (case find_syndrome syndrome_map syndrome of
                Some error \<Rightarrow> (syncword XOR error, count_bits error)
              | None \<Rightarrow> (syncword, 0xff))
           else (syncword, 0))
   }"

fun promiscuous_loop ::
    "syndrome_map \<Rightarrow> sym list \<Rightarrow> int \<Rightarrow> nat \<Rightarrow> nat \<Rightarrow> u8 \<Rightarrow> u32 \<Rightarrow> u8 \<Rightarrow> (int \<times> u32 \<times> u8) option" where
  "promiscuous_loop syndrome_map stream max_ac_errors count 0 barker lap ac_errors =
     Some (-1, lap, ac_errors)"
| "promiscuous_loop syndrome_map stream max_ac_errors count (Suc remaining) barker lap ac_errors = do {
     last_symbol \<leftarrow> rd stream (int count + 63);
     let barker = drop_bit 1 barker OR push_bit 6 last_symbol;
     distance \<leftarrow> rd BARKER_DISTANCE (uint barker);
     if distance \<le> MAX_BARKER_ERRORS then do {
       syncword \<leftarrow> air_to_host64 stream (int count) 64;
       (syncword, ac_errors) \<leftarrow> correct_syncword syndrome_map syncword;
       if uint ac_errors \<le> max_ac_errors
       then Some (int count, ucast (drop_bit 34 syncword AND 0xffffff), ac_errors)
       else promiscuous_loop syndrome_map stream max_ac_errors (Suc count) remaining barker lap ac_errors
     }
     else promiscuous_loop syndrome_map stream max_ac_errors (Suc count) remaining barker lap ac_errors
   }"

definition promiscuous_packet_search ::
    "syndrome_map \<Rightarrow> sym list \<Rightarrow> int \<Rightarrow> u32 \<Rightarrow> int \<Rightarrow> u8 \<Rightarrow> (int \<times> u32 \<times> u8) option" where
  "promiscuous_packet_search syndrome_map stream search_length lap max_ac_errors ac_errors = do {
     barker \<leftarrow> air_to_host8 stream 57 6;
     let barker = push_bit 1 barker;
     promiscuous_loop syndrome_map stream max_ac_errors 0 (nat search_length) barker lap ac_errors
   }"

fun known_lap_loop ::
    "sym list \<Rightarrow> u64 \<Rightarrow> int \<Rightarrow> nat \<Rightarrow> nat \<Rightarrow> u8 \<Rightarrow> (int \<times> u8) option" where
  "known_lap_loop stream ac max_ac_errors count 0 ac_errors = Some (-1, ac_errors)"
| "known_lap_loop stream ac max_ac_errors count (Suc remaining) ac_errors = do {
     syncword \<leftarrow> air_to_host64 stream (int count) 64;
     let ac_errors = count_bits (syncword XOR ac);
     if uint ac_errors \<le> max_ac_errors then Some (int count, ac_errors)
     else known_lap_loop stream ac max_ac_errors (Suc count) remaining ac_errors
   }"

definition find_known_lap :: "sym list \<Rightarrow> int \<Rightarrow> u32 \<Rightarrow> int \<Rightarrow> u8 \<Rightarrow> (int \<times> u8) option" where
  "find_known_lap stream search_length lap max_ac_errors ac_errors =
     known_lap_loop stream (btbb_gen_syncword lap) max_ac_errors 0 (nat search_length) ac_errors"

text \<open>
  \<open>btbb_find_ac\<close>: \<open>pkt\<close> is the content of \<open>*pkt_ptr\<close> (\<open>None\<close> for \<open>NULL\<close>), \<open>ac_errors\<close> the
  uninitialised local variable. Allocation in \<open>btbb_packet_new\<close> is taken to succeed.
\<close>

definition btbb_find_ac ::
    "syndrome_map \<Rightarrow> sym list \<Rightarrow> int \<Rightarrow> u32 \<Rightarrow> int \<Rightarrow> btbb_packet option \<Rightarrow> u8 \<Rightarrow>
     (int \<times> btbb_packet option) option" where
  "btbb_find_ac syndrome_map stream search_length lap max_ac_errors pkt ac_errors = do {
     (offset, lap, ac_errors) \<leftarrow>
       (if lap = LAP_ANY
        then promiscuous_packet_search syndrome_map stream search_length lap max_ac_errors ac_errors
        else map_option (\<lambda>(offset, ac_errors). (offset, lap, ac_errors))
               (find_known_lap stream search_length lap max_ac_errors ac_errors));
     if offset \<ge> 0 then do {
       p \<leftarrow> (case pkt of None \<Rightarrow> btbb_packet_new True | Some p \<Rightarrow> Some p);
       Some (offset, Some (init_packet p lap ac_errors))
     }
     else Some (offset, pkt)
   }"

section \<open>The window of 64 symbols\<close>

definition window :: "sym list \<Rightarrow> nat \<Rightarrow> u64" where
  "window stream k = a2h 0 (take 64 (drop k stream)) 0"

lemma air_to_host64_window:
  "k + 64 \<le> length stream \<Longrightarrow> air_to_host64 stream (int k) 64 = Some (window stream k)"
  by (simp add: air_to_host64_def window_def sub_def)

lemma bit_window:
  assumes "is_bits stream" "k + 64 \<le> length stream"
  shows "bit (window stream k) n \<longleftrightarrow> n < 64 \<and> stream ! (k + n) = 1"
  using assms by (auto simp: window_def bit_a2h_0 bits_intros)

lemma window_host_to_air:
  assumes "take 64 (drop k stream) = host_to_air 64 w"
  shows "window stream k = w"
  unfolding window_def assms a2h_host_to_air by (rule bit_word_eqI) (auto simp: bit_simps)

section \<open>The search for a known LAP\<close>

lemma count_bits_weight: "uint (count_bits w) = int (weight w)"
  using weight_le_LENGTH [of w]
  by (simp add: count_bits_def clear_lowest_loop_weight unsigned_of_nat take_bit_nat_eq_self_iff)

lemma known_lap_loop_spec:
  assumes "count + remaining + 63 \<le> length stream"
  shows "\<exists>e. known_lap_loop stream ac m count remaining e0 =
    Some (case find (\<lambda>k. int (weight (window stream k XOR ac)) \<le> m) [count..<count + remaining] of
            Some k \<Rightarrow> (int k, of_nat (weight (window stream k XOR ac)))
          | None \<Rightarrow> (-1, e))"
  using assms
proof (induction remaining arbitrary: count e0)
  case 0
  then show ?case by simp
next
  case (Suc r)
  show ?case
  proof (cases "int (weight (window stream count XOR ac)) \<le> m")
    case True
    with Suc.prems show ?thesis
      by (simp add: air_to_host64_window count_bits_weight upt_conv_Cons del: upt_Suc)
        (simp add: count_bits_def clear_lowest_loop_weight)
  next
    case False
    with Suc.prems Suc.IH [of "Suc count" "count_bits (window stream count XOR ac)"] show ?thesis
      by (simp add: air_to_host64_window count_bits_weight upt_conv_Cons del: upt_Suc)
  qed
qed

lemma find_known_lap_first:
  assumes "0 \<le> n" "n + 63 \<le> int (length stream)"
  shows "\<exists>e. find_known_lap stream n lap m e0 =
    Some (case find (\<lambda>k. int (weight (window stream k XOR btbb_gen_syncword lap)) \<le> m) [0..<nat n] of
            Some k \<Rightarrow> (int k, of_nat (weight (window stream k XOR btbb_gen_syncword lap)))
          | None \<Rightarrow> (-1, e))"
  unfolding find_known_lap_def
  using known_lap_loop_spec [of 0 "nat n" stream] assms by simp

section \<open>The Barker tables\<close>

definition barker_near :: "u8 \<Rightarrow> nat" where
  "barker_near b = min (weight (b XOR 0x27)) (weight (b XOR 0x58))"

lemma barker_tables:
  "map unat BARKER_DISTANCE = map (\<lambda>i. barker_near (of_nat i)) [0..<128]"
  "barker_correct = map (\<lambda>i. if weight (of_nat i XOR 0x27 :: u8) \<le> 3 then push_bit 57 0x27 else push_bit 57 0x58) [0..<128]"
proof -
  have "[0..<128] = [0..<64] @ [64..<128::nat]"
    using upt_add_eq_append [of 0 64 64] by (simp del: upt_rec_numeral)
  then show "map unat BARKER_DISTANCE = map (\<lambda>i. barker_near (of_nat i)) [0..<128]"
    by (simp only:) (simp add: BARKER_DISTANCE_def barker_near_def upt_eval weight_numeral)
  show "barker_correct = map (\<lambda>i. if weight (of_nat i XOR 0x27 :: u8) \<le> 3 then push_bit 57 0x27 else push_bit 57 0x58) [0..<128]"
    unfolding \<open>[0..<128] = [0..<64] @ [64..<128]\<close>
    by (simp add: barker_correct_def upt_eval weight_numeral)
qed

lemma barker_entry:
  assumes "uint (b :: u8) < 128"
  shows "rd BARKER_DISTANCE (uint b) = Some (BARKER_DISTANCE ! unat b)"
    and "unat (BARKER_DISTANCE ! unat b) = barker_near b"
    and "rd barker_correct (uint b) =
      Some (if weight (b XOR 0x27) \<le> 3 then push_bit 57 0x27 else push_bit 57 0x58)"
proof -
  have lt: "unat b < 128" using assms nat_less_iff [of "uint b" 128] by simp
  have len: "length BARKER_DISTANCE = 128"
    by (simp add: BARKER_DISTANCE_def)
  show "rd BARKER_DISTANCE (uint b) = Some (BARKER_DISTANCE ! unat b)"
    unfolding rd_def unat_eq_nat_uint by (rule if_P) (simp only: len, simp add: assms)
  show "unat (BARKER_DISTANCE ! unat b) = barker_near b"
    using lt len arg_cong [OF barker_tables(1), of "\<lambda>xs. xs ! unat b"]
    by (simp del: upt_rec_numeral)
  show "rd barker_correct (uint b) =
      Some (if weight (b XOR 0x27) \<le> 3 then push_bit 57 0x27 else push_bit 57 0x58)"
    using lt assms unfolding barker_tables(2) by (simp add: rd_def del: upt_rec_numeral)
qed

section \<open>The promiscuous search\<close>

text \<open>The last seven symbols of a window, as the loop keeps them in \<open>barker\<close>.\<close>

definition barker_of :: "u64 \<Rightarrow> u8" where
  "barker_of w = ucast (drop_bit 57 w)"

lemma bit_barker_of: "bit (barker_of w) n \<longleftrightarrow> n < 7 \<and> bit w (57 + n)"
  using bit_imp_le_length [of w "57 + n"] by (auto simp: barker_of_def bit_simps)

lemma barker_of_lt: "uint (barker_of w) < 128"
proof -
  have "barker_of w = take_bit 7 (barker_of w)"
    by (rule bit_word_eqI) (auto simp: bit_simps bit_barker_of)
  then have "uint (barker_of w) = take_bit 7 (uint (barker_of w))"
    by (metis unsigned_take_bit_eq)
  also have "\<dots> < 2 ^ 7" by (rule take_bit_int_less_exp)
  finally show ?thesis by simp
qed

definition corrected :: "syndrome_map \<Rightarrow> u64 \<Rightarrow> u64 \<times> u8" where
  "corrected m w =
     (let b = barker_of w;
          w = (w AND 0x01ffffffffffffff) OR
              (if weight (b XOR 0x27) \<le> 3 then push_bit 57 0x27 else push_bit 57 0x58);
          s = gen_syndrome (w XOR pn)
      in if s = 0 then (w, 0)
         else case find_syndrome m s of Some e \<Rightarrow> (w XOR e, of_nat (weight e)) | None \<Rightarrow> (w, 0xff))"

lemma correct_syncword_corrected: "correct_syncword m w = Some (corrected m w)"
  by (simp add: correct_syncword_def barker_entry(3) barker_of_lt flip: barker_of_def)
    (simp add: corrected_def Let_def count_bits_def clear_lowest_loop_weight split: option.split)

definition accepts :: "syndrome_map \<Rightarrow> int \<Rightarrow> u64 \<Rightarrow> bool" where
  "accepts m max_ac_errors w \<longleftrightarrow>
     barker_near (barker_of w) \<le> 1 \<and> uint (snd (corrected m w)) \<le> max_ac_errors"

lemma promiscuous_loop_spec:
  assumes "is_bits stream" "count + remaining + 63 \<le> length stream"
    "\<And>n. 1 \<le> n \<Longrightarrow> n \<le> 7 \<Longrightarrow> bit barker n \<longleftrightarrow> n \<le> 6 \<and> stream ! (count + 56 + n) = 1"
  shows "\<exists>e. promiscuous_loop m stream max_err count remaining barker lap e0 =
    Some (case find (\<lambda>k. accepts m max_err (window stream k)) [count..<count + remaining] of
            Some k \<Rightarrow> (let (w, errors) = corrected m (window stream k)
                       in (int k, lap_of_syncword w, errors))
          | None \<Rightarrow> (-1, lap, e))"
  using assms(2,3)
proof (induction remaining arbitrary: count barker e0)
  case 0
  then show ?case by simp
next
  case (Suc r)
  let ?w = "window stream count" and ?s = "stream ! (count + 63)"
  let ?b = "drop_bit (Suc 0) barker OR push_bit 6 ?s"
  have inside: "count + 64 \<le> length stream" using Suc.prems(1) by simp
  have last: "rd stream (int count + 63) = Some ?s"
    using inside by (simp add: rd_def nat_add_distrib)
  have s: "?s = 0 \<or> ?s = 1" using is_bits_nth [OF assms(1)] inside by simp
  have b: "?b = barker_of ?w"
  proof (rule bit_word_eqI)
    fix n assume n: "n < LENGTH(8)"
    have "bit barker (Suc n) \<longleftrightarrow> n \<le> 5 \<and> stream ! (count + 57 + n) = 1"
      using Suc.prems(2) [of "Suc n"] n bit_imp_le_length [of barker "Suc n"] by (cases "n \<le> 6") (auto simp: ac_simps)
    moreover have "bit (push_bit 6 ?s) n \<longleftrightarrow> n = 6 \<and> ?s = 1"
      using s n by (auto simp: bit_simps)
    ultimately show "bit ?b n = bit (barker_of ?w) n"
      using n by (cases "n = 6") (auto simp: bit_simps bit_barker_of bit_window [OF assms(1) inside] ac_simps)
  qed
  have dist: "BARKER_DISTANCE ! unat (barker_of ?w) \<le> MAX_BARKER_ERRORS \<longleftrightarrow> barker_near (barker_of ?w) \<le> 1"
    using barker_entry(2) [OF barker_of_lt [of ?w]] by (simp add: MAX_BARKER_ERRORS_def word_le_nat_alt)
  have rest: "\<exists>e. promiscuous_loop m stream max_err (Suc count) r (barker_of ?w) lap e1 =
    Some (case find (\<lambda>k. accepts m max_err (window stream k)) [Suc count..<count + Suc r] of
            Some k \<Rightarrow> (let (w, errors) = corrected m (window stream k)
                       in (int k, lap_of_syncword w, errors))
          | None \<Rightarrow> (-1, lap, e))" for e1
  proof -
    have "bit (barker_of ?w) n \<longleftrightarrow> n \<le> 6 \<and> stream ! (Suc count + 56 + n) = 1" for n
      using inside by (auto simp: bit_barker_of bit_window [OF assms(1)] ac_simps)
    then show ?thesis
      using Suc.IH [of "Suc count" "barker_of ?w" e1] Suc.prems(1) by (simp del: upt_Suc)
  qed
  show ?case
  proof (cases "accepts m max_err ?w")
    case True
    then show ?thesis
      by (simp add: last b barker_entry(1) barker_of_lt dist accepts_def air_to_host64_window inside
          correct_syncword_corrected upt_conv_Cons case_prod_beta Let_def lap_of_syncword_def del: upt_Suc)
  next
    case False
    with rest [of e0] rest [of "snd (corrected m ?w)"] show ?thesis
      by (auto simp: last b barker_entry(1) barker_of_lt dist accepts_def air_to_host64_window inside
          correct_syncword_corrected upt_conv_Cons case_prod_beta Let_def simp del: upt_Suc)
  qed
qed

lemma promiscuous_search_spec:
  assumes "is_bits stream" "0 \<le> n" "n + 63 \<le> int (length stream)"
  shows "\<exists>e. promiscuous_packet_search m stream n lap max_err e0 =
    Some (case find (\<lambda>k. accepts m max_err (window stream k)) [0..<nat n] of
            Some k \<Rightarrow> (let (w, errors) = corrected m (window stream k)
                       in (int k, lap_of_syncword w, errors))
          | None \<Rightarrow> (-1, lap, e))"
proof -
  let ?b = "a2h 0 (take 6 (drop 57 stream)) 0 :: u8"
  have "air_to_host8 stream 57 6 = Some ?b"
    using assms by (simp add: air_to_host8_def sub_def)
  moreover have "bit (push_bit 1 ?b) k \<longleftrightarrow> k \<le> 6 \<and> stream ! (0 + 56 + k) = 1" if "1 \<le> k" "k \<le> 7" for k
    using assms that unfolding bit_push_bit_iff bit_a2h_0 [OF is_bits_take [OF is_bits_drop [OF assms(1)]]]
    by auto
  ultimately show ?thesis
    unfolding promiscuous_packet_search_def
    using promiscuous_loop_spec [OF assms(1), of 0 "nat n" "push_bit 1 ?b" m max_err lap e0] assms by simp
qed

section \<open>A transmitted sync word is found and corrected\<close>

text \<open>
  \<open>e\<close>: errors in the 57 symbols below the Barker code; \<open>b\<close>: errors inside it.
\<close>

definition received_syncword :: "u32 \<Rightarrow> u64 \<Rightarrow> u8 \<Rightarrow> u64" where
  "received_syncword lap e b = btbb_gen_syncword lap XOR e XOR push_bit 57 (ucast b)"

definition barker_errors :: "u8 list" where
  "barker_errors = [0, 1, 2, 4, 8, 16, 32, 64]"

lemma barker_error_cases:
  assumes "weight (b :: u8) \<le> 1" "uint b < 128"
  shows "b \<in> set barker_errors"
  using assms(1)
proof (cases rule: weight_le_1_cases)
  case 1
  then show ?thesis by (simp add: barker_errors_def)
next
  case (2 i)
  then have "i \<noteq> 7" using assms(2) by auto
  with 2 have "i \<in> {0, 1, 2, 3, 4, 5, 6}" by auto
  with 2 show ?thesis by (auto simp: barker_errors_def)
qed

lemma barker_small_error:
  "\<forall>b \<in> set barker_errors.
     barker_near (0x27 XOR b) \<le> 1 \<and> weight ((0x27 XOR b) XOR 0x27) \<le> 3 \<and>
     barker_near (0x58 XOR b) \<le> 1 \<and> \<not> weight ((0x58 XOR b) XOR 0x27) \<le> 3"
  by (simp add: barker_errors_def barker_near_def weight_numeral)

lemma syncword_barker_bits:
  "bit (btbb_gen_syncword lap) (57 + n) \<longleftrightarrow> bit (if bit lap 23 then 0x27 else 0x58 :: u8) n"
proof -
  have "bit (btbb_gen_syncword lap) (57 + n) \<longleftrightarrow> bit (drop_bit 57 (btbb_gen_syncword lap)) n"
    by (simp add: bit_simps)
  also have "\<dots> \<longleftrightarrow> bit (ucast (if bit lap 23 then 0x27 else 0x58 :: u8) :: u64) n"
    unfolding barker_of_gen_syncword by simp
  finally show ?thesis
    using bit_imp_le_length [of "if bit lap 23 then 0x27 else 0x58 :: u8" n]
    by (simp only: bit_unsigned_iff) auto
qed

lemma received_barker:
  assumes "{i. bit e i} \<subseteq> {..<57}" "b \<in> set barker_errors"
  shows "barker_of (received_syncword lap e b) = (if bit lap 23 then 0x27 else 0x58) XOR b"
proof (rule bit_word_eqI)
  fix n assume "n < LENGTH(8)"
  have "\<not> bit e (57 + n)" using assms(1) by auto
  moreover have "\<not> bit b 7"
    using assms(2) by (auto simp: barker_errors_def)
  ultimately show "bit (barker_of (received_syncword lap e b)) n =
      bit ((if bit lap 23 then 0x27 else 0x58) XOR b) n"
    using \<open>n < LENGTH(8)\<close>
    by (cases "n = 7") (auto simp: bit_barker_of received_syncword_def syncword_barker_bits bit_xor_iff
      bit_push_bit_iff bit_unsigned_iff)
qed

lemma bit_low57: "bit (0x01ffffffffffffff :: u64) n \<longleftrightarrow> n < 57"
proof -
  have "(0x01ffffffffffffff :: u64) = mask 57"
    by (simp add: mask_eq_exp_minus_1)
  then show ?thesis by (simp only: bit_mask_iff) auto
qed

text \<open>Comparing with the two Barker codes removes the errors inside the code.\<close>

lemma received_barker_fixed:
  assumes "{i. bit e i} \<subseteq> {..<57}" "b \<in> set barker_errors"
  shows "(received_syncword lap e b AND 0x01ffffffffffffff) OR
      (if weight (barker_of (received_syncword lap e b) XOR 0x27) \<le> 3
       then push_bit 57 0x27 else push_bit 57 0x58) = btbb_gen_syncword lap XOR e"
proof -
  let ?s = "btbb_gen_syncword lap" and ?k = "if bit lap 23 then 0x27 else 0x58 :: u8"
  have "(if weight (barker_of (received_syncword lap e b) XOR 0x27) \<le> 3
       then push_bit 57 0x27 else push_bit 57 0x58) = push_bit 57 (ucast ?k :: u64)"
    unfolding received_barker [OF assms] using barker_small_error assms(2) by auto
  moreover have "(received_syncword lap e b AND 0x01ffffffffffffff) OR push_bit 57 (ucast ?k) = ?s XOR e"
  proof (rule bit_word_eqI)
    fix n assume n: "n < LENGTH(64)"
    show "bit ((received_syncword lap e b AND 0x01ffffffffffffff) OR push_bit 57 (ucast ?k)) n =
        bit (?s XOR e) n"
    proof (cases "n < 57")
      case True
      then show ?thesis
        by (simp only: bit_or_iff bit_and_iff bit_low57 bit_push_bit_iff received_syncword_def bit_xor_iff) auto
    next
      case False
      then obtain m where m: "n = 57 + m" using le_Suc_ex by (metis not_less)
      have "\<not> bit e n" using assms(1) False by auto
      then show ?thesis
        using n unfolding m bit_or_iff bit_and_iff bit_low57 bit_push_bit_iff bit_xor_iff
          syncword_barker_bits bit_unsigned_iff
        by auto
    qed
  qed
  ultimately show ?thesis by simp
qed

lemma corrected_received:
  assumes "{i. bit e i} \<subseteq> {..<57}" "weight e \<le> n" "n \<le> 2" "b \<in> set barker_errors"
  shows "corrected (gen_syndrome_map (int n) []) (received_syncword lap e b) =
    (btbb_gen_syncword lap, of_nat (weight e))"
proof -
  have syn: "gen_syndrome ((btbb_gen_syncword lap XOR e) XOR pn) = gen_syndrome e"
  proof -
    have "gen_syndrome DEFAULT_CODEWORD = gen_syndrome pn"
      using DEFAULT_CODEWORD_pn by (simp add: syndrome.xor xor_eq_0_iff_eq)
    then show ?thesis
      by (simp add: syndrome.xor gen_syndrome_syncword xor.assoc)
  qed
  have e: "e \<in> table_errors n" if "e \<noteq> 0"
    using assms that by (auto simp: table_errors_def)
  show ?thesis
  proof (cases "e = 0")
    case True
    then show ?thesis
      unfolding corrected_def Let_def received_barker_fixed [OF assms(1,4)] syn
      by (simp add: syndrome.zero)
  next
    case False
    have "{i. bit e i} \<subseteq> {..<58}"
      using assms(1) by fastforce
    then have "gen_syndrome e \<noteq> 0"
      using gen_syndrome_distance [of e] assms(2,3) False by auto
    then show ?thesis
      unfolding corrected_def Let_def received_barker_fixed [OF assms(1,4)] syn
      using find_syndrome_corrects [OF assms(3) e [OF False]] by (simp add: xor.assoc)
  qed
qed

text \<open>
  C1. A sync word sent in the stream is found by \<open>promiscuous_packet_search\<close>,
  with its LAP, although up to two of its symbols below the Barker code and one symbol of the Barker
  code are wrong, when no earlier window of the stream is accepted. The table is the one
  \<open>btbb_init\<close> builds for \<open>t\<close> errors.
\<close>

lemma promiscuous_search_finds:
  assumes "is_bits stream" "k < n" "n + 63 \<le> length stream"
    and "window stream k = received_syncword lap e b"
    and "{i. bit e i} \<subseteq> {..<57}" "weight e \<le> t" "t \<le> 2" "b \<in> set barker_errors"
    and "\<And>j. j < k \<Longrightarrow> \<not> accepts (gen_syndrome_map (int t) []) (int t) (window stream j)"
  shows "promiscuous_packet_search (gen_syndrome_map (int t) []) stream (int n) lap0 (int t) e0 =
    Some (int k, take_bit 24 lap, of_nat (weight e))"
proof -
  let ?m = "gen_syndrome_map (int t) []"
  have c: "corrected ?m (window stream k) = (btbb_gen_syncword lap, of_nat (weight e))"
    unfolding assms(4) by (rule corrected_received) fact+
  have near: "barker_near (barker_of (window stream k)) \<le> 1"
    unfolding assms(4) received_barker [OF assms(5,8)] using barker_small_error assms(8) by auto
  have "uint (of_nat (weight e) :: u8) \<le> int t"
    using assms(6,7) by (simp add: unsigned_of_nat take_bit_nat_eq_self)
  with c near have acc: "accepts ?m (int t) (window stream k)"
    by (simp add: accepts_def)
  have "find (\<lambda>j. accepts ?m (int t) (window stream j)) [0..<n] = Some k"
    using acc assms(2,9) by (auto simp: find_Some_iff intro!: exI [of _ k])
  then show ?thesis
    using promiscuous_search_spec [OF assms(1), of "int n" ?m lap0 "int t" e0] assms(2,3) c
    by (simp add: lap_of_gen_syncword)
qed

lemma promiscuous_search_finds_witness:
  "promiscuous_packet_search (gen_syndrome_map 2 [])
     (host_to_air 64 (received_syncword 0x9e8b33 0x10000000008 4)) 1 0 2 0 = Some (0, 0x9e8b33, 2)"
proof -
  let ?e = "0x10000000008 :: u64"
  let ?s = "host_to_air 64 (received_syncword 0x9e8b33 ?e 4)"
  have w: "weight ?e = 2" by (simp add: weight_numeral)
  have "?e = take_bit 57 ?e" by simp
  then have "{i. bit ?e i} \<subseteq> {..<57}" by (metis (mono_tags, lifting) bit_take_bit_iff lessThan_iff mem_Collect_eq subsetI)
  then have "promiscuous_packet_search (gen_syndrome_map (int 2) []) ?s (int 1) 0 (int 2) 0 =
      Some (int 0, take_bit 24 0x9e8b33, of_nat (weight ?e))"
    by (intro promiscuous_search_finds [where b = 4])
      (simp_all add: window_host_to_air w barker_errors_def)
  then show ?thesis by (simp add: w)
qed

end
