(* ===== verification/BitCodes.thy ===== *)
theory BitCodes
  imports Packet "HOL-Library.Signed_Division"
begin

text \<open>
  The codes of \<open>lib/src/bluetooth_packet.c\<close> below the access code: the 1/3 rate repetition code
  (\<open>unfec13\<close>), the 2/3 rate shortened Hamming code (\<open>fec23\<close>, \<open>unfec23\<close>), whitening (\<open>unwhiten\<close>), the
  payload CRC (\<open>crcgen\<close>) and the header check (\<open>uap_from_hec\<close>).

  An input pointer is the array and an offset, an output array is the list that the code stores in
  it. A clock argument is the 32 bit word, of which the code uses the low six bits.
\<close>

section \<open>Definitions\<close>

text \<open>Reverse the bits in a byte.\<close>

definition reverse :: "u8 \<Rightarrow> u8" where
  "reverse byte =
     drop_bit 7 (byte AND 0x80) OR drop_bit 5 (byte AND 0x40) OR drop_bit 3 (byte AND 0x20) OR
     drop_bit 1 (byte AND 0x10) OR push_bit 1 (byte AND 0x08) OR push_bit 3 (byte AND 0x04) OR
     push_bit 5 (byte AND 0x02) OR push_bit 7 (byte AND 0x01)"

text \<open>Decode 1/3 rate FEC: the symbols and the number of triples that disagree.\<close>

fun unfec13_loop :: "sym list \<Rightarrow> sym list \<times> int" where
  "unfec13_loop (a # b # c # input) =
     (let (output, be) = unfec13_loop input in
        (((a AND b) OR (b AND c) OR (c AND a)) # output,
         sint ((a XOR b) OR (b XOR c) OR (c XOR a)) + be))"
| "unfec13_loop input = ([], 0)"

definition unfec13 :: "sym list \<Rightarrow> int \<Rightarrow> nat \<Rightarrow> (sym list \<times> bool) option" where
  "unfec13 input offset len = do {
     block \<leftarrow> sub input offset (3 * len);
     let (output, be) = unfec13_loop block;
     Some (output, be < int len div 4)
   }"

definition fec23_gen_matrix :: "u16 list" where
  "fec23_gen_matrix = [
     0x2c01, 0x5802, 0x1c04, 0x3808, 0x7010,
     0x4c20, 0x3440, 0x6880, 0x7d00, 0x5600]"

text \<open>Encode 10 bits with 2/3 rate FEC, a (15,10) shortened Hamming code.\<close>

definition fec23 :: "u16 \<Rightarrow> u16" where
  "fec23 data =
     fold (\<lambda>i codeword. if data AND push_bit i 1 \<noteq> 0 then codeword XOR fec23_gen_matrix ! i else codeword)
       [0..<10] 0"

definition flip_at :: "sym list \<Rightarrow> nat \<Rightarrow> sym list" where
  "flip_at output i = output[i := output ! i XOR 1]"

text \<open>One block of 15 symbols: ten data symbols, corrected, or \<open>None\<close> for more than one error.\<close>

definition unfec23_block :: "sym list \<Rightarrow> sym list option" where
  "unfec23_block input =
     (let output = take 10 input;
          data = (a2h 0 (take 10 input) 0 :: u16);
          check = (a2h 0 (take 5 (drop 10 input)) 0 :: u8);
          codeword = fec23 data;
          diff = check XOR ucast (drop_bit 10 codeword)
      in if diff AND (diff - 1) \<noteq> 0 then
           (if diff = 0x0b then Some (flip_at output 0)
            else if diff = 0x16 then Some (flip_at output 1)
            else if diff = 0x07 then Some (flip_at output 2)
            else if diff = 0x0e then Some (flip_at output 3)
            else if diff = 0x1c then Some (flip_at output 4)
            else if diff = 0x13 then Some (flip_at output 5)
            else if diff = 0x0d then Some (flip_at output 6)
            else if diff = 0x1a then Some (flip_at output 7)
            else if diff = 0x1f then Some (flip_at output 8)
            else if diff = 0x15 then Some (flip_at output 9)
            else None)
         else Some output)"

text \<open>The loop over the blocks: the outer option is memory safety, the inner one the decoder's answer.\<close>

fun unfec23_loop :: "sym list \<Rightarrow> int \<Rightarrow> nat \<Rightarrow> sym list option option" where
  "unfec23_loop input iptr 0 = Some (Some [])"
| "unfec23_loop input iptr (Suc blocks) = do {
     block \<leftarrow> sub input iptr 15;
     (case unfec23_block block of
        None \<Rightarrow> Some None
      | Some output \<Rightarrow> map_option (map_option (\<lambda>rest. output @ rest)) (unfec23_loop input (iptr + 15) blocks))
   }"

definition unfec23 :: "sym list \<Rightarrow> int \<Rightarrow> nat \<Rightarrow> sym list option option" where
  "unfec23 input offset len =
     (let diff = len mod 10;
          len = (if diff \<noteq> 0 then len + (10 - diff) else len)
      in unfec23_loop input offset (len div 10))"

text \<open>Index into the whitening data, and the whitening data.\<close>

definition INDICES :: "u8 list" where
  "INDICES = [
     99, 85, 17, 50, 102, 58, 108, 45, 92, 62, 32, 118, 88, 11, 80, 2,
     37, 69, 55, 8, 20, 40, 74, 114, 15, 106, 30, 78, 53, 72, 28, 26,
     68, 7, 39, 113, 105, 77, 71, 25, 84, 49, 57, 44, 61, 117, 10, 1,
     123, 124, 22, 125, 111, 23, 42, 126, 6, 112, 76, 24, 48, 43, 116, 0]"

definition WHITENING_DATA :: "u8 list" where
  "WHITENING_DATA = [
     1, 1, 1, 0, 0, 0, 1, 1, 1, 0, 1, 1, 0, 0, 0, 1,
     0, 1, 0, 0, 1, 0, 1, 1, 1, 1, 1, 0, 1, 0, 1, 0,
     1, 0, 0, 0, 0, 1, 0, 1, 1, 0, 1, 1, 1, 1, 0, 0,
     1, 1, 1, 0, 0, 1, 0, 1, 0, 1, 1, 0, 0, 1, 1, 0,
     0, 0, 0, 0, 1, 1, 0, 1, 1, 0, 1, 0, 1, 1, 1, 0,
     1, 0, 0, 0, 1, 1, 0, 0, 1, 0, 0, 0, 1, 0, 0, 0,
     0, 0, 0, 1, 0, 0, 1, 0, 0, 1, 1, 0, 1, 0, 0, 1,
     1, 1, 1, 0, 1, 1, 1, 0, 0, 0, 0, 1, 1, 1, 1]"

text \<open>\<open>index\<close> and \<open>skip\<close> are never negative in the code; \<open>whitened\<close> is the flag of the packet.\<close>

fun unwhiten_loop :: "bool \<Rightarrow> nat \<Rightarrow> sym list \<Rightarrow> sym list" where
  "unwhiten_loop whitened index [] = []"
| "unwhiten_loop whitened index (s # input) =
     (if whitened then s XOR WHITENING_DATA ! index else s)
     # unwhiten_loop whitened ((index + 1) mod 127) input"

definition unwhiten :: "sym list \<Rightarrow> u32 \<Rightarrow> nat \<Rightarrow> btbb_packet \<Rightarrow> sym list" where
  "unwhiten input clock skip pkt =
     (let index = unat (INDICES ! unat (clock AND 0x3f));
          index = index + skip;
          index = index mod 127
      in unwhiten_loop (btbb_packet_get_flag pkt BTBB_WHITENED) index input)"

text \<open>One step of the CRC register.\<close>

definition crc_step :: "sym \<Rightarrow> u16 \<Rightarrow> u16" where
  "crc_step b reg =
     (let reg = drop_bit 1 reg OR push_bit 15 ((reg AND 0x0001) XOR (ucast b AND 0x01));
          reg = reg XOR drop_bit 5 (reg AND 0x8000);
          reg = reg XOR drop_bit 12 (reg AND 0x8000)
      in reg)"

definition crcgen :: "sym list \<Rightarrow> u8 \<Rightarrow> u16" where
  "crcgen payload UAP =
     (let reg = push_bit 8 (ucast (reverse UAP)) AND 0xff00 in fold crc_step payload reg)"

text \<open>Extract the UAP by reversing the HEC computation.\<close>

definition hec_back :: "u16 \<Rightarrow> nat \<Rightarrow> u8 \<Rightarrow> u8" where
  "hec_back data i hec =
     (let hec = (if hec AND 0x80 \<noteq> 0 then hec XOR 0x65 else hec)
      in push_bit 1 hec OR ((drop_bit 7 hec XOR ucast (drop_bit i data)) AND 0x01))"

definition uap_from_hec :: "u16 \<Rightarrow> u8 \<Rightarrow> u8" where
  "uap_from_hec data hec = reverse (fold (hec_back data) (rev [0..<10]) hec)"

section \<open>Repetition code\<close>

text \<open>A symbol sent three times, with the symbol \<open>e - 1\<close> of the triple inverted when \<open>e\<close> is 1, 2 or 3.\<close>

definition triple :: "sym \<Rightarrow> nat \<Rightarrow> sym list" where
  "triple s e = map (\<lambda>i. if e = Suc i then s XOR 1 else s) [0, 1, 2]"

lemma unfec13_loop_corrects:
  assumes "is_bits ss" "length es = length ss" "set es \<subseteq> {0, 1, 2, 3}"
  shows "unfec13_loop (concat (map2 triple ss es)) = (ss, int (length (filter (\<lambda>e. e \<noteq> 0) es)))"
  using assms(2,1,3)
proof (induction es ss rule: list_induct2)
  case (Cons e es s ss)
  then have "s = 0 \<or> s = 1" by simp
  with Cons show ?case by (auto simp: triple_def)
qed simp

lemma length_unfec13_loop: "length (fst (unfec13_loop ss)) = length ss div 3"
  by (induction ss rule: unfec13_loop.induct) (auto simp: Let_def case_prod_beta)

lemma is_bits_unfec13_loop: "is_bits ss \<Longrightarrow> is_bits (fst (unfec13_loop ss))"
  by (induction ss rule: unfec13_loop.induct) (auto simp: Let_def case_prod_beta)

lemma unfec13_inside:
  assumes "0 \<le> offset" "offset + 3 * int len \<le> int (length input)" "is_bits input"
  shows "\<exists>output ok. unfec13 input offset len = Some (output, ok) \<and> length output = len \<and> is_bits output"
proof -
  have "is_bits (take (3 * len) (drop (nat offset) input))"
    using assms by (intro bits_intros)
  then show ?thesis
    using assms is_bits_unfec13_loop length_unfec13_loop [of "take (3 * len) (drop (nat offset) input)"]
    by (auto simp: unfec13_def sub_def Let_def case_prod_beta)
qed

section \<open>Hamming code\<close>

lemma fec23_xsel: "fec23 data = xsel fec23_gen_matrix (map (bit data) [0..<10])"
proof -
  have b: "data AND push_bit i 1 \<noteq> 0 \<longleftrightarrow> bit data i" if "i < 10" for i
    using that by (simp add: push_bit_eq_mult and_exp_eq_0_iff_not_bit)
  have "fec23 data = fold (\<lambda>i c. if bit data i then c XOR fec23_gen_matrix ! i else c) [0..<10] 0"
    unfolding fec23_def by (rule fold_cong) (auto simp: b simp del: push_bit_of_1 push_bit_eq_mult)
  moreover have "length fec23_gen_matrix = 10" by (simp add: fec23_gen_matrix_def)
  then have "map ((!) fec23_gen_matrix) [0..<10] = fec23_gen_matrix"
    using map_nth [of fec23_gen_matrix] by simp
  ultimately show ?thesis by (simp only: fold_xor_xsel xor.left_neutral)
qed

interpretation fec23: xor_linear fec23
  by unfold_locales (simp only: fec23_xsel map_bit_xor xsel_xor)

text \<open>The difference that the decoder computes, of a received codeword in host order.\<close>

definition fec23_diff :: "u16 \<Rightarrow> u8" where
  "fec23_diff w = ucast (drop_bit 10 w XOR drop_bit 10 (fec23 w))"

interpretation fec23_diff: xor_linear fec23_diff
  by unfold_locales (simp add: fec23_diff_def drop_bit_xor ucast_xor fec23.xor ac_simps)

lemma fec23_take: "fec23 (take_bit 10 w) = fec23 w"
  unfolding fec23_xsel by (rule arg_cong [of _ _ "xsel fec23_gen_matrix"]) (auto simp: bit_take_bit_iff)

definition fec23_position :: "u8 \<Rightarrow> nat option" where
  "fec23_position = map_of [(0x0b, 0), (0x16, 1), (0x07, 2), (0x0e, 3), (0x1c, 4), (0x13, 5),
     (0x0d, 6), (0x1a, 7), (0x1f, 8), (0x15, 9)]"

lemma unfec23_block_diff:
  "unfec23_block (host_to_air 15 w) =
     (let diff = fec23_diff (take_bit 15 w); output = host_to_air 10 w
      in if diff AND (diff - 1) \<noteq> 0 then
           (case fec23_position diff of
              Some i \<Rightarrow> Some (flip_at output i) | None \<Rightarrow> None)
         else Some output)"
proof -
  have out: "take 10 (host_to_air 15 w) = host_to_air 10 w"
    by (rule nth_equalityI) auto
  have chk: "a2h 0 (take 5 (drop 10 (host_to_air 15 w))) 0 = (ucast (drop_bit 10 (take_bit 15 w)) :: u8)"
    by (rule bit_word_eqI) (auto simp: bit_a2h_0 bits_intros bit_simps)
  have "fec23 (take_bit 10 w) = fec23 (take_bit 15 w)"
    using fec23_take [of "take_bit 15 w"] fec23_take [of w] by simp
  then have "a2h 0 (take 5 (drop 10 (host_to_air 15 w))) 0 XOR ucast (drop_bit 10 (fec23 (take_bit 10 w)))
      = fec23_diff (take_bit 15 w)"
    unfolding chk by (simp add: fec23_diff_def ucast_xor)
  then show ?thesis
    unfolding unfec23_block_def Let_def out a2h_host_to_air by (simp add: fec23_position_def)
qed


lemma fec23_codeword: "fec23_diff (fec23 d) = 0"
proof -
  have "set (map fec23_diff fec23_gen_matrix) \<subseteq> {0}"
    by (simp add: fec23_gen_matrix_def fec23_diff_def fec23_xsel upt_eval)
  then show ?thesis
    unfolding fec23_xsel [of d] fec23_diff.xsel by (rule xsel_zero_rows)
qed

interpretation take_bits: xor_linear "take_bit n :: 'a::len word \<Rightarrow> 'a word"
  by unfold_locales simp

lemma fec23_systematic: "take_bit 10 (fec23 d) = take_bit 10 d"
proof -
  have "map (take_bit 10) fec23_gen_matrix = map (\<lambda>i. 2 ^ i) [0..<10]"
    by (simp add: fec23_gen_matrix_def upt_eval)
  then have "take_bit 10 (fec23 d) = xsel (map (\<lambda>i. 2 ^ i) [0..<10]) (map (bit d) [0..<10])"
    unfolding fec23_xsel take_bits.xsel by simp
  then show ?thesis
    by (auto intro!: bit_word_eqI simp: bit_xsel_exp bit_simps)
qed

lemma fec23_15: "take_bit 15 (fec23 d) = fec23 d"
proof -
  have "map (take_bit 15) fec23_gen_matrix = fec23_gen_matrix"
    by (simp add: fec23_gen_matrix_def)
  then show ?thesis unfolding fec23_xsel take_bits.xsel by simp
qed

lemma host_to_air_cong: "take_bit n v = take_bit n w \<Longrightarrow> host_to_air n v = host_to_air n w"
  by (rule nth_equalityI) (auto dest: arg_cong [where f = "\<lambda>x. bit x i" for i] simp: bit_take_bit_iff)

lemma fec23_diff_columns:
  "map (\<lambda>i. fec23_diff (2 ^ i)) [0..<15] =
     [0x0b, 0x16, 0x07, 0x0e, 0x1c, 0x13, 0x0d, 0x1a, 0x1f, 0x15, 1, 2, 4, 8, 16]"
  by (simp add: fec23_diff_def fec23_xsel fec23_gen_matrix_def upt_eval)

lemma flip_at_host_to_air: "i < 10 \<Longrightarrow> flip_at (host_to_air 10 (w XOR 2 ^ i)) i = host_to_air 10 (w :: u16)"
  by (rule nth_equalityI) (auto simp: flip_at_def nth_list_update bit_simps of_bool_def)

lemma host_to_air_above: "10 \<le> i \<Longrightarrow> host_to_air 10 (w XOR 2 ^ i) = host_to_air 10 (w :: u16)"
  by (rule nth_equalityI) (auto simp: bit_simps)

lemma take_15_received:
  assumes "{i. bit e i} \<subseteq> {..<15}"
  shows "fec23_diff (take_bit 15 (fec23 d XOR e)) = fec23_diff e"
proof -
  have "take_bit 15 e = e"
    using assms by (intro bit_word_eqI) (auto simp: bit_simps)
  then show ?thesis by (simp add: fec23_15 fec23_diff.xor fec23_codeword)
qed

lemma fec23_out: "host_to_air 10 (fec23 d) = host_to_air 10 d"
  by (rule host_to_air_cong) (rule fec23_systematic)

lemma fec23_clean: "unfec23_block (host_to_air 15 (fec23 d)) = Some (host_to_air 10 d)"
  unfolding unfec23_block_diff fec23_15 fec23_codeword fec23_out by simp

text \<open>A single error is located by its difference; an error of the check bits is left alone.\<close>

definition fec23_syndromes :: "u8 list" where
  "fec23_syndromes = [0x0b, 0x16, 0x07, 0x0e, 0x1c, 0x13, 0x0d, 0x1a, 0x1f, 0x15, 1, 2, 4, 8, 16]"

lemma fec23_syndromes_located:
  "\<forall>i \<in> set [0..<15]. let diff = fec23_syndromes ! i in
     if i < 10 then diff AND (diff - 1) \<noteq> 0 \<and>
       fec23_position diff = Some i
     else diff AND (diff - 1) = 0"
  by (simp add: upt_eval fec23_syndromes_def fec23_position_def)

lemma fec23_single:
  assumes "i < 15"
  shows "unfec23_block (host_to_air 15 (fec23 d XOR 2 ^ i)) = Some (host_to_air 10 d)"
proof -
  have d: "fec23_diff (take_bit 15 (fec23 d XOR 2 ^ i)) = fec23_syndromes ! i"
    using assms arg_cong [OF fec23_diff_columns, of "\<lambda>xs. xs ! i"]
    by (subst take_15_received) (auto simp: bit_simps fec23_syndromes_def simp del: upt_rec_numeral)
  have "i \<in> set [0..<15]" using assms by simp
  from bspec [OF fec23_syndromes_located this] show ?thesis
    unfolding unfec23_block_diff d Let_def
    by (cases "i < 10") (simp_all add: flip_at_host_to_air host_to_air_above fec23_out)
qed

lemma fec23_corrects:
  assumes "{i. bit e i} \<subseteq> {..<15}" "weight e \<le> 1"
  shows "unfec23_block (host_to_air 15 (fec23 d XOR e)) = Some (host_to_air 10 d)"
  using assms(2)
proof (cases rule: weight_le_1_cases)
  case 1
  then show ?thesis by (simp add: fec23_clean)
next
  case (2 i)
  then have "bit e i" by (simp add: bit_simps)
  then have "i < 15" using assms(1) by auto
  with 2 show ?thesis by (simp add: fec23_single)
qed

definition fec23_rejects :: "u8 \<Rightarrow> bool" where
  "fec23_rejects diff \<longleftrightarrow> diff AND (diff - 1) \<noteq> 0 \<and>
     diff \<notin> {0x0b, 0x16, 0x07, 0x0e, 0x1c, 0x13, 0x0d, 0x1a, 0x1f, 0x15}"

lemma fec23_pairs:
  "all_xor 2 fec23_rejects 0 [0x0b, 0x16, 0x07, 0x0e, 0x1c, 0x13, 0x0d, 0x1a, 0x1f, 0x15, 1, 2, 4, 8, 16]"
  by (simp add: all_xor_numeral fec23_rejects_def)

lemma fec23_detects:
  assumes "{i. bit e i} \<subseteq> {..<15}" "weight e = 2"
  shows "unfec23_block (host_to_air 15 (fec23 d XOR e)) = None"
proof -
  have set15: "{i. bit e i} \<subseteq> set [0..<15]"
    using assms(1) by (simp only: set_upt lessThan_atLeast0)
  have "fec23_diff e = xsel (map (\<lambda>i. fec23_diff (2 ^ i)) [0..<15]) (map (bit e) [0..<15])"
    by (rule fec23_diff.columns [OF distinct_upt set15])
  moreover have "length (filter id (map (bit e) [0..<15])) = 2"
    using weight_filter [OF distinct_upt set15] assms(2) by simp
  ultimately have "fec23_rejects (fec23_diff e)"
    using all_xor_xsel [OF fec23_pairs, of "map (bit e) [0..<15]"]
    by (simp add: fec23_diff_columns del: upt_rec_numeral)
  then show ?thesis
    unfolding unfec23_block_diff take_15_received [OF assms(1)]
    by (auto simp: fec23_rejects_def fec23_position_def)
qed

section \<open>Blocks\<close>

text \<open>Data words sent with the 2/3 rate code, each with its error, as the symbols of the air.\<close>

definition fec23_air :: "u16 list \<Rightarrow> u16 list \<Rightarrow> sym list" where
  "fec23_air ds es = concat (map2 (\<lambda>d e. host_to_air 15 (fec23 d XOR e)) ds es)"

lemma sub_append_block:
  assumes "int (length pre) = off" "length block = n"
  shows "sub (pre @ block @ post) off n = Some block"
  using assms by (auto simp: sub_def)

lemma unfec23_loop_corrects:
  assumes "length es = length ds" "int (length pre) = off"
    and "\<forall>e \<in> set es. {i. bit e i} \<subseteq> {..<15} \<and> weight e \<le> 1"
  shows "unfec23_loop (pre @ fec23_air ds es @ post) off (length ds) =
    Some (Some (concat (map (host_to_air 10) ds)))"
  using assms
proof (induction es ds arbitrary: pre off rule: list_induct2)
  case (Cons e es d ds)
  let ?b = "host_to_air 15 (fec23 d XOR e)"
  have s: "pre @ fec23_air (d # ds) (e # es) @ post = pre @ ?b @ (fec23_air ds es @ post)"
    by (simp add: fec23_air_def)
  have "unfec23_loop (pre @ ?b @ (fec23_air ds es @ post)) (off + 15) (length ds) =
      Some (Some (concat (map (host_to_air 10) ds)))"
    using Cons.IH [of "pre @ ?b" "off + 15"] Cons.prems by simp
  moreover have "unfec23_block ?b = Some (host_to_air 10 d)"
    using Cons.prems by (intro fec23_corrects) auto
  ultimately show ?case
    unfolding s by (simp add: sub_append_block Cons.prems)
qed simp

lemma padded_length:
  "(if len mod 10 \<noteq> 0 then len + (10 - len mod 10) else len) = 10 * ((len + 9) div (10 :: nat))"
proof -
  define q r where "q = len div 10" and "r = len mod 10"
  have len: "len = 10 * q + r" and r: "r < 10"
    by (simp_all add: q_def r_def)
  have "(10 * q + (r + 9)) div 10 = q + (r + 9) div 10" by simp
  moreover have "(r + 9) div 10 = (if r = 0 then 0 else 1)"
    using r by (auto intro!: div_nat_eqI)
  ultimately have "(len + 9) div 10 = (if r = 0 then q else q + 1)"
    by (simp add: len add.assoc)
  then show ?thesis
    using r by (simp add: len)
qed

lemma unfec23_inside:
  assumes "0 \<le> off" "off + 15 * int ((len + 9) div 10) \<le> int (length input)"
  shows "\<exists>r. unfec23 input off len = Some r"
proof -
  have loop: "0 \<le> off \<Longrightarrow> off + 15 * int n \<le> int (length input) \<Longrightarrow> \<exists>r. unfec23_loop input off n = Some r" for n off
  proof (induction n arbitrary: off)
    case (Suc n)
    then obtain r where "unfec23_loop input (off + 15) n = Some r" by force
    with Suc.prems show ?case by (auto simp: sub_def split: option.split)
  qed simp
  show ?thesis
    unfolding unfec23_def Let_def padded_length using loop [OF assms] by simp
qed

lemma length_flip_at [simp]: "length (flip_at ss i) = length ss"
  by (simp add: flip_at_def)

lemma is_bits_flip_at: "is_bits ss \<Longrightarrow> is_bits (flip_at ss i)"
  unfolding is_bits_def all_set_conv_all_nth flip_at_def
  by (cases "i < length ss") (auto simp: nth_list_update list_update_beyond)

lemma unfec23_block_output:
  assumes "unfec23_block b = Some out" "length b = 15"
  shows "length out = 10" "is_bits b \<Longrightarrow> is_bits out"
proof -
  from assms(1) obtain i where "out = take 10 b \<or> out = flip_at (take 10 b) i"
    unfolding unfec23_block_def Let_def
    by (auto simp only: option.inject option.distinct split: if_split_asm)
  then show "length out = 10" "is_bits b \<Longrightarrow> is_bits out"
    using assms(2) by (auto intro: is_bits_flip_at is_bits_take)
qed

lemma unfec23_loop_output:
  "unfec23_loop input off n = Some (Some out) \<Longrightarrow>
     length out = 10 * n \<and> (is_bits input \<longrightarrow> is_bits out)"
proof (induction n arbitrary: off out)
  case (Suc n)
  from Suc.prems obtain b o1 o2 where *: "sub input off 15 = Some b" "unfec23_block b = Some o1"
    "unfec23_loop input (off + 15) n = Some (Some o2)" "out = o1 @ o2"
    by (auto split: option.splits bind_splits)
  then show ?case
    using Suc.IH [OF *(3)] unfec23_block_output [OF *(2) sub_SomeD(2) [OF *(1)]] is_bits_sub [OF *(1)]
    by auto
qed simp

lemma unfec23_output:
  assumes "unfec23 input off len = Some (Some out)"
  shows "len \<le> length out" "is_bits input \<Longrightarrow> is_bits out"
proof -
  have "len \<le> 10 * ((len + 9) div 10)" by simp
  then show "len \<le> length out" "is_bits input \<Longrightarrow> is_bits out"
    using unfec23_loop_output [OF assms [unfolded unfec23_def Let_def padded_length]] by auto
qed

section \<open>Whitening\<close>

text \<open>
  The specification: a seven bit shift register with feedback polynomial \<open>x^7 + x^4 + 1\<close>, seeded
  with the six clock bits and a one in front; the output is its top bit.
\<close>

definition whitening_step :: "u8 \<Rightarrow> u8" where
  "whitening_step s = (push_bit 1 s AND 0x7f) XOR (if bit s 6 then 0x11 else 0)"

definition whitening_seed :: "u32 \<Rightarrow> u8" where
  "whitening_seed clock = 0x40 OR ucast (clock AND 0x3f)"

definition whitening_bit :: "u32 \<Rightarrow> nat \<Rightarrow> sym" where
  "whitening_bit clock n = of_bool (bit ((whitening_step ^^ n) (whitening_seed clock)) 6)"

text \<open>The states in the order of the table.\<close>

definition whitening_states :: "u8 list" where
  "whitening_states = [
     0x7f, 0x6f, 0x4f, 0xf, 0x1e, 0x3c, 0x78, 0x61, 0x53, 0x37, 0x6e, 0x4d, 0xb, 0x16, 0x2c, 0x58,
     0x21, 0x42, 0x15, 0x2a, 0x54, 0x39, 0x72, 0x75, 0x7b, 0x67, 0x5f, 0x2f, 0x5e, 0x2d, 0x5a, 0x25,
     0x4a, 0x5, 0xa, 0x14, 0x28, 0x50, 0x31, 0x62, 0x55, 0x3b, 0x76, 0x7d, 0x6b, 0x47, 0x1f, 0x3e,
     0x7c, 0x69, 0x43, 0x17, 0x2e, 0x5c, 0x29, 0x52, 0x35, 0x6a, 0x45, 0x1b, 0x36, 0x6c, 0x49, 0x3,
     0x6, 0xc, 0x18, 0x30, 0x60, 0x51, 0x33, 0x66, 0x5d, 0x2b, 0x56, 0x3d, 0x7a, 0x65, 0x5b, 0x27,
     0x4e, 0xd, 0x1a, 0x34, 0x68, 0x41, 0x13, 0x26, 0x4c, 0x9, 0x12, 0x24, 0x48, 0x1, 0x2, 0x4,
     0x8, 0x10, 0x20, 0x40, 0x11, 0x22, 0x44, 0x19, 0x32, 0x64, 0x59, 0x23, 0x46, 0x1d, 0x3a, 0x74,
     0x79, 0x63, 0x57, 0x3f, 0x7e, 0x6d, 0x4b, 0x7, 0xe, 0x1c, 0x38, 0x70, 0x71, 0x73, 0x77]"

lemma rotate1_halves:
  assumes "map f (take n xs) = drop 1 (take (n + 1) xs)" "map f (drop n xs) = drop (n + 1) xs @ [hd xs]"
    "xs \<noteq> []"
  shows "map f xs = rotate1 xs"
proof -
  obtain y ys where xs: "xs = y # ys" using assms(3) by (cases xs) auto
  have "map f xs = map f (take n xs) @ map f (drop n xs)"
    by (metis append_take_drop_id map_append)
  also have "\<dots> = take n ys @ drop n ys @ [y]"
    using assms unfolding xs by simp
  finally show ?thesis by (simp add: xs)
qed

lemma whitening_states_step: "map whitening_step whitening_states = rotate1 whitening_states"
  by (rule rotate1_halves [where n = 64]) (simp_all add: whitening_states_def whitening_step_def)

lemma whitening_states_output: "map (\<lambda>s. of_bool (bit s 6)) whitening_states = WHITENING_DATA"
  by (simp add: whitening_states_def WHITENING_DATA_def)

lemma whitening_states_seed:
  "map (\<lambda>i. whitening_states ! unat i) INDICES = map (\<lambda>i. 0x40 OR of_nat i) [0..<64]"
  by (simp add: whitening_states_def INDICES_def upt_eval)


lemma length_whitening [simp]:
  "length whitening_states = 127" "length WHITENING_DATA = 127" "length INDICES = 64"
  by (simp_all add: whitening_states_def WHITENING_DATA_def INDICES_def)

lemma whitening_states_run:
  assumes "k < 127"
  shows "(whitening_step ^^ n) (whitening_states ! k) = whitening_states ! ((k + n) mod 127)"
proof (induction n)
  case 0
  then show ?case using assms by simp
next
  case (Suc n)
  let ?j = "(k + n) mod 127"
  have "?j < 127" by simp
  have "whitening_step (whitening_states ! ?j) = map whitening_step whitening_states ! ?j"
    by simp
  also have "\<dots> = whitening_states ! (Suc ?j mod 127)"
    unfolding whitening_states_step by (subst nth_rotate1) (simp_all add: \<open>?j < 127\<close>)
  also have "Suc ?j mod 127 = (k + Suc n) mod 127" by (simp add: mod_Suc_eq)
  finally show ?case by (simp add: Suc)
qed

lemma unat_clock6: "unat (clock AND 0x3f :: u32) < 64"
proof -
  have "(clock AND 0x3f :: u32) \<le> 0x3f" by (rule word_and_le1)
  then show ?thesis by (simp add: word_le_nat_alt)
qed

lemma INDICES_seed:
  "unat (INDICES ! unat (clock AND 0x3f :: u32)) < 127 \<and>
   whitening_states ! unat (INDICES ! unat (clock AND 0x3f)) = whitening_seed clock"
proof -
  let ?c = "unat (clock AND 0x3f :: u32)"
  have "\<forall>i \<in> set INDICES. unat i < 127" by (simp add: INDICES_def)
  then have lt: "unat (INDICES ! ?c) < 127" using unat_clock6 by simp
  have "whitening_states ! unat (INDICES ! ?c) = 0x40 OR of_nat ?c"
    using arg_cong [OF whitening_states_seed, of "\<lambda>xs. xs ! ?c"] unat_clock6 [of clock]
    by (simp del: upt_rec_numeral)
  moreover have "(of_nat ?c :: u8) = ucast (clock AND 0x3f)" by (simp only: of_nat_unat)
  ultimately show ?thesis
    using lt by (simp only: whitening_seed_def)
qed

lemma whitening_data_bit:
  "WHITENING_DATA ! ((unat (INDICES ! unat (clock AND 0x3f :: u32)) + n) mod 127) = whitening_bit clock n"
proof -
  let ?k = "unat (INDICES ! unat (clock AND 0x3f :: u32))"
  have "WHITENING_DATA ! ((?k + n) mod 127) = of_bool (bit (whitening_states ! ((?k + n) mod 127)) 6)"
    by (subst whitening_states_output [symmetric]) simp
  also have "\<dots> = whitening_bit clock n"
    using whitening_states_run [of ?k n] INDICES_seed [of clock] by (simp only: whitening_bit_def)
  finally show ?thesis .
qed

lemma unwhiten_loop_map:
  "i < 127 \<Longrightarrow> unwhiten_loop w i input =
     map (\<lambda>j. if w then input ! j XOR WHITENING_DATA ! ((i + j) mod 127) else input ! j) [0..<length input]"
proof (induction w i input rule: unwhiten_loop.induct)
  case (2 w i s input)
  have "(x + Suc i mod 127) mod 127 = Suc (x + i) mod 127" for x
    by (metis add_Suc_right mod_add_right_eq)
  with 2 show ?case
    by (simp add: upt_conv_Cons map_Suc_upt [symmetric] comp_def mod_Suc_eq del: upt_Suc)
      (auto simp: add.commute)
qed simp

lemma unwhiten_map:
  "unwhiten input clock skip pkt =
     map (\<lambda>j. if btbb_packet_get_flag pkt BTBB_WHITENED
              then input ! j XOR whitening_bit clock (skip + j) else input ! j) [0..<length input]"
proof -
  have "((k + skip) mod 127 + j) mod 127 = (k + (skip + j)) mod 127" for k j
    by (simp add: mod_simps add.assoc)
  then show ?thesis
    unfolding unwhiten_def Let_def
    by (subst unwhiten_loop_map) (simp_all add: whitening_data_bit)
qed

lemma length_unwhiten [simp]: "length (unwhiten input clock skip pkt) = length input"
  by (simp add: unwhiten_map)

lemma whitening_bit_cases: "whitening_bit clock n = 0 \<or> whitening_bit clock n = 1"
  by (simp add: whitening_bit_def)

lemma is_bits_unwhiten [bits_intros]: "is_bits input \<Longrightarrow> is_bits (unwhiten input clock skip pkt)"
proof -
  assume "is_bits input"
  moreover have "s XOR whitening_bit clock n = 0 \<or> s XOR whitening_bit clock n = 1" if "s = 0 \<or> s = 1" for s n
    using that whitening_bit_cases [of clock n] by auto
  ultimately show ?thesis
    by (auto simp: unwhiten_map is_bits_def)
qed

lemma unwhiten_append:
  "unwhiten (xs @ ys) clock skip pkt = unwhiten xs clock skip pkt @ unwhiten ys clock (skip + length xs) pkt"
  by (rule nth_equalityI) (auto simp: unwhiten_map nth_append ac_simps)

lemma unwhiten_unwhiten: "unwhiten (unwhiten input clock skip pkt) clock skip pkt = input"
  by (rule nth_equalityI) (auto simp: unwhiten_map xor.assoc)


text \<open>
  C4. The table walk of \<open>unwhiten\<close> is the whitening of the specification: symbol \<open>i\<close>
  is inverted by the output of the shift register \<open>x^7 + x^4 + 1\<close> seeded with the clock, \<open>skip + i\<close>
  steps on; a packet that is not whitened is copied, and whitening twice gives the input back.
\<close>

theorem unwhiten_is_lfsr:
  "unwhiten input clock skip pkt =
     (if btbb_packet_get_flag pkt BTBB_WHITENED
      then map2 (\<lambda>s n. s XOR whitening_bit clock n) input [skip..<skip + length input] else input) \<and>
   unwhiten (unwhiten input clock skip pkt) clock skip pkt = input"
proof -
  have "map (\<lambda>j. input ! j XOR whitening_bit clock (skip + j)) [0..<length input] =
      map2 (\<lambda>s n. s XOR whitening_bit clock n) input [skip..<skip + length input]"
    by (rule nth_equalityI) auto
  moreover have "map ((!) input) [0..<length input] = input" by (rule map_nth)
  ultimately show ?thesis
    unfolding unwhiten_unwhiten by (simp add: unwhiten_map)
qed

section \<open>The payload CRC\<close>

lemma bit_crc_masks:
  "bit (0x8000 :: u16) n \<longleftrightarrow> n = 15" "bit (0x8408 :: u16) n \<longleftrightarrow> n = 15 \<or> n = 10 \<or> n = 3"
proof -
  have "(0x8000 :: u16) = 2 ^ 15" "(0x8408 :: u16) = 2 ^ 15 OR 2 ^ 10 OR 2 ^ 3" by simp_all
  then show "bit (0x8000 :: u16) n \<longleftrightarrow> n = 15" "bit (0x8408 :: u16) n \<longleftrightarrow> n = 15 \<or> n = 10 \<or> n = 3"
    by (simp_all only: bit_or_iff bit_exp_iff) auto
qed

lemma crc_step_xor: "crc_step b r = drop_bit 1 r XOR (if bit r 0 \<noteq> bit b 0 then 0x8408 else 0)"
proof -
  define d where "d = drop_bit 1 r"
  have in1: "(r AND 1) XOR (ucast b AND 1) = of_bool (bit r 0 \<noteq> bit b 0)"
    by (rule bit_word_eqI) (auto simp: bit_simps)
  have "\<not> bit d 15"
    using bit_imp_le_length [of r 16] by (auto simp: d_def bit_simps)
  then have bits: "bit d n \<and> n = 15 \<longleftrightarrow> False" for n by auto
  have top: "d OR 0x8000 = d XOR 0x8000"
    by (rule bit_word_eqI) (simp only: bit_or_iff bit_xor_iff bit_crc_masks, use bits in auto)
  have d: "d AND 0x8000 = 0"
    by (rule bit_word_eqI) (simp only: bit_and_iff bit_crc_masks bits, simp)
  show ?thesis
    unfolding crc_step_def Let_def in1 d_def [symmetric]
    by (cases "bit r 0 = bit b 0") (simp_all add: top d bit.conj_xor_distrib2 xor.assoc)
qed

lemma crc_step_linear: "crc_step (a XOR b) (r XOR s) = crc_step a r XOR crc_step b s"
proof -
  have "(if bit (r XOR s) 0 \<noteq> bit (a XOR b) 0 then c else 0) =
      (if bit r 0 \<noteq> bit a 0 then c else 0) XOR (if bit s 0 \<noteq> bit b 0 then c else 0)" for c :: u16
    by (auto simp: bit_xor_iff)
  then show ?thesis
    unfolding crc_step_xor drop_bit_xor by (simp only: ac_simps)
qed

lemma crc_fold_linear:
  "length as = length bs \<Longrightarrow>
     fold crc_step (map2 (XOR) as bs) (r XOR s) = fold crc_step as r XOR fold crc_step bs s"
  by (induction as bs arbitrary: r s rule: list_induct2) (simp_all add: crc_step_linear)

text \<open>A register fed with its own bits is shifted out.\<close>

lemma crc_own_bit: "crc_step (of_bool (bit r 0)) r = drop_bit 1 r"
  by (simp add: crc_step_xor)

lemma crc_own_bits: "fold crc_step (host_to_air n r) r = drop_bit n r"
proof (induction n arbitrary: r)
  case (Suc n)
  have "host_to_air (Suc n) r = of_bool (bit r 0) # host_to_air n (drop_bit 1 r)"
    by (simp add: host_to_air_def upt_conv_Cons map_Suc_upt [symmetric] comp_def bit_simps del: upt_Suc)
  then show ?case
    using Suc [of "drop_bit 1 r"] by (simp add: crc_own_bit)
qed (simp add: host_to_air_def)

text \<open>With no input the register loses no information.\<close>

lemma crc_step_0: "crc_step 0 r = 0 \<Longrightarrow> r = 0"
proof -
  assume 0: "crc_step 0 r = 0"
  have "bit (crc_step 0 r) 15 \<longleftrightarrow> bit r 0"
    using bit_imp_le_length [of r 16] by (auto simp: crc_step_xor bit_simps bit_crc_masks)
  then have low: "\<not> bit r 0" using 0 by simp
  then have "drop_bit 1 r = 0" using 0 by (simp add: crc_step_xor)
  have "\<not> bit r n" for n
  proof (cases n)
    case (Suc m)
    then show ?thesis
      using arg_cong [OF \<open>drop_bit 1 r = 0\<close>, of "\<lambda>w. bit w m"] by (simp add: bit_simps)
  qed (use low in simp)
  then show "r = 0" by (auto intro: bit_word_eqI)
qed

lemma crc_fold_0: "fold crc_step (replicate n 0) r = 0 \<Longrightarrow> r = 0"
  by (induction n arbitrary: r) (auto dest: crc_step_0)

lemma crc_fold_zero [simp]: "fold crc_step (replicate n 0) 0 = 0"
  by (induction n) (simp_all add: crc_step_xor)

text \<open>Sixteen symbols that leave the empty register empty are zero.\<close>

lemma crc_16_bits:
  assumes "is_bits bs" "length bs = 16" "fold crc_step bs 0 = 0"
  shows "bs = replicate 16 0"
proof -
  define r :: u16 where "r = a2h 0 bs 0"
  have bs: "host_to_air 16 r = bs"
    using host_to_air_a2h [OF assms(1), where 'a = 16] assms(2) by (simp add: r_def)
  have "map2 (XOR) bs bs = replicate 16 0"
    using assms(2) by (intro nth_equalityI) auto
  then have "fold crc_step (replicate 16 0) r = fold crc_step bs r XOR fold crc_step bs 0"
    using crc_fold_linear [of bs bs r 0] by simp
  also have "\<dots> = 0"
    using assms(3) crc_own_bits [of 16 r] bs by (auto intro: bit_word_eqI simp: bit_simps dest: bit_imp_le_length)
  finally have "r = 0" by (rule crc_fold_0)
  then show ?thesis
    using bs by (auto simp: host_to_air_def intro!: nth_equalityI)
qed

text \<open>
  C5. A CRC that \<open>crcgen\<close> computed and the payload it was computed for give the zero
  register, and no single burst of up to 16 wrong symbols anywhere in the payload and the CRC can
  give that register again: the check of \<open>payload_crc\<close> catches it.
\<close>

theorem crcgen_detects:
  assumes "is_bits data" "is_bits burst" "length burst = 16" "burst \<noteq> replicate 16 0"
    and "sent = data @ host_to_air 16 (crcgen data uap)" "before + 16 + after = length sent"
    and "received = map2 (XOR) sent (replicate before 0 @ burst @ replicate after 0)"
  shows "crcgen sent uap = 0 \<and> crcgen received uap \<noteq> 0"
proof -
  define init :: u16 where "init = push_bit 8 (ucast (reverse uap)) AND 0xff00"
  have gen: "crcgen xs uap = fold crc_step xs init" for xs
    by (simp add: crcgen_def init_def)
  have 0: "drop_bit 16 r = 0" for r :: u16
    by (rule bit_word_eqI) (auto simp: bit_simps dest: bit_imp_le_length)
  then have sent: "crcgen sent uap = 0"
    unfolding assms(5) gen by (simp add: crc_own_bits)
  have "crcgen received uap =
      crcgen sent uap XOR fold crc_step (replicate before 0 @ burst @ replicate after 0) 0"
    unfolding assms(7) gen using crc_fold_linear [of sent _ init 0] assms(3,6) by simp
  moreover have "fold crc_step (replicate before 0 @ burst @ replicate after 0) 0 \<noteq> 0"
    using crc_16_bits [OF assms(2,3)] assms(4) crc_fold_0 [of after "fold crc_step burst 0"]
    by (auto simp only: fold_append comp_apply crc_fold_zero)
  ultimately show ?thesis using sent by simp
qed

lemma crcgen_detects_witness:
  "crcgen (map2 (XOR) ([1, 0, 1, 1, 0, 0, 1, 0] @ host_to_air 16 (crcgen [1, 0, 1, 1, 0, 0, 1, 0] 0x47))
       (replicate 3 0 @ [1, 1, 0, 0, 0, 0, 0, 0, 0, 0, 0, 0, 0, 0, 0, 1] @ replicate 5 0)) 0x47 \<noteq> 0"
proof -
  let ?burst = "[1, 1, 0, 0, 0, 0, 0, 0, 0, 0, 0, 0, 0, 0, 0, 1] :: sym list"
  have "?burst \<noteq> replicate 16 0"
    by (metis in_set_replicate list.set_intros(1) zero_neq_one)
  then show ?thesis
    using crcgen_detects [of "[1, 0, 1, 1, 0, 0, 1, 0]" ?burst _ "0x47" 3 5, OF _ _ _ _ refl _ refl]
    by simp
qed

section \<open>What the error correcting codes promise\<close>

text \<open>
  C3. \<open>unfec13\<close> returns the symbols that were sent three times each, whatever one
  symbol of each triple the channel inverts, and reports success exactly when fewer than a quarter
  of the triples were hit.
\<close>

theorem unfec13_corrects:
  assumes "is_bits ss" "length es = length ss" "set es \<subseteq> {0, 1, 2, 3}"
  shows "unfec13 (pre @ concat (map2 triple ss es) @ post) (int (length pre)) (length ss) =
    Some (ss, length (filter (\<lambda>e. e \<noteq> 0) es) < length ss div 4)"
proof -
  have "length (concat (map2 triple ss es)) = 3 * length ss"
    using assms(2) by (induction es ss rule: list_induct2) (auto simp: triple_def)
  then have "sub (pre @ concat (map2 triple ss es) @ post) (int (length pre)) (3 * length ss) =
      Some (concat (map2 triple ss es))"
    by (intro sub_append_block) auto
  moreover have "int (length (filter (\<lambda>e. e \<noteq> 0) es)) < int (length ss) div 4 \<longleftrightarrow>
      length (filter (\<lambda>e. e \<noteq> 0) es) < length ss div 4"
    by (metis of_nat_less_iff of_nat_numeral zdiv_int)
  ultimately show ?thesis
    by (simp add: unfec13_def unfec13_loop_corrects [OF assms])
qed

lemma unfec13_corrects_witness:
  "unfec13 ([1, 1] @ concat (map2 triple [1, 0, 1, 1, 0, 0, 1, 0] [0, 3, 0, 0, 0, 0, 0, 0]) @ [0]) 2 8 =
    Some ([1, 0, 1, 1, 0, 0, 1, 0], True)"
proof -
  let ?ss = "[1, 0, 1, 1, 0, 0, 1, 0] :: sym list" and ?es = "[0, 3, 0, 0, 0, 0, 0, 0] :: nat list"
  have 8: "length ?ss = 8" and 2: "int (length [1, 1 :: sym]) = 2" and 1: "length (filter (\<lambda>e. e \<noteq> 0) ?es) < 8 div 4"
    by simp_all
  have "is_bits ?ss" "length ?es = length ?ss" "set ?es \<subseteq> {0, 1, 2, 3}" by simp_all
  from unfec13_corrects [OF this, of "[1, 1]" "[0]"] show ?thesis
    unfolding 8 2 using 1 by (simp only: simp_thms)
qed

lemma unfec23_loop_detects:
  assumes "length es = length ds" "int (length pre) = off"
    and "\<forall>e \<in> set es. {i. bit e i} \<subseteq> {..<15} \<and> weight e \<le> 2" "\<exists>e \<in> set es. weight e = 2"
  shows "unfec23_loop (pre @ fec23_air ds es @ post) off (length ds) = Some None"
  using assms
proof (induction es ds arbitrary: pre off rule: list_induct2)
  case (Cons e es d ds)
  let ?b = "host_to_air 15 (fec23 d XOR e)"
  have s: "pre @ fec23_air (d # ds) (e # es) @ post = pre @ ?b @ (fec23_air ds es @ post)"
    by (simp add: fec23_air_def)
  have b: "sub (pre @ ?b @ (fec23_air ds es @ post)) off 15 = Some ?b"
    using Cons.prems by (intro sub_append_block) auto
  have e: "{i. bit e i} \<subseteq> {..<15}" "weight e \<le> 2" using Cons.prems by auto
  show ?case
  proof (cases "weight e = 2")
    case True
    then show ?thesis unfolding s by (simp add: b fec23_detects [OF e(1)])
  next
    case False
    with e have "weight e \<le> 1" by simp
    moreover have "unfec23_loop (pre @ ?b @ (fec23_air ds es @ post)) (off + 15) (length ds) = Some None"
      using Cons.IH [of "pre @ ?b" "off + 15"] Cons.prems False by simp
    ultimately show ?thesis unfolding s by (simp add: b fec23_corrects [OF e(1)])
  qed
qed simp

text \<open>
  C2. \<open>unfec23\<close> on code words that the channel changed in at most two symbols each:
  it returns the data when every block has at most one error, and refuses the whole input when a
  block has two.
\<close>

theorem unfec23_verdict:
  assumes "length es = length ds" "\<forall>e \<in> set es. {i. bit e i} \<subseteq> {..<15} \<and> weight e \<le> 2"
  shows "unfec23 (pre @ fec23_air ds es @ post) (int (length pre)) (10 * length ds) =
    Some (if \<exists>e \<in> set es. weight e = 2 then None else Some (concat (map (host_to_air 10) ds)))"
proof (cases "\<exists>e \<in> set es. weight e = 2")
  case True
  then show ?thesis
    using assms by (simp add: unfec23_def unfec23_loop_detects)
next
  case False
  then have "\<forall>e \<in> set es. {i. bit e i} \<subseteq> {..<15} \<and> weight e \<le> 1"
    using assms(2) by (metis One_nat_def Suc_1 le_SucE)
  then show ?thesis
    using False assms by (simp add: unfec23_def unfec23_loop_corrects)
qed

lemma unfec23_verdict_witness:
  "unfec23 ([1] @ fec23_air [0x155, 0x2aa] [8, 0x4000] @ []) 1 20 =
     Some (Some (concat (map (host_to_air 10) [0x155, 0x2aa :: u16])))"
proof -
  let ?es = "[8, 0x4000] :: u16 list"
  have "{i. bit e i} \<subseteq> {..<15} \<and> weight e = 1" if "e \<in> set ?es" for e
  proof
    show "{i. bit e i} \<subseteq> {..<15}" using that by (intro bits_below) auto
    show "weight e = 1" using that by (auto simp: weight_numeral)
  qed
  then have "\<forall>e \<in> set ?es. {i. bit e i} \<subseteq> {..<15} \<and> weight e \<le> 2" "\<not> (\<exists>e \<in> set ?es. weight e = 2)"
    by fastforce+
  moreover have "length ?es = length [0x155, 0x2aa :: u16]" "10 * length [0x155, 0x2aa :: u16] = 20"
    "int (length [1 :: sym]) = 1" by simp_all
  ultimately show ?thesis
    using unfec23_verdict [of ?es "[0x155, 0x2aa]" "[1]" "[]"] by (simp only: if_False)
qed

end
