(* ===== verification/Payload.thy ===== *)
theory Payload
  imports BitCodes
begin

text \<open>
  The decoders of packet headers and payloads of \<open>lib/src/bluetooth_packet.c\<close>: one function per
  packet type (\<open>fhs\<close>, \<open>DM\<close>, \<open>DH\<close>, \<open>EV3\<close>, \<open>EV4\<close>, \<open>EV5\<close>, \<open>HV\<close>), the dispatcher \<open>crc_check\<close>, the clock
  test \<open>try_clock\<close> and the decoding entry points \<open>btbb_decode_header\<close>, \<open>btbb_decode_payload\<close> and
  \<open>btbb_decode\<close>.

  Each returns its C return value with the packet it has updated, and \<open>None\<close> where the C code would
  leave an array. A pointer \<open>pkt->symbols + n\<close> is the offset \<open>n\<close>. The printing that \<open>btbb_decode\<close> does
  on success is left out.
\<close>

section \<open>CRC of the payload\<close>

definition set_payload :: "btbb_packet \<Rightarrow> int \<Rightarrow> sym list \<Rightarrow> btbb_packet option" where
  "set_payload pkt offset block = do {
     payload \<leftarrow> wr (pkt_payload pkt) offset block;
     Some (pkt\<lparr>pkt_payload := payload\<rparr>)
   }"

definition payload_crc :: "btbb_packet \<Rightarrow> bool option" where
  "payload_crc pkt = do {
     body \<leftarrow> sub (pkt_payload pkt) 0 (nat ((pkt_payload_length pkt - 2) * 8));
     let crc = crcgen body (pkt_UAP pkt);
     check \<leftarrow> air_to_host16 (pkt_payload pkt) ((pkt_payload_length pkt - 2) * 8) 16;
     Some (crc = check)
   }"

text \<open>Number of symbols remaining after the access code and the packet header.\<close>

definition payload_symbols :: "btbb_packet \<Rightarrow> int" where
  "payload_symbols pkt = uint (pkt_length pkt) - 122"

section \<open>FHS\<close>

text \<open>The loop over the 32 possible values of the X input; it gives whether one of them fits.\<close>

fun fhs_try :: "sym list \<Rightarrow> u32 list \<Rightarrow> btbb_packet \<Rightarrow> (int \<times> btbb_packet) option" where
  "fhs_try corrected [] pkt = Some (0, pkt)"
| "fhs_try corrected (clock # clocks) pkt = do {
     block \<leftarrow> sub corrected 0 (nat (pkt_payload_length pkt * 8));
     pkt \<leftarrow> set_payload pkt 0 (unwhiten block clock 18 pkt);
     ok \<leftarrow> payload_crc pkt;
     if ok then Some (1000, pkt) else fhs_try corrected clocks pkt
   }"

definition fhs :: "u32 \<Rightarrow> btbb_packet \<Rightarrow> (int \<times> btbb_packet) option" where
  "fhs clock pkt =
     (let stream = 122;
          avail = payload_symbols pkt;
          pkt = pkt\<lparr>pkt_payload_length := 20\<rparr>
      in if avail < pkt_payload_length pkt * 12 then Some (1, pkt)
         else do {
           corrected \<leftarrow> unfec23 (pkt_symbols pkt) stream (nat (pkt_payload_length pkt * 8));
           (case corrected of
              None \<Rightarrow> Some (0, pkt)
            | Some corrected \<Rightarrow> fhs_try corrected (clock # map of_nat [32..<64]) pkt)
         })"

section \<open>Payload header\<close>

definition max_payload_length :: "u8 \<Rightarrow> int" where
  "max_payload_length packet_type =
     (if packet_type = PACKET_TYPE_DM1 then 20
      else if packet_type = PACKET_TYPE_DH1 then 30
      else if packet_type = PACKET_TYPE_DV then 12
      else if packet_type = PACKET_TYPE_DM3 then 125
      else if packet_type = PACKET_TYPE_DH3 then 187
      else if packet_type = PACKET_TYPE_DM5 then 228
      else if packet_type = PACKET_TYPE_DH5 then 343
      else 0)"

text \<open>
  The first half of \<open>decode_payload_header\<close>: \<open>bits\<close> symbols of payload header, decoded and unwhitened
  into \<open>payload_header\<close>; \<open>None\<close> inside is the return value 0.
\<close>

definition read_payload_header ::
    "int \<Rightarrow> u32 \<Rightarrow> nat \<Rightarrow> int \<Rightarrow> int \<Rightarrow> bool \<Rightarrow> btbb_packet \<Rightarrow> btbb_packet option option" where
  "read_payload_header stream clock bits fec_size avail fec pkt =
     (if avail < int bits then Some None
      else if fec then
        (if avail < fec_size then Some None
         else do {
           corrected \<leftarrow> unfec23 (pkt_symbols pkt) stream bits;
           (case corrected of
              None \<Rightarrow> Some None
            | Some corrected \<Rightarrow> do {
                block \<leftarrow> sub corrected 0 bits;
                hdr \<leftarrow> wr (pkt_payload_header pkt) 0 (unwhiten block clock 18 pkt);
                Some (Some (pkt\<lparr>pkt_payload_header := hdr\<rparr>))
              })
         })
      else do {
        block \<leftarrow> sub (pkt_symbols pkt) stream bits;
        hdr \<leftarrow> wr (pkt_payload_header pkt) 0 (unwhiten block clock 18 pkt);
        Some (Some (pkt\<lparr>pkt_payload_header := hdr\<rparr>))
      })"

definition decode_payload_header ::
    "int \<Rightarrow> u32 \<Rightarrow> int \<Rightarrow> int \<Rightarrow> bool \<Rightarrow> btbb_packet \<Rightarrow> (int \<times> btbb_packet) option" where
  "decode_payload_header stream clock header_bytes avail fec pkt = do {
     header \<leftarrow> (if header_bytes = 2 then read_payload_header stream clock 16 30 avail fec pkt
               else read_payload_header stream clock 8 15 avail fec pkt);
     (case header of
        None \<Rightarrow> Some (0, pkt)
      | Some pkt \<Rightarrow> do {
          len \<leftarrow> (if header_bytes = 2
                 then map_option (\<lambda>n. uint n + 4) (air_to_host16 (pkt_payload_header pkt) 3 10)
                 else map_option (\<lambda>n. uint n + 3) (air_to_host8 (pkt_payload_header pkt) 3 5));
          let max_length = max_payload_length (pkt_packet_type pkt);
          let pkt = pkt\<lparr>pkt_payload_length := min len max_length\<rparr>;
          llid \<leftarrow> air_to_host8 (pkt_payload_header pkt) 0 2;
          flow \<leftarrow> air_to_host8 (pkt_payload_header pkt) 2 1;
          Some (1, pkt\<lparr>pkt_payload_llid := llid, pkt_payload_flow := flow,
                       pkt_payload_header_length := header_bytes\<rparr>)
        })
   }"

section \<open>DM and DH\<close>

text \<open>The part of \<open>DM\<close> after the switch over the packet type.\<close>

definition DM_decode :: "int \<Rightarrow> int \<Rightarrow> int \<Rightarrow> int \<Rightarrow> u32 \<Rightarrow> btbb_packet \<Rightarrow> (int \<times> btbb_packet) option" where
  "DM_decode stream avail header_bytes max_length clock pkt = do {
     (ok, pkt) \<leftarrow> decode_payload_header stream clock header_bytes avail True pkt;
     if ok = 0 then Some (0, pkt)
     else if pkt_payload_length pkt > max_length then Some (1, pkt)
     else let bitlength = pkt_payload_length pkt * 8 in
       if bitlength > avail then Some (1, pkt)
       else do {
         corrected \<leftarrow> unfec23 (pkt_symbols pkt) stream (nat bitlength);
         (case corrected of
            None \<Rightarrow> Some (0, pkt)
          | Some corrected \<Rightarrow> do {
              block \<leftarrow> sub corrected 0 (nat bitlength);
              pkt \<leftarrow> set_payload pkt 0 (unwhiten block clock 18 pkt);
              ok \<leftarrow> payload_crc pkt;
              Some (if ok then 10 else 2, pkt)
            })
       }
   }"

definition DM :: "u32 \<Rightarrow> btbb_packet \<Rightarrow> (int \<times> btbb_packet) option" where
  "DM clock pkt =
     (let stream = 122;
          avail = payload_symbols pkt;
          packet_type = pkt_packet_type pkt
      in if packet_type = PACKET_TYPE_DV then DM_decode (stream + 80) (avail - 80) 1 12 clock pkt
         else if packet_type = PACKET_TYPE_DM1 then DM_decode stream avail 1 20 clock pkt
         else if packet_type = PACKET_TYPE_DM3 then DM_decode stream avail 2 125 clock pkt
         else if packet_type = PACKET_TYPE_DM5 then DM_decode stream avail 2 228 clock pkt
         else Some (0, pkt))"

definition DH_decode :: "int \<Rightarrow> int \<Rightarrow> int \<Rightarrow> int \<Rightarrow> u32 \<Rightarrow> btbb_packet \<Rightarrow> (int \<times> btbb_packet) option" where
  "DH_decode stream avail header_bytes max_length clock pkt = do {
     (ok, pkt) \<leftarrow> decode_payload_header stream clock header_bytes avail False pkt;
     if ok = 0 then Some (0, pkt)
     else if pkt_payload_length pkt > max_length then Some (1, pkt)
     else let bitlength = pkt_payload_length pkt * 8 in
       if bitlength > avail then Some (1, pkt)
       else do {
         block \<leftarrow> sub (pkt_symbols pkt) stream (nat bitlength);
         pkt \<leftarrow> set_payload pkt 0 (unwhiten block clock 18 pkt);
         if pkt_packet_type pkt = 9 then Some (2, pkt)
         else do {
           ok \<leftarrow> payload_crc pkt;
           Some (if ok then 10 else 2, pkt)
         }
       }
   }"

definition DH :: "u32 \<Rightarrow> btbb_packet \<Rightarrow> (int \<times> btbb_packet) option" where
  "DH clock pkt =
     (let stream = 122;
          avail = payload_symbols pkt;
          packet_type = pkt_packet_type pkt
      in if packet_type = PACKET_TYPE_AUX1 \<or> packet_type = PACKET_TYPE_DH1
         then DH_decode stream avail 1 30 clock pkt
         else if packet_type = PACKET_TYPE_DH3 then DH_decode stream avail 2 187 clock pkt
         else if packet_type = PACKET_TYPE_DH5 then DH_decode stream avail 2 343 clock pkt
         else Some (0, pkt))"

section \<open>EV3, EV4 and EV5\<close>

text \<open>
  The loop of \<open>EV3\<close> and \<open>EV5\<close> over the payload length, \<open>remaining\<close> iterations before \<open>maxlength\<close>. The
  input of every call of \<open>unwhiten\<close> is \<open>stream\<close> itself, as in the code.
\<close>

fun EV_loop :: "nat \<Rightarrow> int \<Rightarrow> int \<Rightarrow> u32 \<Rightarrow> btbb_packet \<Rightarrow> (int \<times> btbb_packet) option" where
  "EV_loop 0 stream avail clock pkt = Some (2, pkt)"
| "EV_loop (Suc remaining) stream avail clock pkt =
     (let bits = pkt_payload_length pkt * 8 in
      if bits + 8 > avail then Some (1, pkt)
      else do {
        block \<leftarrow> sub (pkt_symbols pkt) stream 8;
        pkt \<leftarrow> set_payload pkt bits (unwhiten block clock (nat (18 + bits)) pkt);
        ok \<leftarrow> (if pkt_payload_length pkt > 2 then payload_crc pkt else Some False);
        if ok then Some (10, pkt)
        else EV_loop remaining stream avail clock (pkt\<lparr>pkt_payload_length := pkt_payload_length pkt + 1\<rparr>)
      })"

definition EV3 :: "u32 \<Rightarrow> btbb_packet \<Rightarrow> (int \<times> btbb_packet) option" where
  "EV3 clock pkt =
     (let stream = 122;
          avail = payload_symbols pkt;
          maxlength = 32
      in EV_loop maxlength stream avail clock (pkt\<lparr>pkt_payload_length := 0\<rparr>))"

definition EV5 :: "u32 \<Rightarrow> btbb_packet \<Rightarrow> (int \<times> btbb_packet) option" where
  "EV5 clock pkt =
     (let stream = 122;
          avail = payload_symbols pkt;
          maxlength = 182
      in EV_loop maxlength stream avail clock (pkt\<lparr>pkt_payload_length := 0\<rparr>))"

text \<open>The inner loop of \<open>EV4\<close>: check the CRC one byte at a time.\<close>

function EV4_crc_loop :: "int \<Rightarrow> btbb_packet \<Rightarrow> (bool \<times> btbb_packet) option" where
  "EV4_crc_loop bits pkt =
     (if pkt_payload_length pkt * 8 \<le> bits then do {
        ok \<leftarrow> payload_crc pkt;
        if ok then Some (True, pkt)
        else EV4_crc_loop bits (pkt\<lparr>pkt_payload_length := pkt_payload_length pkt + 1\<rparr>)
      }
      else Some (False, pkt))"
  by pat_completeness auto
termination
  by (relation "measure (\<lambda>(bits, pkt). nat (bits + 8 - pkt_payload_length pkt * 8))") auto

declare EV4_crc_loop.simps [simp del]

function EV4_loop :: "int \<Rightarrow> int \<Rightarrow> int \<Rightarrow> int \<Rightarrow> u32 \<Rightarrow> btbb_packet \<Rightarrow> (int \<times> btbb_packet) option" where
  "EV4_loop syms bits stream avail clock pkt =
     (let maxlength = 1470; minlength = 45 in
      if syms < maxlength then
        (if syms + 15 > avail then Some (1, pkt)
         else do {
           corrected \<leftarrow> unfec23 (pkt_symbols pkt) (stream + syms) 10;
           (case corrected of
              None \<Rightarrow> Some (if syms < minlength then 0 else 1, pkt)
            | Some corrected \<Rightarrow> do {
                block \<leftarrow> sub corrected 0 10;
                pkt \<leftarrow> set_payload pkt bits (unwhiten block clock (nat (18 + bits)) pkt);
                (found, pkt) \<leftarrow> EV4_crc_loop bits pkt;
                if found then Some (10, pkt)
                else EV4_loop (syms + 15) (bits + 10) stream avail clock pkt
              })
         })
      else Some (2, pkt))"
  by pat_completeness auto
termination
  by (relation "measure (\<lambda>(syms, bits, stream, avail, clock, pkt). nat (1470 - syms))") auto

declare EV4_loop.simps [simp del]

definition EV4 :: "u32 \<Rightarrow> btbb_packet \<Rightarrow> (int \<times> btbb_packet) option" where
  "EV4 clock pkt =
     (let stream = 122;
          avail = payload_symbols pkt
      in EV4_loop 0 0 stream avail clock (pkt\<lparr>pkt_payload_length := 1\<rparr>))"

section \<open>HV\<close>

definition HV :: "u32 \<Rightarrow> btbb_packet \<Rightarrow> (int \<times> btbb_packet) option" where
  "HV clock pkt =
     (let stream = 122;
          avail = payload_symbols pkt;
          pkt = pkt\<lparr>pkt_payload_header_length := 0\<rparr>
      in if avail < 240 then Some (1, pkt\<lparr>pkt_payload_length := 0\<rparr>)
         else if pkt_packet_type pkt = PACKET_TYPE_HV1 then do {
           (corrected, ok) \<leftarrow> unfec13 (pkt_symbols pkt) stream 80;
           if \<not> ok then Some (0, pkt)
           else do {
             let pkt = pkt\<lparr>pkt_payload_length := 10\<rparr>;
             let pkt = btbb_packet_set_flag pkt BTBB_HAS_PAYLOAD 1;
             block \<leftarrow> sub corrected 0 (nat (pkt_payload_length pkt * 8));
             pkt \<leftarrow> set_payload pkt 0 (unwhiten block clock 18 pkt);
             Some (2, pkt)
           }
         }
         else if pkt_packet_type pkt = PACKET_TYPE_HV2 then do {
           corrected \<leftarrow> unfec23 (pkt_symbols pkt) stream 160;
           (case corrected of
              None \<Rightarrow> Some (0, pkt)
            | Some corrected \<Rightarrow> do {
                let pkt = pkt\<lparr>pkt_payload_length := 20\<rparr>;
                let pkt = btbb_packet_set_flag pkt BTBB_HAS_PAYLOAD 1;
                block \<leftarrow> sub corrected 0 (nat (pkt_payload_length pkt * 8));
                pkt \<leftarrow> set_payload pkt 0 (unwhiten block clock 18 pkt);
                Some (2, pkt)
              })
         }
         else if pkt_packet_type pkt = PACKET_TYPE_HV3 then do {
           let pkt = pkt\<lparr>pkt_payload_length := 30\<rparr>;
           let pkt = btbb_packet_set_flag pkt BTBB_HAS_PAYLOAD 1;
           block \<leftarrow> sub (pkt_symbols pkt) stream (nat (pkt_payload_length pkt * 8));
           pkt \<leftarrow> set_payload pkt 0 (unwhiten block clock 18 pkt);
           Some (2, pkt)
         }
         else Some (2, pkt))"

section \<open>Checking a packet against a clock\<close>

definition crc_check :: "u32 \<Rightarrow> btbb_packet \<Rightarrow> (int \<times> btbb_packet) option" where
  "crc_check clock pkt = do {
     let packet_type = pkt_packet_type pkt;
     (retval, pkt) \<leftarrow>
       (if packet_type = PACKET_TYPE_FHS then fhs clock pkt
        else if packet_type = PACKET_TYPE_DV \<or> packet_type = PACKET_TYPE_DM1 \<or>
          packet_type = PACKET_TYPE_DM3 \<or> packet_type = PACKET_TYPE_DM5 then DM clock pkt
        else if packet_type = PACKET_TYPE_DH1 \<or> packet_type = PACKET_TYPE_DH3 \<or>
          packet_type = PACKET_TYPE_DH5 then DH clock pkt
        else if packet_type = PACKET_TYPE_HV3 then EV3 clock pkt
        else if packet_type = PACKET_TYPE_EV4 then EV4 clock pkt
        else if packet_type = PACKET_TYPE_EV5 then EV5 clock pkt
        else if packet_type = PACKET_TYPE_HV1 then HV clock pkt
        else Some (1, pkt));
     if retval = 0 \<and> (pkt_packet_type pkt \<noteq> 2 \<and> pkt_packet_type pkt \<noteq> 3 \<and> pkt_packet_type pkt \<noteq> 5)
     then Some (1, pkt)
     else if retval > 1 \<and> (pkt_packet_type pkt = 7 \<or> pkt_packet_type pkt = 13)
     then Some (1, pkt)
     else Some (retval, pkt)
   }"

text \<open>\<open>try_clock\<close> unwhitens the header with a clock; it returns the UAP that the header check gives.\<close>

definition try_clock :: "u32 \<Rightarrow> btbb_packet \<Rightarrow> (u8 \<times> btbb_packet) option" where
  "try_clock clock pkt = do {
     (header, ok) \<leftarrow> unfec13 (pkt_symbols pkt) 68 18;
     if \<not> ok then Some (0, pkt)
     else do {
       let unwhitened = unwhiten header clock 0 pkt;
       hdr_data \<leftarrow> air_to_host16 unwhitened 0 10;
       hec \<leftarrow> air_to_host8 unwhitened 10 8;
       let pkt = pkt\<lparr>pkt_UAP := uap_from_hec hdr_data hec\<rparr>;
       packet_type \<leftarrow> air_to_host8 unwhitened 3 4;
       let pkt = pkt\<lparr>pkt_packet_type := packet_type\<rparr>;
       Some (pkt_UAP pkt, pkt)
     }
   }"

section \<open>Decoding\<close>

definition btbb_decode_header :: "btbb_packet \<Rightarrow> (int \<times> btbb_packet) option" where
  "btbb_decode_header pkt =
     (if btbb_packet_get_flag pkt BTBB_CLK6_VALID then do {
        (header, ok) \<leftarrow> unfec13 (pkt_symbols pkt) 68 18;
        if ok then do {
          packet_header \<leftarrow> wr (pkt_packet_header pkt) 0 (unwhiten header (pkt_clkn pkt) 0 pkt);
          let pkt = pkt\<lparr>pkt_packet_header := packet_header\<rparr>;
          hdr_data \<leftarrow> air_to_host16 (pkt_packet_header pkt) 0 10;
          hec \<leftarrow> air_to_host8 (pkt_packet_header pkt) 10 8;
          if uap_from_hec hdr_data hec = pkt_UAP pkt then do {
            lt_addr \<leftarrow> air_to_host8 (pkt_packet_header pkt) 0 3;
            packet_type \<leftarrow> air_to_host8 (pkt_packet_header pkt) 3 4;
            packet_flags \<leftarrow> air_to_host8 (pkt_packet_header pkt) 7 3;
            Some (1, pkt\<lparr>pkt_packet_lt_addr := lt_addr, pkt_packet_type := packet_type,
                         pkt_packet_flags := packet_flags, pkt_packet_hec := hec\<rparr>)
          }
          else Some (0, pkt)
        }
        else Some (0, pkt)
      }
      else Some (0, pkt))"

definition btbb_decode_payload :: "btbb_packet \<Rightarrow> (int \<times> btbb_packet) option" where
  "btbb_decode_payload pkt = do {
     let pkt = pkt\<lparr>pkt_payload_header_length := 0\<rparr>;
     let packet_type = pkt_packet_type pkt;
     let clock = pkt_clkn pkt;
     (rv, pkt) \<leftarrow>
       (if packet_type = PACKET_TYPE_NULL \<or> packet_type = PACKET_TYPE_POLL
        then Some (1, pkt\<lparr>pkt_payload_length := 0\<rparr>)
        else if packet_type = PACKET_TYPE_FHS then fhs clock pkt
        else if packet_type = PACKET_TYPE_DM1 then DM clock pkt
        else if packet_type = PACKET_TYPE_DH1 then DH clock pkt
        else if packet_type = PACKET_TYPE_HV1 \<or> packet_type = PACKET_TYPE_HV2 then HV clock pkt
        else if packet_type = PACKET_TYPE_HV3 then do {
          (rv, pkt) \<leftarrow> EV3 clock pkt;
          if rv \<le> 1 then HV clock pkt else Some (rv, pkt)
        }
        else if packet_type = PACKET_TYPE_DV then DM clock pkt
        else if packet_type = PACKET_TYPE_AUX1 then DH clock pkt
        else if packet_type = PACKET_TYPE_DM3 then DM clock pkt
        else if packet_type = PACKET_TYPE_DH3 then DH clock pkt
        else if packet_type = PACKET_TYPE_EV4 then EV4 clock pkt
        else if packet_type = PACKET_TYPE_EV5 then EV5 clock pkt
        else if packet_type = PACKET_TYPE_DM5 then DM clock pkt
        else if packet_type = PACKET_TYPE_DH5 then DH clock pkt
        else Some (0, pkt));
     let pkt = btbb_packet_set_flag pkt BTBB_HAS_PAYLOAD 1;
     Some (rv, pkt)
   }"

definition btbb_decode :: "btbb_packet \<Rightarrow> (int \<times> btbb_packet) option" where
  "btbb_decode pkt = do {
     let pkt = btbb_packet_set_flag pkt BTBB_HAS_PAYLOAD 0;
     (ok, pkt) \<leftarrow> btbb_decode_header pkt;
     if ok \<noteq> 0 then btbb_decode_payload pkt else Some (0, pkt)
   }"

section \<open>Other readers of a packet\<close>

definition tun_format :: "btbb_packet \<Rightarrow> u8 list option" where
  "tun_format pkt = do {
     header0 \<leftarrow> air_to_host8 (pkt_packet_header pkt) 0 7;
     header1 \<leftarrow> air_to_host8 (pkt_packet_header pkt) 7 3;
     header2 \<leftarrow> air_to_host8 (pkt_packet_header pkt) 10 8;
     payload \<leftarrow> those (map (\<lambda>i. air_to_host8 (pkt_payload pkt) (i * 8) 8) [0..pkt_payload_length pkt - 1]);
     Some ([ucast (pkt_clkn pkt AND 0xff), ucast (drop_bit 8 (pkt_clkn pkt) AND 0xff),
            ucast (drop_bit 16 (pkt_clkn pkt) AND 0xff), ucast (drop_bit 24 (pkt_clkn pkt) AND 0xff),
            pkt_channel pkt,
            of_bool (btbb_packet_get_flag pkt BTBB_CLK27_VALID) OR
              push_bit 1 (of_bool (btbb_packet_get_flag pkt BTBB_NAP_VALID)),
            header0, header1, header2] @ payload)
   }"

text \<open>The number of triples of symbols in a row that do not all agree.\<close>

fun disagreements :: "sym list \<Rightarrow> int" where
  "disagreements (a # b # c # stream) = sint ((a XOR b) OR (b XOR c) OR (c XOR a)) + disagreements stream"
| "disagreements stream = 0"

definition btbb_header_present :: "btbb_packet \<Rightarrow> bool option" where
  "btbb_header_present pkt =
     (if pkt_length pkt < 122 then Some False
      else do {
        stream \<leftarrow> sub (pkt_symbols pkt) 63 5;
        let msb = stream ! 0;
        let not_msb = (if msb = 0 then 1 else 0);
        let be = sint (stream ! 1 XOR not_msb) + sint (stream ! 2 XOR msb) +
                 sint (stream ! 3 XOR not_msb) + sint (stream ! 4 XOR msb);
        header \<leftarrow> sub (pkt_symbols pkt) 68 54;
        Some (be + disagreements header < ID_THRESHOLD)
      })"

definition lap_from_fhs :: "btbb_packet \<Rightarrow> u32 option" where
  "lap_from_fhs pkt = air_to_host32 (pkt_payload pkt) 34 24"

definition uap_from_fhs :: "btbb_packet \<Rightarrow> u8 option" where
  "uap_from_fhs pkt = air_to_host8 (pkt_payload pkt) 64 8"

definition nap_from_fhs :: "btbb_packet \<Rightarrow> u16 option" where
  "nap_from_fhs pkt = air_to_host16 (pkt_payload pkt) 72 16"

definition clock_from_fhs :: "btbb_packet \<Rightarrow> u32 option" where
  "clock_from_fhs pkt = air_to_host32 (pkt_payload pkt) 115 26"

section \<open>The contract of a decoder\<close>

text \<open>What a decoder leaves alone.\<close>

definition same_air :: "btbb_packet \<Rightarrow> btbb_packet \<Rightarrow> bool" where
  "same_air pkt p \<longleftrightarrow> pkt_symbols p = pkt_symbols pkt \<and> pkt_length p = pkt_length pkt \<and>
     pkt_packet_type p = pkt_packet_type pkt \<and> pkt_UAP p = pkt_UAP pkt \<and> pkt_LAP p = pkt_LAP pkt \<and>
     pkt_clkn p = pkt_clkn pkt"

text \<open>
  A decoder stays inside the arrays, keeps the invariant, answers one of its verdicts, and a verdict
  of ten or more means that the payload that it stored has a correct CRC.
\<close>

definition decodes :: "(int \<times> btbb_packet) option \<Rightarrow> btbb_packet \<Rightarrow> int set \<Rightarrow> bool" where
  "decodes result pkt verdicts \<longleftrightarrow>
     (\<exists>v p. result = Some (v, p) \<and> v \<in> verdicts \<and> packet_wf p \<and> same_air pkt p \<and>
        (v \<ge> 10 \<longrightarrow> payload_crc p = Some True))"

lemma same_air_trans: "same_air a b \<Longrightarrow> same_air b c \<Longrightarrow> same_air a c"
  by (simp add: same_air_def)

lemma decodes_trans: "decodes r b V \<Longrightarrow> same_air a b \<Longrightarrow> decodes r a V"
  unfolding decodes_def using same_air_trans by blast

lemma decodes_here: "v \<in> V \<Longrightarrow> v < 10 \<Longrightarrow> packet_wf p \<Longrightarrow> same_air pkt p \<Longrightarrow> decodes (Some (v, p)) pkt V"
  by (auto simp: decodes_def)

lemma decodes_crc:
  "v \<in> V \<Longrightarrow> payload_crc p = Some True \<Longrightarrow> packet_wf p \<Longrightarrow> same_air pkt p \<Longrightarrow> decodes (Some (v, p)) pkt V"
  by (auto simp: decodes_def)

lemma set_payload_wf:
  assumes "packet_wf pkt" "is_bits block" "0 \<le> off" "off + int (length block) \<le> 2744"
  obtains p where "set_payload pkt off block = Some p" "packet_wf p" "same_air pkt p"
    "pkt_payload_length p = pkt_payload_length pkt" "pkt_payload_header_length p = pkt_payload_header_length pkt"
proof -
  obtain payload where w: "wr (pkt_payload pkt) off block = Some payload"
    using assms by (auto simp: wr_def packet_wf_def)
  then have "length payload = 2744" "is_bits payload"
    using wr_SomeD(1) [OF w] is_bits_wr [OF w] assms by (auto simp: packet_wf_def)
  then show ?thesis
    using w assms by (intro that [of "pkt\<lparr>pkt_payload := payload\<rparr>"])
      (simp_all add: set_payload_def packet_wf_def same_air_def)
qed

lemma payload_crc_total:
  assumes "packet_wf pkt" "2 \<le> pkt_payload_length pkt"
  obtains ok where "payload_crc pkt = Some ok"
  using assms
  by (auto simp: payload_crc_def packet_wf_def sub_def air_to_host16_def Let_def)

lemma payload_length_wf:
  "packet_wf pkt \<Longrightarrow> 0 \<le> n \<Longrightarrow> n \<le> 343 \<Longrightarrow> packet_wf (pkt\<lparr>pkt_payload_length := n\<rparr>)"
  by (simp add: packet_wf_def)

lemma same_air_updates [simp]:
  "same_air pkt pkt"
  "same_air pkt (p\<lparr>pkt_payload_length := n\<rparr>) = same_air pkt p"
  "same_air pkt (p\<lparr>pkt_payload_header_length := n\<rparr>) = same_air pkt p"
  "same_air pkt (btbb_packet_set_flag p flag val) = same_air pkt p"
  by (simp_all add: same_air_def)

lemma header_length_wf [simp]: "packet_wf (pkt\<lparr>pkt_payload_header_length := n\<rparr>) = packet_wf pkt"
  by (simp add: packet_wf_def)

text \<open>Decoding a block with the 2/3 rate code, inside the symbols.\<close>

lemma unfec23_symbols:
  assumes "packet_wf pkt" "0 \<le> off" "off + 15 * int ((len + 9) div 10) \<le> 3125"
  obtains "unfec23 (pkt_symbols pkt) off len = Some None"
  | corrected where "unfec23 (pkt_symbols pkt) off len = Some (Some corrected)"
      "is_bits corrected" "len \<le> length corrected"
proof -
  obtain r where r: "unfec23 (pkt_symbols pkt) off len = Some r"
    using unfec23_inside [OF assms(2), of len "pkt_symbols pkt"] assms by (auto simp: packet_wf_def)
  then show ?thesis
    using that unfec23_output [of "pkt_symbols pkt" off len] assms(1)
    by (cases r) (auto simp: packet_wf_def)
qed

lemma take_block: "n \<le> length xs \<Longrightarrow> sub xs 0 n = Some (take n xs)"
  by (simp add: sub_def)

section \<open>FHS\<close>

lemma fhs_try_ok:
  assumes "packet_wf pkt" "pkt_payload_length pkt = 20" "is_bits corrected" "160 \<le> length corrected"
  shows "decodes (fhs_try corrected clocks pkt) pkt {0, 1000}"
  using assms(1,2)
proof (induction clocks arbitrary: pkt)
  case Nil
  then show ?case by (simp add: decodes_here)
next
  case (Cons clock clocks)
  have "is_bits (unwhiten (take 160 corrected) clock 18 pkt)"
    using assms(3) by (intro bits_intros)
  then obtain p where p: "set_payload pkt 0 (unwhiten (take 160 corrected) clock 18 pkt) = Some p"
    "packet_wf p" "same_air pkt p" "pkt_payload_length p = 20"
    using set_payload_wf [OF Cons.prems(1)] Cons.prems(2) assms(4) by force
  then obtain ok where ok: "payload_crc p = Some ok"
    using payload_crc_total by fastforce
  have b: "sub corrected 0 160 = Some (take 160 corrected)"
    using assms(4) by (rule take_block)
  show ?case
  proof (cases ok)
    case True
    with p ok b Cons.prems show ?thesis by (simp add: decodes_crc)
  next
    case False
    with p ok b Cons.prems show ?thesis
      using decodes_trans [OF Cons.IH [OF p(2,4)] p(3)] by simp
  qed
qed

lemma fhs_contract:
  assumes "packet_wf pkt"
  shows "decodes (fhs clock pkt) pkt {0, 1, 1000}"
proof -
  let ?pkt = "pkt\<lparr>pkt_payload_length := 20\<rparr>"
  have wf: "packet_wf ?pkt" using assms by (simp add: payload_length_wf)
  have mono: "decodes r ?pkt {0, 1000} \<Longrightarrow> decodes r pkt {0, 1, 1000}" for r
    by (auto simp: decodes_def same_air_def)
  show ?thesis
  proof (cases "payload_symbols pkt < 240")
    case True
    with wf show ?thesis
      by (simp add: fhs_def Let_def payload_symbols_def decodes_here)
  next
    case False
    then have n: "\<not> payload_symbols ?pkt < 240" by (simp add: payload_symbols_def)
    show ?thesis
    proof (rule unfec23_symbols [of ?pkt 122 160])
      assume "unfec23 (pkt_symbols ?pkt) 122 160 = Some None"
      with n False wf show ?thesis
        by (simp add: fhs_def Let_def decodes_here)
    next
      fix c assume "unfec23 (pkt_symbols ?pkt) 122 160 = Some (Some c)" "is_bits c" "160 \<le> length c"
      with n False wf show ?thesis
        using mono [OF fhs_try_ok [OF wf]] by (simp add: fhs_def Let_def del: fhs_try.simps)
    qed (use wf in simp_all)
  qed
qed


section \<open>The payload header\<close>

lemma payload_header_wf:
  assumes "packet_wf pkt" "is_bits hdr" "length hdr \<le> 16"
  obtains h where "wr (pkt_payload_header pkt) 0 hdr = Some h" "packet_wf (pkt\<lparr>pkt_payload_header := h\<rparr>)"
proof -
  obtain h where w: "wr (pkt_payload_header pkt) 0 hdr = Some h"
    using assms by (auto simp: wr_def packet_wf_def)
  then show ?thesis
    using that wr_SomeD(1) [OF w] is_bits_wr [OF w] assms by (simp add: packet_wf_def)
qed

lemma read_payload_header_ok:
  assumes "packet_wf pkt" "0 \<le> stream" "stream + avail \<le> 3125" "bits \<le> 16"
    "15 * int ((bits + 9) div 10) \<le> fec_avail"
  obtains "read_payload_header stream clock bits fec_avail avail fec pkt = Some None"
  | h where "read_payload_header stream clock bits fec_avail avail fec pkt =
        Some (Some (pkt\<lparr>pkt_payload_header := h\<rparr>))" "packet_wf (pkt\<lparr>pkt_payload_header := h\<rparr>)"
proof (cases "avail < int bits \<or> (fec \<and> avail < fec_avail)")
  case True
  then show ?thesis using that(1) by (auto simp: read_payload_header_def)
next
  case False
  show ?thesis
  proof (cases fec)
    case True
    have "stream + 15 * int ((bits + 9) div 10) \<le> 3125"
      using False True assms(3,5) by simp
    with assms(1,2) show ?thesis
    proof (cases rule: unfec23_symbols)
      case 1
      with False True show ?thesis using that(1) by (simp add: read_payload_header_def)
    next
      case (2 corrected)
      then have b: "is_bits (unwhiten (take bits corrected) clock 18 pkt)" by (intro bits_intros)
      obtain h where "wr (pkt_payload_header pkt) 0 (unwhiten (take bits corrected) clock 18 pkt) = Some h"
        "packet_wf (pkt\<lparr>pkt_payload_header := h\<rparr>)"
        by (rule payload_header_wf [OF assms(1) b]) (use assms(4) in auto)
      with 2 False True show ?thesis
        using that(2) [of h] by (simp add: read_payload_header_def take_block)
    qed
  next
    case notfec: False
    let ?block = "take bits (drop (nat stream) (pkt_symbols pkt))"
    have s: "sub (pkt_symbols pkt) stream bits = Some ?block"
      using assms False by (simp add: sub_def packet_wf_def)
    have b: "is_bits (unwhiten ?block clock 18 pkt)"
      using assms(1) by (auto simp: packet_wf_def intro: bits_intros)
    obtain h where "wr (pkt_payload_header pkt) 0 (unwhiten ?block clock 18 pkt) = Some h"
      "packet_wf (pkt\<lparr>pkt_payload_header := h\<rparr>)"
      by (rule payload_header_wf [OF assms(1) b]) (use assms(4) in auto)
    with s False notfec show ?thesis
      using that(2) [of h] by (simp add: read_payload_header_def)
  qed
qed

lemma max_payload_length_bounds: "0 \<le> max_payload_length t \<and> max_payload_length t \<le> 343"
  by (simp add: max_payload_length_def)

lemma decode_payload_header_ok:
  assumes "packet_wf pkt" "0 \<le> stream" "stream + avail \<le> 3125"
  obtains "decode_payload_header stream clock header_bytes avail fec pkt = Some (0, pkt)"
  | p where "decode_payload_header stream clock header_bytes avail fec pkt = Some (1, p)"
      "packet_wf p" "same_air pkt p" "pkt_payload_length p \<le> max_payload_length (pkt_packet_type pkt)"
      "min 3 (max_payload_length (pkt_packet_type pkt)) \<le> pkt_payload_length p"
proof -
  let ?read = "\<lambda>bits fec_avail. read_payload_header stream clock bits fec_avail avail fec pkt"
  let ?header = "if header_bytes = 2 then ?read 16 30 else ?read 8 15"
  have "?header = Some None \<or>
      (\<exists>h. ?header = Some (Some (pkt\<lparr>pkt_payload_header := h\<rparr>)) \<and> packet_wf (pkt\<lparr>pkt_payload_header := h\<rparr>))"
    using read_payload_header_ok [OF assms, of 16 30 clock fec] read_payload_header_ok [OF assms, of 8 15 clock fec]
    by (auto split: if_splits)
  then consider "?header = Some None" | h where "?header = Some (Some (pkt\<lparr>pkt_payload_header := h\<rparr>))"
    "packet_wf (pkt\<lparr>pkt_payload_header := h\<rparr>)" by blast
  then show ?thesis
  proof cases
    case 1
    then show ?thesis using that(1) by (simp add: decode_payload_header_def)
  next
    case (2 h)
    let ?p = "pkt\<lparr>pkt_payload_header := h\<rparr>"
    obtain l8 l16 llid flow where f: "air_to_host8 h 3 5 = Some l8" "air_to_host16 h 3 10 = Some l16"
      "air_to_host8 h 0 2 = Some llid" "air_to_host8 h 2 1 = Some flow"
      using 2(2) by (auto simp: packet_wf_def air_to_host8_def air_to_host16_def sub_def)
    let ?len = "if header_bytes = 2 then uint l16 + 4 else uint l8 + 3"
    let ?max = "max_payload_length (pkt_packet_type pkt)"
    let ?q = "?p\<lparr>pkt_payload_length := min ?len ?max, pkt_payload_llid := llid, pkt_payload_flow := flow,
      pkt_payload_header_length := header_bytes\<rparr>"
    have len: "3 \<le> ?len" by simp
    have "decode_payload_header stream clock header_bytes avail fec pkt = Some (1, ?q)"
      using 2(1) f by (simp add: decode_payload_header_def Let_def)
    moreover have "packet_wf ?q"
      using 2(2) len max_payload_length_bounds [of "pkt_packet_type pkt"] by (auto simp: packet_wf_def)
    moreover have "same_air pkt ?q" by (simp add: same_air_def)
    moreover have "pkt_payload_length ?q \<le> ?max" "min 3 ?max \<le> pkt_payload_length ?q"
      using len by auto
    ultimately show ?thesis by (rule that(2))
  qed
qed

section \<open>DM and DH\<close>

lemma DM_decode_contract:
  assumes "packet_wf pkt" "stream \<in> {122, 202}" "avail = uint (pkt_length pkt) - stream"
    "3 \<le> max_payload_length (pkt_packet_type pkt)" "max_payload_length (pkt_packet_type pkt) \<le> 228"
  shows "decodes (DM_decode stream avail header_bytes max_length clock pkt) pkt {0, 1, 2, 10}"
proof -
  have "0 \<le> stream" "stream + avail \<le> 3125"
    using assms(1-3) by (auto simp: packet_wf_def)
  from assms(1) this show ?thesis
  proof (cases rule: decode_payload_header_ok [of pkt stream avail clock header_bytes True])
    case 1
    then show ?thesis using assms(1) by (simp add: DM_decode_def decodes_here)
  next
    case (2 p)
    have len: "3 \<le> pkt_payload_length p" "pkt_payload_length p \<le> 228"
      using 2(4,5) assms(4,5) by auto
    show ?thesis
    proof (cases "pkt_payload_length p > max_length \<or> pkt_payload_length p * 8 > avail")
      case True
      then show ?thesis using 2 by (auto simp: DM_decode_def Let_def decodes_here)
    next
      case False
      let ?n = "nat (pkt_payload_length p * 8)"
      have "0 \<le> stream" "stream + 15 * int ((?n + 9) div 10) \<le> 3125"
        using len assms(2) by auto
      with 2(2) show ?thesis
      proof (cases rule: unfec23_symbols)
        case 1
        with 2 False show ?thesis by (auto simp: DM_decode_def Let_def decodes_here)
      next
        case c: (2 corrected)
        have "is_bits (unwhiten (take ?n corrected) clock 18 p)"
          using c(2) by (intro bits_intros)
        then obtain q where q: "set_payload p 0 (unwhiten (take ?n corrected) clock 18 p) = Some q"
          "packet_wf q" "same_air p q" "pkt_payload_length q = pkt_payload_length p"
          using set_payload_wf [OF 2(2)] len by force
        obtain ok where "payload_crc q = Some ok"
          using payload_crc_total [OF q(2)] q(4) len by force
        with 2 False c q show ?thesis
          using same_air_trans [OF 2(3) q(3)]
          by (cases ok) (auto simp: DM_decode_def Let_def take_block decodes_here decodes_crc)
      qed
    qed
  qed
qed


lemma DH_decode_contract:
  assumes "packet_wf pkt" "stream = 122" "avail = uint (pkt_length pkt) - stream"
    "pkt_packet_type pkt = 9 \<or> 3 \<le> max_payload_length (pkt_packet_type pkt)"
  shows "decodes (DH_decode stream avail header_bytes max_length clock pkt) pkt {0, 1, 2, 10}"
proof -
  have "0 \<le> stream" "stream + avail \<le> 3125"
    using assms(1-3) by (auto simp: packet_wf_def)
  from assms(1) this show ?thesis
  proof (cases rule: decode_payload_header_ok [of pkt stream avail clock header_bytes False])
    case 1
    then show ?thesis using assms(1) by (simp add: DH_decode_def decodes_here)
  next
    case (2 p)
    have len: "0 \<le> pkt_payload_length p" "pkt_payload_length p \<le> 343"
      "pkt_packet_type pkt \<noteq> 9 \<Longrightarrow> 3 \<le> pkt_payload_length p"
      using 2(4,5) assms(4) max_payload_length_bounds [of "pkt_packet_type pkt"] by auto
    have ty: "pkt_packet_type p = pkt_packet_type pkt" using 2(3) by (simp add: same_air_def)
    show ?thesis
    proof (cases "pkt_payload_length p > max_length \<or> pkt_payload_length p * 8 > avail")
      case True
      then show ?thesis using 2 by (auto simp: DH_decode_def Let_def decodes_here)
    next
      case False
      let ?n = "nat (pkt_payload_length p * 8)"
      let ?block = "take ?n (drop (nat stream) (pkt_symbols p))"
      have s: "sub (pkt_symbols p) stream ?n = Some ?block"
        using False len(1) \<open>0 \<le> stream\<close> \<open>stream + avail \<le> 3125\<close> 2(2) by (auto simp: sub_def packet_wf_def)
      have "is_bits (unwhiten ?block clock 18 p)"
        using 2(2) by (auto simp: packet_wf_def intro: bits_intros)
      then obtain q where q: "set_payload p 0 (unwhiten ?block clock 18 p) = Some q"
        "packet_wf q" "same_air p q" "pkt_payload_length q = pkt_payload_length p"
        using set_payload_wf [OF 2(2), of "unwhiten ?block clock 18 p" 0] len by force
      have air: "same_air pkt q" using same_air_trans [OF 2(3) q(3)] .
      show ?thesis
      proof (cases "pkt_packet_type pkt = 9")
        case True
        with 2 False s q air show ?thesis
          by (auto simp: DH_decode_def Let_def decodes_here same_air_def)
      next
        case nine: False
        then have "pkt_packet_type q \<noteq> 9" using air by (simp add: same_air_def)
        moreover obtain ok where "payload_crc q = Some ok"
          using payload_crc_total [OF q(2)] q(4) len nine by force
        ultimately show ?thesis using 2 False s q air
          by (cases ok) (auto simp: DH_decode_def Let_def decodes_here decodes_crc)
      qed
    qed
  qed
qed

lemma decodes_mono: "decodes r pkt V \<Longrightarrow> V \<subseteq> W \<Longrightarrow> decodes r pkt W"
  unfolding decodes_def by blast

lemma DM_contract:
  assumes "packet_wf pkt"
  shows "decodes (DM clock pkt) pkt {0, 1, 2, 10}"
proof -
  have "decodes (DM_decode s a h m clock pkt) pkt {0, 1, 2, 10}"
    if "pkt_packet_type pkt \<in> {3, 8, 10, 14}" "s \<in> {122, 202}" "a = uint (pkt_length pkt) - s" for s a h m
    using assms that by (intro DM_decode_contract) (auto simp: max_payload_length_def)
  then show ?thesis
    using assms by (auto simp: DM_def Let_def payload_symbols_def decodes_here)
qed

lemma DH_contract:
  assumes "packet_wf pkt"
  shows "decodes (DH clock pkt) pkt {0, 1, 2, 10}"
proof -
  have "decodes (DH_decode 122 a h m clock pkt) pkt {0, 1, 2, 10}"
    if "pkt_packet_type pkt \<in> {9, 4, 11, 15}" "a = uint (pkt_length pkt) - 122" for a h m
    using assms that by (intro DH_decode_contract) (auto simp: max_payload_length_def)
  then show ?thesis
    using assms by (auto simp: DH_def Let_def payload_symbols_def decodes_here)
qed

section \<open>EV3 and EV5\<close>

lemma EV_loop_contract:
  assumes "packet_wf pkt" "pkt_payload_length pkt + int remaining \<le> 342"
    "avail = uint (pkt_length pkt) - 122"
  shows "decodes (EV_loop remaining 122 avail clock pkt) pkt {1, 2, 10}"
  using assms
proof (induction remaining arbitrary: pkt)
  case 0
  then show ?case by (simp add: decodes_here)
next
  case (Suc r)
  let ?n = "pkt_payload_length pkt"
  have n: "0 \<le> ?n" using Suc.prems(1) by (simp add: packet_wf_def)
  show ?case
  proof (cases "?n * 8 + 8 > avail")
    case True
    with Suc.prems show ?thesis by (simp add: Let_def decodes_here)
  next
    case False
    let ?block = "take 8 (drop 122 (pkt_symbols pkt))"
    let ?w = "unwhiten ?block clock (nat (18 + ?n * 8)) pkt"
    have s: "sub (pkt_symbols pkt) 122 8 = Some ?block"
      using Suc.prems(1) by (simp add: sub_def packet_wf_def)
    have "is_bits ?w" "length ?w \<le> 8"
      using Suc.prems(1) by (auto simp: packet_wf_def intro: bits_intros)
    then obtain p where p: "set_payload pkt (?n * 8) ?w = Some p" "packet_wf p" "same_air pkt p"
      "pkt_payload_length p = ?n"
      using set_payload_wf [OF Suc.prems(1), of ?w "?n * 8"] n Suc.prems(2) by force
    have "\<exists>ok. (if ?n > 2 then payload_crc p else Some False) = Some ok"
      using payload_crc_total [OF p(2)] p(4) by (metis less_le_not_le linorder_linear)
    then obtain ok where ok: "(if ?n > 2 then payload_crc p else Some False) = Some ok" ..
    let ?q = "p\<lparr>pkt_payload_length := ?n + 1\<rparr>"
    have q: "packet_wf ?q" "same_air pkt ?q" "uint (pkt_length ?q) = uint (pkt_length pkt)"
      using p n Suc.prems(2) by (auto simp: payload_length_wf same_air_def)
    then have "decodes (EV_loop r 122 avail clock ?q) pkt {1, 2, 10}"
      using Suc.prems by (intro decodes_trans [OF Suc.IH]) auto
    with False s p ok show ?thesis
      by (cases ok) (auto simp: Let_def decodes_crc split: if_splits)
  qed
qed

lemma EV3_contract: "packet_wf pkt \<Longrightarrow> decodes (EV3 clock pkt) pkt {1, 2, 10}"
  unfolding EV3_def Let_def
  by (rule decodes_trans [OF EV_loop_contract]) (simp_all add: payload_length_wf payload_symbols_def)

lemma EV5_contract: "packet_wf pkt \<Longrightarrow> decodes (EV5 clock pkt) pkt {1, 2, 10}"
  unfolding EV5_def Let_def
  by (rule decodes_trans [OF EV_loop_contract]) (simp_all add: payload_length_wf payload_symbols_def)

section \<open>HV\<close>

text \<open>The last steps of the three cases of \<open>HV\<close>.\<close>

lemma HV_store:
  assumes "packet_wf pkt" "is_bits block" "length block = nat (n * 8)" "0 \<le> n" "n \<le> 30"
  shows "decodes (do {
      let p = btbb_packet_set_flag (pkt\<lparr>pkt_payload_length := n\<rparr>) BTBB_HAS_PAYLOAD 1;
      p \<leftarrow> set_payload p 0 (unwhiten block clock 18 p);
      Some (2, p) }) pkt {0, 1, 2}"
proof -
  let ?p = "btbb_packet_set_flag (pkt\<lparr>pkt_payload_length := n\<rparr>) BTBB_HAS_PAYLOAD 1"
  have wf: "packet_wf ?p" using assms by (simp add: payload_length_wf)
  have "is_bits (unwhiten block clock 18 ?p)" using assms by (intro bits_intros)
  then obtain q where "set_payload ?p 0 (unwhiten block clock 18 ?p) = Some q" "packet_wf q" "same_air ?p q"
    using set_payload_wf [OF wf, of "unwhiten block clock 18 ?p" 0] assms by force
  moreover have "same_air pkt ?p" by simp
  ultimately show ?thesis
    using same_air_trans [of pkt ?p q] by (simp add: Let_def decodes_here)
qed

lemma HV_contract:
  assumes "packet_wf pkt"
  shows "decodes (HV clock pkt) pkt {0, 1, 2}"
proof -
  let ?pkt = "pkt\<lparr>pkt_payload_header_length := 0\<rparr>"
  have wf: "packet_wf ?pkt" and air: "same_air pkt ?pkt" using assms by simp_all
  have ps: "payload_symbols ?pkt = payload_symbols pkt" by (simp add: payload_symbols_def)
  show ?thesis
  proof (cases "payload_symbols pkt < 240")
    case True
    with wf ps show ?thesis by (simp add: HV_def Let_def decodes_here payload_length_wf)
  next
    case False
    have len: "length (pkt_symbols ?pkt) = 3125" "is_bits (pkt_symbols ?pkt)"
      using wf by (auto simp: packet_wf_def)
    consider "pkt_packet_type pkt = 5" | "pkt_packet_type pkt = 6" | "pkt_packet_type pkt = 7"
      | "pkt_packet_type pkt \<notin> {5, 6, 7}" by blast
    then show ?thesis
    proof cases
      case 1
      obtain c ok where c: "unfec13 (pkt_symbols ?pkt) 122 80 = Some (c, ok)" "length c = 80" "is_bits c"
        using unfec13_inside [of 122 80 "pkt_symbols ?pkt"] len by auto
      have "sub c 0 80 = Some c" using c(2) by (simp add: sub_def)
      with 1 False ps c wf show ?thesis
        using HV_store [OF wf c(3), of 10 clock] decodes_trans [OF _ air]
        by (cases ok) (auto simp: HV_def Let_def decodes_here)
    next
      case 2
      have "0 \<le> (122 :: int)" "122 + 15 * int ((160 + 9) div 10) \<le> 3125" by simp_all
      with wf show ?thesis
      proof (cases rule: unfec23_symbols)
        case none: 1
        with 2 False ps wf show ?thesis by (simp add: HV_def Let_def decodes_here)
      next
        case c: (2 c)
        have "is_bits (take 160 c)" using c(2) by (rule is_bits_take)
        with 2 False ps c wf show ?thesis
          using HV_store [OF wf, of "take 160 c" 20 clock] decodes_trans [OF _ air]
          by (simp add: HV_def Let_def take_block)
      qed
    next
      case 3
      let ?b = "take 240 (drop 122 (pkt_symbols pkt))"
      have "sub (pkt_symbols pkt) 122 240 = Some ?b" "is_bits ?b" "length ?b = 240"
        using len by (auto simp: sub_def intro: bits_intros)
      with 3 False ps wf show ?thesis
        using HV_store [OF wf, of ?b 30 clock] decodes_trans [OF _ air]
        by (simp add: HV_def Let_def)
    next
      case 4
      with False ps wf show ?thesis by (simp add: HV_def Let_def decodes_here)
    qed
  qed
qed

section \<open>The interface of the decoders\<close>

text \<open>What \<open>crc_check\<close> and \<open>btbb_decode_payload\<close> rely on, whatever the packet type.\<close>

locale packet_decoder =
  fixes dec :: "u32 \<Rightarrow> btbb_packet \<Rightarrow> (int \<times> btbb_packet) option"
    and verdicts :: "int set"
  assumes contract: "packet_wf pkt \<Longrightarrow> decodes (dec clock pkt) pkt verdicts"
begin

lemma runs:
  assumes "packet_wf pkt"
  obtains v p where "dec clock pkt = Some (v, p)" "v \<in> verdicts" "packet_wf p" "same_air pkt p"
    "v \<ge> 10 \<Longrightarrow> payload_crc p = Some True"
  using contract [OF assms] unfolding decodes_def by blast

lemma stays_in_bounds: "packet_wf pkt \<Longrightarrow> dec clock pkt \<noteq> None"
  using runs by (metis option.distinct(1))

end

interpretation fhs: packet_decoder fhs "{0, 1, 1000}"
  by unfold_locales (rule fhs_contract)

interpretation DM: packet_decoder DM "{0, 1, 2, 10}"
  by unfold_locales (rule DM_contract)

interpretation DH: packet_decoder DH "{0, 1, 2, 10}"
  by unfold_locales (rule DH_contract)

interpretation EV3: packet_decoder EV3 "{1, 2, 10}"
  by unfold_locales (rule EV3_contract)

interpretation EV5: packet_decoder EV5 "{1, 2, 10}"
  by unfold_locales (rule EV5_contract)

interpretation HV: packet_decoder HV "{0, 1, 2}"
  by unfold_locales (rule HV_contract)

section \<open>The verdict of \<open>crc_check\<close>\<close>

text \<open>What the code makes of the return value of a decoder.\<close>

definition final_verdict :: "u8 \<Rightarrow> int \<Rightarrow> int" where
  "final_verdict t v =
     (if v = 0 \<and> t \<notin> {2, 3, 5} then 1 else if v > 1 \<and> t \<in> {7, 13} then 1 else v)"

lemma crc_check_decodes:
  assumes "packet_wf pkt" "pkt_packet_type pkt \<noteq> PACKET_TYPE_EV4"
  obtains v p where "crc_check clock pkt = Some (final_verdict (pkt_packet_type pkt) v, p)"
    "v \<in> {0, 1, 2, 10, 1000}" "packet_wf p" "same_air pkt p" "v \<ge> 10 \<Longrightarrow> payload_crc p = Some True"
proof -
  let ?t = "pkt_packet_type pkt"
  let ?r = "if ?t = 2 then fhs clock pkt else if ?t = 8 \<or> ?t = 3 \<or> ?t = 10 \<or> ?t = 14 then DM clock pkt
    else if ?t = 4 \<or> ?t = 11 \<or> ?t = 15 then DH clock pkt else if ?t = 7 then EV3 clock pkt
    else if ?t = 12 then EV4 clock pkt
    else if ?t = 13 then EV5 clock pkt else if ?t = 5 then HV clock pkt else Some (1, pkt)"
  have "decodes ?r pkt {0, 1, 2, 10, 1000}"
    using assms fhs.contract [of pkt clock] DM.contract [of pkt clock] DH.contract [of pkt clock]
      EV3.contract [of pkt clock] EV5.contract [of pkt clock] HV.contract [of pkt clock]
    by (auto elim!: decodes_mono simp: decodes_here)
  then obtain v p where r: "?r = Some (v, p)" "v \<in> {0, 1, 2, 10, 1000}" "packet_wf p" "same_air pkt p"
    "v \<ge> 10 \<longrightarrow> payload_crc p = Some True"
    unfolding decodes_def by blast
  have "pkt_packet_type p = ?t" using r(4) by (simp add: same_air_def)
  then have "crc_check clock pkt = Some (final_verdict ?t v, p)"
    using r(1) unfolding crc_check_def Let_def PACKET_TYPE_FHS_def PACKET_TYPE_DV_def PACKET_TYPE_DM1_def
      PACKET_TYPE_DM3_def PACKET_TYPE_DM5_def PACKET_TYPE_DH1_def PACKET_TYPE_DH3_def PACKET_TYPE_DH5_def
      PACKET_TYPE_HV3_def PACKET_TYPE_EV4_def PACKET_TYPE_EV5_def PACKET_TYPE_HV1_def
    by (simp only: bind.bind_lunit prod.case) (simp add: final_verdict_def)
  with r show ?thesis using that by blast
qed


definition example_packet :: "u8 \<Rightarrow> btbb_packet" where
  "example_packet packet_type = (the (btbb_packet_new True))\<lparr>pkt_packet_type := packet_type, pkt_length := 400\<rparr>"

lemma example_packet_wf: "packet_wf (example_packet t)" "pkt_packet_type (example_packet t) = t"
  by (simp_all add: example_packet_def btbb_packet_new_def packet_wf_def is_bits_def)


section \<open>Headers and the whole packet\<close>

lemma header_wf:
  assumes "packet_wf pkt" "is_bits hdr" "length hdr = 18"
  shows "wr (pkt_packet_header pkt) 0 hdr = Some hdr" "packet_wf (pkt\<lparr>pkt_packet_header := hdr\<rparr>)"
  using assms by (auto simp: packet_wf_def)

lemma unfec13_header:
  assumes "packet_wf pkt"
  obtains header ok where "unfec13 (pkt_symbols pkt) 68 18 = Some (header, ok)" "length header = 18" "is_bits header"
  using unfec13_inside [of 68 18 "pkt_symbols pkt"] assms by (auto simp: packet_wf_def)

lemma air_to_host_18:
  assumes "length hdr = 18" "0 \<le> off" "off + int n \<le> 18"
  shows "air_to_host8 hdr off n = Some (a2h 0 (take n (drop (nat off) hdr)) 0)"
    and "air_to_host16 hdr off n = Some (a2h 0 (take n (drop (nat off) hdr)) 0)"
  using assms by (simp_all add: air_to_host8_def air_to_host16_def sub_def)

lemma try_clock_ok:
  assumes "packet_wf pkt"
  shows "\<exists>uap p. try_clock clock pkt = Some (uap, p) \<and> packet_wf p \<and>
    pkt_symbols p = pkt_symbols pkt \<and> pkt_length p = pkt_length pkt"
proof -
  obtain header ok where h: "unfec13 (pkt_symbols pkt) 68 18 = Some (header, ok)" "length header = 18"
    using unfec13_header [OF assms] by metis
  then show ?thesis
    using assms by (auto simp: try_clock_def Let_def air_to_host_18 packet_wf_def)
qed

lemma decode_header_ok:
  assumes "packet_wf pkt"
  shows "\<exists>ok p. btbb_decode_header pkt = Some (ok, p) \<and> packet_wf p"
proof -
  obtain header ok where h: "unfec13 (pkt_symbols pkt) 68 18 = Some (header, ok)" "length header = 18" "is_bits header"
    using unfec13_header [OF assms] by metis
  let ?hdr = "unwhiten header (pkt_clkn pkt) 0 pkt"
  have "is_bits ?hdr" "length ?hdr = 18" using h by (auto intro: bits_intros)
  from header_wf [OF assms this] h this assms show ?thesis
    by (auto simp: btbb_decode_header_def Let_def air_to_host_18 packet_wf_def simp del: wr_all)
qed

lemma decode_payload_ok:
  assumes "packet_wf pkt" "pkt_packet_type pkt \<noteq> PACKET_TYPE_EV4"
  shows "\<exists>rv p. btbb_decode_payload pkt = Some (rv, p) \<and> packet_wf p"
proof -
  let ?pkt = "pkt\<lparr>pkt_payload_header_length := 0\<rparr>" and ?c = "pkt_clkn pkt"
  have wf: "packet_wf ?pkt" using assms(1) by simp
  have run: "\<exists>rv p. r = Some (rv, p) \<and> packet_wf p" if "decodes r ?pkt V" for r V
    using that by (auto simp: decodes_def)
  obtain v q where ev: "EV3 ?c ?pkt = Some (v, q)" "packet_wf q"
    using EV3.runs [OF wf] by metis
  obtain rv2 p2 where "HV ?c q = Some (rv2, p2)" "packet_wf p2"
    using HV.runs [OF ev(2)] by metis
  moreover have "packet_wf (?pkt\<lparr>pkt_payload_length := 0\<rparr>)" using wf by (simp add: payload_length_wf)
  ultimately show ?thesis
    using assms(2) wf ev run [OF fhs.contract [OF wf, of ?c]] run [OF DM.contract [OF wf, of ?c]]
      run [OF DH.contract [OF wf, of ?c]] run [OF EV5.contract [OF wf, of ?c]] run [OF HV.contract [OF wf, of ?c]]
    by (auto simp: btbb_decode_payload_def Let_def)
qed


section \<open>EV4 never verifies a payload\<close>

lemma payload_crc_below: "pkt_payload_length pkt = 1 \<Longrightarrow> payload_crc pkt = None"
  by (simp add: payload_crc_def sub_def air_to_host16_def Let_def)

lemma EV4_first_loop:
  "pkt_payload_length pkt = 1 \<Longrightarrow> EV4_crc_loop 0 pkt = Some (False, pkt)"
  "pkt_payload_length pkt = 1 \<Longrightarrow> EV4_crc_loop 10 pkt = None"
  by (simp_all add: EV4_crc_loop.simps payload_crc_below)

lemma EV4_store:
  assumes "packet_wf pkt" "off \<in> {0, 10}" "unfec23 syms k 10 = Some (Some c)" "is_bits syms"
  obtains p where "sub c 0 10 = Some (take 10 c)" "set_payload pkt off (unwhiten (take 10 c) clock n pkt) = Some p"
    "packet_wf p" "same_air pkt p" "pkt_payload_length p = pkt_payload_length pkt"
proof -
  have c: "10 \<le> length c" "is_bits c" using unfec23_output [OF assms(3)] assms(4) by auto
  then have "is_bits (unwhiten (take 10 c) clock n pkt)" by (intro bits_intros)
  moreover have "off + int (length (unwhiten (take 10 c) clock n pkt)) \<le> 2744" "0 \<le> off"
    using assms(2) by auto
  ultimately obtain p where "set_payload pkt off (unwhiten (take 10 c) clock n pkt) = Some p"
    "packet_wf p" "same_air pkt p" "pkt_payload_length p = pkt_payload_length pkt"
    using set_payload_wf [OF assms(1)] by metis
  with c show ?thesis using that by (simp add: take_block)
qed

text \<open>
  C9. The check of EV4 packets starts its CRC at a payload length of one byte,
  so that \<open>payload_crc\<close> reads the eight bytes in front of the payload array: \<open>EV4\<close> leaves the array
  exactly when the packet has two blocks and both decode, and otherwise it answers 0 or 1. No
  payload of an EV4 packet is ever verified.
\<close>

theorem EV4_leaves_the_payload:
  assumes "packet_wf pkt"
  shows "(EV4 clock pkt = None \<longleftrightarrow> payload_symbols pkt \<ge> 30 \<and>
      unfec23 (pkt_symbols pkt) 122 10 \<noteq> Some None \<and> unfec23 (pkt_symbols pkt) 137 10 \<noteq> Some None) \<and>
    (EV4 clock pkt = None \<or> (\<exists>p. EV4 clock pkt = Some (0, p) \<or> EV4 clock pkt = Some (1, p)))"
proof -
  let ?pkt = "pkt\<lparr>pkt_payload_length := 1\<rparr>" and ?s = "pkt_symbols pkt" and ?a = "payload_symbols pkt"
  have wf: "packet_wf ?pkt" using assms by (simp add: payload_length_wf)
  have bits: "is_bits ?s" using assms by (simp add: packet_wf_def)
  have 0: "EV4 clock pkt = EV4_loop 0 0 122 ?a clock ?pkt"
    by (simp add: EV4_def payload_symbols_def)
  have total: "\<exists>r. unfec23 ?s 122 10 = Some r" "\<exists>r. unfec23 ?s 137 10 = Some r"
    using assms by (auto intro!: unfec23_inside simp: packet_wf_def)
  show ?thesis
  proof (cases "?a < 15 \<or> unfec23 ?s 122 10 = Some None")
    case True
    then show ?thesis unfolding 0 by (subst (1 2 3 4) EV4_loop.simps) (auto simp: Let_def)
  next
    case False
    then obtain c where c: "unfec23 ?s 122 10 = Some (Some c)" using total by auto
    obtain p where p: "sub c 0 10 = Some (take 10 c)"
      "set_payload ?pkt 0 (unwhiten (take 10 c) clock 18 ?pkt) = Some p"
      "packet_wf p" "same_air ?pkt p" "pkt_payload_length p = 1"
      using EV4_store [OF wf _ c bits, of 0 clock 18] by auto
    have syms: "pkt_symbols p = ?s" using p(4) by (simp add: same_air_def)
    have 1: "EV4 clock pkt = EV4_loop 15 10 122 ?a clock p"
      unfolding 0 using False c p EV4_first_loop(1) [OF p(5)]
      by (subst EV4_loop.simps) (simp add: Let_def)
    show ?thesis
    proof (cases "?a < 30 \<or> unfec23 ?s 137 10 = Some None")
      case True
      then show ?thesis unfolding 1
        using False by (subst (1 2 3 4) EV4_loop.simps) (auto simp: Let_def syms)
    next
      case big: False
      then obtain d where d: "unfec23 ?s 137 10 = Some (Some d)" using total by auto
      obtain q where q: "sub d 0 10 = Some (take 10 d)"
        "set_payload p 10 (unwhiten (take 10 d) clock 28 p) = Some q" "pkt_payload_length q = 1"
        using EV4_store [OF p(3) _ d bits, of 10 clock 28] p(5) by auto
      have "EV4 clock pkt = None"
        unfolding 1 using big d q EV4_first_loop(2) [OF q(3)]
        by (subst EV4_loop.simps) (simp add: Let_def syms)
      then show ?thesis using False big by simp
    qed
  qed
qed

lemma EV4_leaves_the_payload_witness:
  "EV4 3 (example_packet PACKET_TYPE_EV4) \<noteq> Some (10, example_packet PACKET_TYPE_EV4)"
  using EV4_leaves_the_payload [OF example_packet_wf(1), of 3 PACKET_TYPE_EV4] by auto

section \<open>Every entry point stays in bounds\<close>

lemma those_map_Some: "(\<And>x. x \<in> set xs \<Longrightarrow> f x \<noteq> None) \<Longrightarrow> \<exists>ys. those (map f xs) = Some ys"
proof (induction xs)
  case (Cons x xs)
  then obtain y ys where "f x = Some y" "those (map f xs) = Some ys" by fastforce
  then show ?case by simp
qed simp

lemma payload_bytes:
  assumes "packet_wf pkt"
  shows "\<exists>bs. those (map (\<lambda>i. air_to_host8 (pkt_payload pkt) (i * 8) 8) [0..pkt_payload_length pkt - 1]) = Some bs"
  by (rule those_map_Some) (use assms in \<open>auto simp: air_to_host8_def sub_def packet_wf_def\<close>)

lemma readers_in_bounds:
  assumes "packet_wf pkt"
  shows "try_clock clock pkt \<noteq> None \<and> btbb_header_present pkt \<noteq> None \<and> tun_format pkt \<noteq> None \<and>
      btbb_get_payload_packed pkt \<noteq> None \<and> btbb_packet_get_header_packed pkt \<noteq> None \<and>
      lap_from_fhs pkt \<noteq> None \<and> uap_from_fhs pkt \<noteq> None \<and> nap_from_fhs pkt \<noteq> None \<and>
      clock_from_fhs pkt \<noteq> None"
  using assms try_clock_ok [OF assms, of clock] payload_bytes [OF assms]
  by (auto simp: btbb_header_present_def tun_format_def btbb_get_payload_packed_def
      btbb_packet_get_header_packed_def lap_from_fhs_def uap_from_fhs_def nap_from_fhs_def
      clock_from_fhs_def air_to_host8_def air_to_host16_def air_to_host32_def sub_def packet_wf_def Let_def)

text \<open>
  C8. On a well-formed packet every decoder and reader of the library runs without
  leaving an array, and \<open>btbb_decode\<close> keeps the packet well-formed. The one exception is a header
  that announces EV4.
\<close>

theorem decode_in_bounds:
  assumes "packet_wf pkt"
  shows "((\<exists>rv p. btbb_decode pkt = Some (rv, p) \<and> packet_wf p) \<or>
      (\<exists>p. btbb_decode_header (btbb_packet_set_flag pkt BTBB_HAS_PAYLOAD 0) = Some (1, p) \<and>
        pkt_packet_type p = PACKET_TYPE_EV4)) \<and>
    try_clock clock pkt \<noteq> None \<and> btbb_header_present pkt \<noteq> None \<and> tun_format pkt \<noteq> None \<and>
    btbb_get_payload_packed pkt \<noteq> None \<and> btbb_packet_get_header_packed pkt \<noteq> None \<and>
    lap_from_fhs pkt \<noteq> None \<and> uap_from_fhs pkt \<noteq> None \<and> nap_from_fhs pkt \<noteq> None \<and>
    clock_from_fhs pkt \<noteq> None"
proof (rule conjI [OF _ readers_in_bounds [OF assms]])
  let ?pkt = "btbb_packet_set_flag pkt BTBB_HAS_PAYLOAD 0"
  have wf: "packet_wf ?pkt" using assms by simp
  obtain ok p where h: "btbb_decode_header ?pkt = Some (ok, p)" "packet_wf p"
    using decode_header_ok [OF wf] by blast
  have "ok = 0 \<or> ok = 1"
    using h(1) by (auto simp: btbb_decode_header_def Let_def split: if_splits bind_splits)
  then show "(\<exists>rv p. btbb_decode pkt = Some (rv, p) \<and> packet_wf p) \<or>
      (\<exists>p. btbb_decode_header ?pkt = Some (1, p) \<and> pkt_packet_type p = PACKET_TYPE_EV4)"
    using h decode_payload_ok [OF h(2)] by (auto simp: btbb_decode_def Let_def)
qed

lemma decode_in_bounds_witness: "try_clock 9 (example_packet 2) \<noteq> None"
  using decode_in_bounds [OF example_packet_wf(1), of 2 9] by simp

section \<open>EV3 and EV5 see one byte of the stream\<close>

lemma symbols_length_commute:
  "p\<lparr>pkt_symbols := u, pkt_payload_length := l\<rparr> = p\<lparr>pkt_payload_length := l, pkt_symbols := u\<rparr>"
  for p :: btbb_packet
  by (cases p) simp

lemma EV_loop_first_byte:
  assumes "take 8 (drop 122 s) = take 8 (drop 122 t)" "length s = length t"
  shows "map_option (\<lambda>(v, p). (v, p\<lparr>pkt_symbols := t\<rparr>)) (EV_loop n 122 avail clock (pkt\<lparr>pkt_symbols := s\<rparr>)) =
    EV_loop n 122 avail clock (pkt\<lparr>pkt_symbols := t\<rparr>)"
proof (induction n arbitrary: pkt)
  case (Suc n)
  have blk: "sub s 122 8 = sub t 122 8" using assms by (simp add: sub_def)
  have w: "unwhiten b clock k (pkt\<lparr>pkt_symbols := u\<rparr>) = unwhiten b clock k pkt" for b k u
    by (simp add: unwhiten_def btbb_packet_get_flag_def)
  let ?bits = "pkt_payload_length pkt * 8"
  show ?case
  proof (cases "?bits + 8 > avail \<or> sub t 122 8 = None")
    case True
    then show ?thesis by (auto simp: Let_def blk)
  next
    case False
    then obtain b where b: "sub t 122 8 = Some b" by auto
    show ?thesis
    proof (cases "wr (pkt_payload pkt) ?bits (unwhiten b clock (nat (18 + ?bits)) pkt)")
      case None
      with False b show ?thesis by (simp add: Let_def blk w set_payload_def)
    next
      case (Some payload)
      let ?q = "pkt\<lparr>pkt_payload := payload\<rparr>"
      have crc: "payload_crc (?q\<lparr>pkt_symbols := u\<rparr>) = payload_crc ?q" for u
        by (simp add: payload_crc_def)
      have store: "set_payload (pkt\<lparr>pkt_symbols := u\<rparr>) ?bits (unwhiten b clock (nat (18 + ?bits)) pkt) =
          Some (?q\<lparr>pkt_symbols := u\<rparr>)" for u
        using Some by (simp add: set_payload_def)
      have next_step: "map_option (\<lambda>(v, p). (v, p\<lparr>pkt_symbols := t\<rparr>))
          (EV_loop n 122 avail clock (?q\<lparr>pkt_symbols := s, pkt_payload_length := pkt_payload_length pkt + 1\<rparr>)) =
        EV_loop n 122 avail clock (?q\<lparr>pkt_symbols := t, pkt_payload_length := pkt_payload_length pkt + 1\<rparr>)"
        unfolding symbols_length_commute
        using Suc.IH [of "?q\<lparr>pkt_payload_length := pkt_payload_length pkt + 1\<rparr>"] by simp
      show ?thesis
      proof (cases "payload_crc ?q")
        case None
        with False b store crc next_step show ?thesis
          by (simp add: Let_def blk w)
      next
        case (Some ok)
        with False b store crc next_step show ?thesis
          by (cases ok) (simp_all add: Let_def blk w)
      qed
    qed
  qed
qed simp

text \<open>
  C10. \<open>EV3\<close> and \<open>EV5\<close> decode every byte of the payload from the same eight symbols,
  the first ones after the header: packets that agree on these have the same verdict and the same
  decoded payload, whatever the rest of the stream is.
\<close>

theorem EV_reads_one_byte:
  assumes "take 8 (drop 122 s) = take 8 (drop 122 t)" "length s = length t"
  shows "map_option (\<lambda>(v, p). (v, pkt_payload p)) (EV3 clock (pkt\<lparr>pkt_symbols := s\<rparr>)) =
      map_option (\<lambda>(v, p). (v, pkt_payload p)) (EV3 clock (pkt\<lparr>pkt_symbols := t\<rparr>)) \<and>
    map_option (\<lambda>(v, p). (v, pkt_payload p)) (EV5 clock (pkt\<lparr>pkt_symbols := s\<rparr>)) =
      map_option (\<lambda>(v, p). (v, pkt_payload p)) (EV5 clock (pkt\<lparr>pkt_symbols := t\<rparr>))"
proof -
  have "map_option (\<lambda>(v, p). (v, pkt_payload p)) (EV_loop n 122 a clock (q\<lparr>pkt_symbols := s\<rparr>)) =
      map_option (\<lambda>(v, p). (v, pkt_payload p)) (EV_loop n 122 a clock (q\<lparr>pkt_symbols := t\<rparr>))" for n a q
    using arg_cong [OF EV_loop_first_byte [OF assms, of n a clock q], of "map_option (\<lambda>(v, p). (v, pkt_payload p))"]
    by (simp add: option.map_comp comp_def case_prod_unfold)
  from this [of _ _ "pkt\<lparr>pkt_payload_length := 0\<rparr>"] show ?thesis
    by (simp add: symbols_length_commute EV3_def EV5_def Let_def payload_symbols_def)
qed

lemma EV_reads_one_byte_witness:
  "map_option (\<lambda>(v, p). (v, pkt_payload p)) (EV3 7 ((example_packet 7)\<lparr>pkt_symbols := replicate 130 0 @ replicate 2995 1\<rparr>)) =
   map_option (\<lambda>(v, p). (v, pkt_payload p)) (EV3 7 ((example_packet 7)\<lparr>pkt_symbols := replicate 3125 0\<rparr>))"
  using EV_reads_one_byte [of "replicate 130 0 @ replicate 2995 1" "replicate 3125 0" 7 "example_packet 7"] by simp

section \<open>A transmitted FHS packet is decoded\<close>

lemma payload_crc_sent:
  assumes "take n (pkt_payload pkt) = data @ host_to_air 16 (crcgen data (pkt_UAP pkt))"
    and "length data = 8 * k" "n = 8 * k + 16" "n \<le> length (pkt_payload pkt)"
    and "pkt_payload_length pkt = int k + 2"
  shows "payload_crc pkt = Some True"
proof -
  let ?crc = "host_to_air 16 (crcgen data (pkt_UAP pkt))"
  obtain rest where pl: "pkt_payload pkt = data @ ?crc @ rest"
    using assms(1) append_take_drop_id [of n "pkt_payload pkt"] by (metis append.assoc)
  have "sub (pkt_payload pkt) 0 (8 * k) = Some data"
    unfolding pl using assms(2) by (simp add: sub_def)
  moreover have "sub (pkt_payload pkt) (int k * 8) 16 = Some ?crc"
    unfolding pl using assms(2) by (intro sub_append_block) auto
  moreover have "a2h 0 ?crc 0 = crcgen data (pkt_UAP pkt)"
    unfolding a2h_host_to_air by (rule bit_word_eqI) (auto simp: bit_simps)
  ultimately show ?thesis
    using assms(5) by (simp add: payload_crc_def air_to_host16_def nat_mult_distrib mult.commute)
qed

text \<open>
  C6. An FHS packet whose 144 payload bits and CRC were whitened with the clock and sent
  with the 2/3 rate code is decoded by \<open>fhs\<close> although each of its sixteen blocks may have a wrong
  symbol: the verdict is 1000 and the payload holds the bits that were sent.
\<close>

theorem fhs_decodes:
  assumes "packet_wf pkt" "payload_symbols pkt \<ge> 240"
    and "length data = 144" "bits = data @ host_to_air 16 (crcgen data (pkt_UAP pkt))"
    and "length ds = 16" "length es = 16" "\<forall>e \<in> set es. {i. bit e i} \<subseteq> {..<15} \<and> weight e \<le> 1"
    and "concat (map (host_to_air 10) ds) = unwhiten bits clock 18 pkt"
    and "pkt_symbols pkt = before @ fec23_air ds es @ after" "length before = 122"
  shows "\<exists>p. fhs clock pkt = Some (1000, p) \<and> take 160 (pkt_payload p) = bits"
proof -
  let ?pkt = "pkt\<lparr>pkt_payload_length := 20\<rparr>"
  have flag: "unwhiten ss c k ?pkt = unwhiten ss c k pkt" for ss c k
    by (simp add: unwhiten_def btbb_packet_get_flag_def)
  have "unfec23 (before @ fec23_air ds es @ after) 122 160 =
      Some (Some (concat (map (host_to_air 10) ds)))"
    using unfec23_loop_corrects [OF _ _ assms(7), of ds before 122 after] assms(5,6,10)
    by (simp add: unfec23_def)
  then have u: "unfec23 (pkt_symbols ?pkt) 122 160 = Some (Some (unwhiten bits clock 18 pkt))"
    using assms(8,9) by simp
  have len: "length bits = 160" using assms(3,4) by simp
  then have blk: "sub (unwhiten bits clock 18 pkt) 0 160 = Some (unwhiten bits clock 18 pkt)"
    by (simp add: take_block)
  have pl: "length (pkt_payload pkt) = 2744" using assms(1) by (simp add: packet_wf_def)
  define p where "p = ?pkt\<lparr>pkt_payload := bits @ drop 160 (pkt_payload pkt)\<rparr>"
  have store: "set_payload ?pkt 0 bits = Some p"
    using len pl by (simp add: set_payload_def wr_def p_def)
  have "payload_crc p = Some True"
    by (rule payload_crc_sent [of 160 _ data 18]) (use assms(3,4) len pl in \<open>simp_all add: p_def\<close>)
  then have "fhs_try (unwhiten bits clock 18 pkt) (clock # cs) ?pkt = Some (1000, p)" for cs
    using blk store by (simp add: flag unwhiten_unwhiten)
  then have "fhs clock pkt = Some (1000, p)"
    using u assms(2) by (simp add: fhs_def Let_def payload_symbols_def del: fhs_try.simps)
  moreover have "take 160 (pkt_payload p) = bits" using len by (simp add: p_def)
  ultimately show ?thesis by blast
qed

text \<open>A packet with the FHS payload of all zero bits.\<close>

definition fhs_example_words :: "u16 list" where
  "fhs_example_words = map (\<lambda>i. a2h 0 (take 10 (drop (10 * i)
     (unwhiten (replicate 144 0 @ host_to_air 16 (crcgen (replicate 144 0) 0)) 11 18 (example_packet 2)))) 0) [0..<16]"

definition fhs_example :: btbb_packet where
  "fhs_example = (example_packet 2)\<lparr>pkt_symbols :=
     replicate 122 1 @ fec23_air fhs_example_words (4 # replicate 15 0) @ replicate 2763 0\<rparr>"

lemma concat_blocks:
  assumes "length xs = 10 * n" "is_bits xs"
  shows "concat (map (host_to_air 10) (map (\<lambda>i. a2h 0 (take 10 (drop (10 * i) xs)) (0 :: u16)) [0..<n])) = xs"
  using assms
proof (induction n arbitrary: xs)
  case (Suc n)
  have "host_to_air 10 (a2h 0 (take 10 xs) (0 :: u16)) = take 10 xs"
    using host_to_air_a2h [of "take 10 xs", where 'a = 16] Suc.prems by (simp add: is_bits_take)
  moreover have "concat (map (host_to_air 10) (map (\<lambda>i. a2h 0 (take 10 (drop (10 * i) (drop 10 xs))) (0 :: u16)) [0..<n]))
      = drop 10 xs"
    using Suc.prems by (intro Suc.IH) (auto intro: bits_intros)
  ultimately show ?case
    by (simp add: upt_conv_Cons map_Suc_upt [symmetric] comp_def add.commute del: upt_Suc)
qed simp

lemma length_fec23_air: "length es = length ds \<Longrightarrow> length (fec23_air ds es) = 15 * length ds"
  by (induction es ds rule: list_induct2) (auto simp: fec23_air_def)

lemma is_bits_fec23_air: "is_bits (fec23_air ds es)"
  by (auto simp: fec23_air_def is_bits_def host_to_air_def in_set_zip)

lemma fhs_decodes_witness:
  "\<exists>p. fhs 11 fhs_example = Some (1000, p) \<and>
     take 160 (pkt_payload p) = replicate 144 0 @ host_to_air 16 (crcgen (replicate 144 0) 0)"
proof (rule fhs_decodes [where ds = fhs_example_words and es = "4 # replicate 15 0" and before = "replicate 122 1"
      and after = "replicate 2763 0" and data = "replicate 144 0"])
  have ds: "length fhs_example_words = 16" by (simp add: fhs_example_words_def)
  then have "length (fec23_air fhs_example_words (4 # replicate 15 0)) = 240"
    by (subst length_fec23_air) simp_all
  then show "packet_wf fhs_example"
    using example_packet_wf(1) [of 2] is_bits_fec23_air
    by (simp add: fhs_example_def packet_wf_def is_bits_def)
  show "payload_symbols fhs_example \<ge> 240"
    by (simp add: fhs_example_def example_packet_def payload_symbols_def)
  show "concat (map (host_to_air 10) fhs_example_words) =
      unwhiten (replicate 144 0 @ host_to_air 16 (crcgen (replicate 144 0) 0)) 11 18 fhs_example"
  proof -
    let ?w = "unwhiten (replicate 144 0 @ host_to_air 16 (crcgen (replicate 144 0) 0)) 11 18 (example_packet 2)"
    have "is_bits ?w" by (intro bits_intros) (simp add: is_bits_def host_to_air_def)
    then have "concat (map (host_to_air 10) fhs_example_words) = ?w"
      unfolding fhs_example_words_def by (intro concat_blocks) simp_all
    then show ?thesis
      by (simp add: fhs_example_def unwhiten_def btbb_packet_get_flag_def)
  qed
  show "\<forall>e \<in> set (4 # replicate 15 0 :: u16 list). {i. bit e i} \<subseteq> {..<15} \<and> weight e \<le> 1"
  proof
    fix e :: u16
    assume "e \<in> set (4 # replicate 15 0)"
    then have e: "e = 4 \<or> e = 0" by auto
    then have "{i. bit e i} \<subseteq> {..<15}" by (intro bits_below) auto
    moreover have "weight e \<le> 1" using e by (auto simp: weight_numeral)
    ultimately show "{i. bit e i} \<subseteq> {..<15} \<and> weight e \<le> 1" by blast
  qed
qed (simp_all add: fhs_example_words_def fhs_example_def example_packet_def btbb_packet_new_def)

end
