(* ===== verification/Piconet.thy ===== *)
theory Piconet
  imports Payload
begin

text \<open>
  The piconet state of \<open>lib/src/bluetooth_piconet.c\<close> and \<open>bluetooth_piconet.h\<close>: \<open>struct btbb_piconet\<close>
  with its constructors, flags, addresses and the map of the channels seen. Field \<open>f\<close> of the struct is
  the selector \<open>pn_f\<close>. The arrays that the code allocates (\<open>clock_candidates\<close>, \<open>sequence\<close>) are lists of
  their length, \<open>None\<close> for \<open>NULL\<close>.

  \<open>afh_wf\<close> is the invariant of the channel map: ten bytes, and \<open>used_channels\<close> is the number of bits
  set in them.
\<close>

section \<open>The structure\<close>

definition MAX_PATTERN_LENGTH :: int where [simp]: "MAX_PATTERN_LENGTH = 1000"
definition BT_NUM_CHANNELS :: nat where [simp]: "BT_NUM_CHANNELS = 79"
definition SEQUENCE_LENGTH :: nat where "SEQUENCE_LENGTH = 134217728"
definition ALIASED_CHANNELS :: nat where [simp]: "ALIASED_CHANNELS = 25"

record btbb_piconet =
  pn_refcount :: u32
  pn_flags :: u32
  pn_aliased :: bool
  pn_afh_map :: "u8 list"
  pn_used_channels :: u8
  pn_LAP :: u32
  pn_UAP :: u8
  pn_NAP :: u16
  pn_clock_candidates :: "u32 list option"
  pn_b :: int
  pn_e :: int
  pn_a1 :: int
  pn_c1 :: int
  pn_d1 :: int
  pn_bank :: "int list"
  pn_sequence :: "int list option"
  pn_num_candidates :: int
  pn_packets_observed :: int
  pn_total_packets_observed :: int
  pn_winnowed :: int
  pn_clock6_candidates :: "int list"
  pn_pattern_indices :: "int list"
  pn_pattern_channels :: "u8 list"
  pn_clk_offset :: int
  pn_first_pkt_time :: u32

text \<open>\<open>count_bits\<close> of this file counts the bits of a byte.\<close>

definition count_bits_byte :: "u8 \<Rightarrow> int" where
  "count_bits_byte n = int (clear_lowest_loop n)"

definition btbb_piconet_new :: btbb_piconet where
  "btbb_piconet_new = \<lparr>
     pn_refcount = 1, pn_flags = 0, pn_aliased = False, pn_afh_map = replicate 10 0,
     pn_used_channels = 0, pn_LAP = 0, pn_UAP = 0, pn_NAP = 0, pn_clock_candidates = None,
     pn_b = 0, pn_e = 0, pn_a1 = 0, pn_c1 = 0, pn_d1 = 0, pn_bank = replicate BT_NUM_CHANNELS 0,
     pn_sequence = None, pn_num_candidates = 0, pn_packets_observed = 0,
     pn_total_packets_observed = 0, pn_winnowed = 0, pn_clock6_candidates = replicate 64 0,
     pn_pattern_indices = replicate 1000 0, pn_pattern_channels = replicate 1000 0,
     pn_clk_offset = 0, pn_first_pkt_time = 0 \<rparr>"

definition btbb_piconet_ref :: "btbb_piconet \<Rightarrow> btbb_piconet" where
  "btbb_piconet_ref pn = pn\<lparr>pn_refcount := pn_refcount pn + 1\<rparr>"

definition btbb_piconet_unref :: "btbb_piconet \<Rightarrow> btbb_piconet option" where
  "btbb_piconet_unref pn =
     (let pn = pn\<lparr>pn_refcount := pn_refcount pn - 1\<rparr>
      in if pn_refcount pn = 0 then None else Some pn)"

definition btbb_piconet_set_flag :: "btbb_piconet \<Rightarrow> nat \<Rightarrow> int \<Rightarrow> btbb_piconet" where
  "btbb_piconet_set_flag pn flag val =
     (let mask = push_bit flag 1;
          pn = pn\<lparr>pn_flags := pn_flags pn AND NOT mask\<rparr>
      in if val \<noteq> 0 then pn\<lparr>pn_flags := pn_flags pn OR mask\<rparr> else pn)"

definition btbb_piconet_get_flag :: "btbb_piconet \<Rightarrow> nat \<Rightarrow> bool" where
  "btbb_piconet_get_flag pn flag =
     (let mask = push_bit flag 1 in pn_flags pn AND mask \<noteq> 0)"

definition btbb_init_piconet :: "btbb_piconet \<Rightarrow> u32 \<Rightarrow> btbb_piconet" where
  "btbb_init_piconet pn lap = btbb_piconet_set_flag (pn\<lparr>pn_LAP := lap\<rparr>) BTBB_LAP_VALID 1"

definition btbb_piconet_set_uap :: "btbb_piconet \<Rightarrow> u8 \<Rightarrow> btbb_piconet" where
  "btbb_piconet_set_uap pn uap = btbb_piconet_set_flag (pn\<lparr>pn_UAP := uap\<rparr>) BTBB_UAP_VALID 1"

definition btbb_piconet_get_uap :: "btbb_piconet \<Rightarrow> u8" where
  "btbb_piconet_get_uap pn = pn_UAP pn"

definition btbb_piconet_get_lap :: "btbb_piconet \<Rightarrow> u32" where
  "btbb_piconet_get_lap pn = pn_LAP pn"

definition btbb_piconet_get_nap :: "btbb_piconet \<Rightarrow> u16" where
  "btbb_piconet_get_nap pn = pn_NAP pn"

text \<open>The 48 bit address; the UAP is shifted as a 32 bit value.\<close>

definition btbb_piconet_get_bdaddr :: "btbb_piconet \<Rightarrow> u64" where
  "btbb_piconet_get_bdaddr pn =
     push_bit 32 (ucast (pn_NAP pn)) OR ucast (push_bit 24 (ucast (pn_UAP pn) :: u32)) OR ucast (pn_LAP pn)"

definition btbb_piconet_get_clk_offset :: "btbb_piconet \<Rightarrow> int" where
  "btbb_piconet_get_clk_offset pn = pn_clk_offset pn"

definition btbb_piconet_set_clk_offset :: "btbb_piconet \<Rightarrow> int \<Rightarrow> btbb_piconet" where
  "btbb_piconet_set_clk_offset pn clk_offset = pn\<lparr>pn_clk_offset := clk_offset\<rparr>"

definition btbb_piconet_get_afh_map :: "btbb_piconet \<Rightarrow> u8 list" where
  "btbb_piconet_get_afh_map pn = pn_afh_map pn"

section \<open>Channels seen\<close>

definition channel_mask :: "u8 \<Rightarrow> u8" where
  "channel_mask channel = push_bit (unat channel mod 8) 1"

definition btbb_piconet_set_channel_seen :: "btbb_piconet \<Rightarrow> u8 \<Rightarrow> (u8 \<times> btbb_piconet) option" where
  "btbb_piconet_set_channel_seen pn channel = do {
     let i = int (unat channel div 8);
     byte \<leftarrow> rd (pn_afh_map pn) i;
     if byte AND channel_mask channel = 0 then do {
       afh_map \<leftarrow> wr (pn_afh_map pn) i [byte OR channel_mask channel];
       Some (1, pn\<lparr>pn_afh_map := afh_map, pn_used_channels := pn_used_channels pn + 1\<rparr>)
     }
     else Some (0, pn)
   }"

definition btbb_piconet_clear_channel_seen :: "btbb_piconet \<Rightarrow> u8 \<Rightarrow> (u8 \<times> btbb_piconet) option" where
  "btbb_piconet_clear_channel_seen pn channel = do {
     let i = int (unat channel div 8);
     byte \<leftarrow> rd (pn_afh_map pn) i;
     if byte AND channel_mask channel \<noteq> 0 then do {
       afh_map \<leftarrow> wr (pn_afh_map pn) i [byte AND NOT (channel_mask channel)];
       Some (1, pn\<lparr>pn_afh_map := afh_map, pn_used_channels := pn_used_channels pn - 1\<rparr>)
     }
     else Some (0, pn)
   }"

definition btbb_piconet_get_channel_seen :: "btbb_piconet \<Rightarrow> u8 \<Rightarrow> bool option" where
  "btbb_piconet_get_channel_seen pn channel =
     (if unat channel < BT_NUM_CHANNELS then do {
        byte \<leftarrow> rd (pn_afh_map pn) (int (unat channel div 8));
        Some (byte AND channel_mask channel \<noteq> 0)
      }
      else Some True)"

section \<open>The invariant of the channel map\<close>

definition afh_weight :: "u8 list \<Rightarrow> nat" where
  "afh_weight m = sum_list (map weight m)"

definition afh_wf :: "btbb_piconet \<Rightarrow> bool" where
  "afh_wf pn \<longleftrightarrow> length (pn_afh_map pn) = 10 \<and> unat (pn_used_channels pn) = afh_weight (pn_afh_map pn)"

definition channel_bit :: "u8 list \<Rightarrow> nat \<Rightarrow> bool" where
  "channel_bit m c = bit (m ! (c div 8)) (c mod 8)"

lemma channel_set_blocks:
  "{c. c < 8 * length m \<and> channel_bit m c} = (\<Union>i \<in> {..<length m}. (\<lambda>j. 8 * i + j) ` {j. bit (m ! i) j})"
proof (intro equalityI subsetI)
  fix c assume "c \<in> {c. c < 8 * length m \<and> channel_bit m c}"
  then have "c div 8 \<in> {..<length m}" "bit (m ! (c div 8)) (c mod 8)"
    by (auto simp: channel_bit_def less_mult_imp_div_less mult.commute)
  moreover have "c = 8 * (c div 8) + c mod 8" by simp
  ultimately show "c \<in> (\<Union>i \<in> {..<length m}. (\<lambda>j. 8 * i + j) ` {j. bit (m ! i) j})" by blast
next
  fix c assume "c \<in> (\<Union>i \<in> {..<length m}. (\<lambda>j. 8 * i + j) ` {j. bit (m ! i) j})"
  then obtain i j where ij: "i < length m" "bit (m ! i) j" "c = 8 * i + j" by auto
  then have "j < 8" using bit_imp_le_length [of "m ! i" j] by simp
  with ij show "c \<in> {c. c < 8 * length m \<and> channel_bit m c}" by (auto simp: channel_bit_def)
qed

lemma afh_weight_card: "afh_weight m = card {c. c < 8 * length m \<and> channel_bit m c}"
proof -
  have "card (\<Union>i \<in> {..<length m}. (\<lambda>j. 8 * i + j) ` {j. bit (m ! i) j}) =
      (\<Sum>i < length m. card ((\<lambda>j. 8 * i + j) ` {j. bit (m ! i) j}))"
  proof (rule card_UN_disjoint)
    show "\<forall>i \<in> {..<length m}. \<forall>k \<in> {..<length m}. i \<noteq> k \<longrightarrow>
        (\<lambda>j. 8 * i + j) ` {j. bit (m ! i) j} \<inter> (\<lambda>j. 8 * k + j) ` {j. bit (m ! k) j} = {}"
    proof (intro ballI impI)
      fix i k :: nat
      assume "i \<noteq> k"
      have "8 * i + a \<noteq> 8 * k + b" if "bit (m ! i) a" "bit (m ! k) b" for a b
      proof -
        have "a < 8" "b < 8" using that bit_imp_le_length by fastforce+
        with \<open>i \<noteq> k\<close> show ?thesis by arith
      qed
      then show "(\<lambda>j. 8 * i + j) ` {j. bit (m ! i) j} \<inter> (\<lambda>j. 8 * k + j) ` {j. bit (m ! k) j} = {}"
        by blast
    qed
  qed auto
  also have "\<dots> = (\<Sum>i < length m. weight (m ! i))"
    by (simp add: card_image weight_def)
  also have "\<dots> = afh_weight m"
    by (simp add: afh_weight_def sum_list_sum_nth atLeast0LessThan)
  finally show ?thesis unfolding channel_set_blocks by simp
qed

lemma afh_wf_card: "afh_wf pn \<Longrightarrow> unat (pn_used_channels pn) = card {c. c < 80 \<and> channel_bit (pn_afh_map pn) c}"
  by (simp add: afh_wf_def afh_weight_card)

lemma channel_mask_bit: "byte AND channel_mask c \<noteq> 0 \<longleftrightarrow> bit byte (unat c mod 8)"
  by (simp add: channel_mask_def push_bit_eq_mult and_exp_eq_0_iff_not_bit)

lemma bit_channel_mask: "bit (channel_mask c) n \<longleftrightarrow> n = unat c mod 8"
  by (auto simp: channel_mask_def push_bit_eq_mult bit_exp_iff)

lemma channel_bit_update:
  assumes "length m = 10" "c < 80" "d < 80"
    and "\<And>n. bit byte n = (if n = c mod 8 then v else bit (m ! (c div 8)) n)"
  shows "channel_bit (m[c div 8 := byte]) d = (if d = c then v else channel_bit m d)"
proof (cases "d div 8 = c div 8")
  case True
  then have "d mod 8 = c mod 8 \<longleftrightarrow> d = c" by (metis div_mult_mod_eq)
  moreover have "c div 8 < length m" using assms by auto
  ultimately show ?thesis using True assms(4) by (auto simp: channel_bit_def)
next
  case False
  then show ?thesis by (auto simp: channel_bit_def)
qed

lemma wr_one: "i < length xs \<Longrightarrow> wr xs (int i) [y] = Some (xs[i := y])"
  by (simp add: wr_def upd_conv_take_nth_drop)

lemma rd_nat: "i < length xs \<Longrightarrow> rd xs (int i) = Some (xs ! i)"
  by (simp add: rd_def)

text \<open>Marking and clearing a channel, inside the map.\<close>

lemma set_channel_seen_eq:
  assumes "length (pn_afh_map pn) = 10" "unat c < 80"
  shows "btbb_piconet_set_channel_seen pn c =
    (if channel_bit (pn_afh_map pn) (unat c) then Some (0, pn)
     else Some (1, pn\<lparr>pn_afh_map := (pn_afh_map pn)[unat c div 8 := pn_afh_map pn ! (unat c div 8) OR channel_mask c],
                     pn_used_channels := pn_used_channels pn + 1\<rparr>))"
proof -
  have "unat c div 8 < length (pn_afh_map pn)" using assms by auto
  then show ?thesis
    using channel_mask_bit [of "pn_afh_map pn ! (unat c div 8)" c]
    by (auto simp: btbb_piconet_set_channel_seen_def Let_def rd_nat wr_one channel_bit_def)
qed

lemma clear_channel_seen_eq:
  assumes "length (pn_afh_map pn) = 10" "unat c < 80"
  shows "btbb_piconet_clear_channel_seen pn c =
    (if channel_bit (pn_afh_map pn) (unat c)
     then Some (1, pn\<lparr>pn_afh_map := (pn_afh_map pn)[unat c div 8 := pn_afh_map pn ! (unat c div 8) AND NOT (channel_mask c)],
                     pn_used_channels := pn_used_channels pn - 1\<rparr>)
     else Some (0, pn))"
proof -
  have "unat c div 8 < length (pn_afh_map pn)" using assms by auto
  then show ?thesis
    using channel_mask_bit [of "pn_afh_map pn ! (unat c div 8)" c]
    by (auto simp: btbb_piconet_clear_channel_seen_def Let_def rd_nat wr_one channel_bit_def)
qed

lemma channel_bit_set:
  assumes "length m = 10" "unat c < 80" "d < 80"
  shows "channel_bit (m[unat c div 8 := m ! (unat c div 8) OR channel_mask c]) d \<longleftrightarrow> d = unat c \<or> channel_bit m d"
  using channel_bit_update [OF assms, of "m ! (unat c div 8) OR channel_mask c" True]
  by (auto simp: bit_or_iff bit_channel_mask)

lemma channel_bit_clear:
  assumes "length m = 10" "unat c < 80" "d < 80"
  shows "channel_bit (m[unat c div 8 := m ! (unat c div 8) AND NOT (channel_mask c)]) d \<longleftrightarrow> d \<noteq> unat c \<and> channel_bit m d"
proof -
  have "bit (m ! (unat c div 8) AND NOT (channel_mask c)) n =
      (if n = unat c mod 8 then False else bit (m ! (unat c div 8)) n)" for n
    using bit_imp_le_length [of "m ! (unat c div 8)" n] by (auto simp: bit_simps bit_channel_mask)
  from channel_bit_update [OF assms this] show ?thesis by auto
qed

lemma card_channels_le: "card {c. c < 80 \<and> channel_bit m c} \<le> 80"
  using card_mono [of "{..<80}" "{c. c < 80 \<and> channel_bit m c}"] by auto

lemma set_channel_seen_wf:
  assumes "afh_wf pn" "unat c < 80" "btbb_piconet_set_channel_seen pn c = Some (r, p)"
  shows "afh_wf p"
proof (cases "channel_bit (pn_afh_map pn) (unat c)")
  case True
  with assms show ?thesis by (simp add: set_channel_seen_eq afh_wf_def)
next
  case False
  let ?m = "pn_afh_map pn"
  let ?n = "?m[unat c div 8 := ?m ! (unat c div 8) OR channel_mask c]"
  have len: "length ?m = 10" using assms(1) by (simp add: afh_wf_def)
  have p: "p = pn\<lparr>pn_afh_map := ?n, pn_used_channels := pn_used_channels pn + 1\<rparr>"
    using assms False by (simp add: set_channel_seen_eq len)
  have "{d. d < 80 \<and> channel_bit ?n d} = insert (unat c) {d. d < 80 \<and> channel_bit ?m d}"
    using assms(2) by (auto simp: channel_bit_set len)
  then have "afh_weight ?n = Suc (afh_weight ?m)"
    using False len by (simp add: afh_weight_card)
  moreover have "unat (pn_used_channels pn) \<le> 80"
    using afh_wf_card [OF assms(1)] card_channels_le by simp
  ultimately show ?thesis
    using assms(1) unfolding p afh_wf_def by (simp add: unat_word_ariths)
qed

lemma clear_channel_seen_wf:
  assumes "afh_wf pn" "unat c < 80" "btbb_piconet_clear_channel_seen pn c = Some (r, p)"
  shows "afh_wf p"
proof (cases "channel_bit (pn_afh_map pn) (unat c)")
  case False
  with assms show ?thesis by (simp add: clear_channel_seen_eq afh_wf_def)
next
  case True
  let ?m = "pn_afh_map pn"
  let ?n = "?m[unat c div 8 := ?m ! (unat c div 8) AND NOT (channel_mask c)]"
  have len: "length ?m = 10" using assms(1) by (simp add: afh_wf_def)
  have p: "p = pn\<lparr>pn_afh_map := ?n, pn_used_channels := pn_used_channels pn - 1\<rparr>"
    using assms True by (simp add: clear_channel_seen_eq len)
  have "{d. d < 80 \<and> channel_bit ?m d} = insert (unat c) {d. d < 80 \<and> channel_bit ?n d}"
    using assms(2) True by (auto simp: channel_bit_clear len)
  moreover have "unat c \<notin> {d. d < 80 \<and> channel_bit ?n d}"
    using assms(2) by (simp add: channel_bit_clear len)
  ultimately have w: "afh_weight ?m = Suc (afh_weight ?n)"
    using len by (simp add: afh_weight_card)
  then have "pn_used_channels pn \<noteq> 0"
    using assms(1) by (auto simp: afh_wf_def)
  then have "unat (pn_used_channels pn - 1) = unat (pn_used_channels pn) - 1"
    by (simp add: unat_minus_one)
  with w show ?thesis
    using assms(1) unfolding p afh_wf_def by simp
qed

section \<open>A set of channels\<close>

text \<open>
  The interface that the rest of the code has of the channel map: marking and clearing a channel keep
  the invariant and change the membership of that channel only.
\<close>

locale channel_set =
  fixes inv :: "'s \<Rightarrow> bool" and mem :: "'s \<Rightarrow> nat \<Rightarrow> bool"
    and mark :: "'s \<Rightarrow> u8 \<Rightarrow> (u8 \<times> 's) option" and unmark :: "'s \<Rightarrow> u8 \<Rightarrow> (u8 \<times> 's) option"
  assumes mark_runs: "inv s \<Longrightarrow> unat c < 80 \<Longrightarrow> \<exists>r t. mark s c = Some (r, t) \<and> inv t"
    and mem_mark: "inv s \<Longrightarrow> unat c < 80 \<Longrightarrow> d < 80 \<Longrightarrow> mark s c = Some (r, t) \<Longrightarrow> mem t d \<longleftrightarrow> d = unat c \<or> mem s d"
    and unmark_runs: "inv s \<Longrightarrow> unat c < 80 \<Longrightarrow> \<exists>r t. unmark s c = Some (r, t) \<and> inv t"
    and mem_unmark: "inv s \<Longrightarrow> unat c < 80 \<Longrightarrow> d < 80 \<Longrightarrow> unmark s c = Some (r, t) \<Longrightarrow> mem t d \<longleftrightarrow> d \<noteq> unat c \<and> mem s d"
begin

definition mark_all :: "u8 list \<Rightarrow> 's \<Rightarrow> 's option" where
  "mark_all cs s = foldM (\<lambda>c s. map_option snd (mark s c)) cs s"

lemma mark_all:
  "inv s \<Longrightarrow> \<forall>c \<in> set cs. unat c < 80 \<Longrightarrow>
     \<exists>t. mark_all cs s = Some t \<and> inv t \<and> (\<forall>d < 80. mem t d \<longleftrightarrow> d \<in> unat ` set cs \<or> mem s d)"
proof (induction cs arbitrary: s)
  case Nil
  then show ?case by (simp add: mark_all_def)
next
  case (Cons c cs)
  then obtain r u where u: "mark s c = Some (r, u)" "inv u"
    using mark_runs [OF Cons.prems(1), of c] by auto
  then obtain t where t: "mark_all cs u = Some t" "inv t" "\<forall>d < 80. mem t d \<longleftrightarrow> d \<in> unat ` set cs \<or> mem u d"
    using Cons.IH [OF u(2)] Cons.prems(2) by auto
  have "mark_all (c # cs) s = Some t"
    using t(1) u(1) by (simp add: mark_all_def)
  moreover have "mem t d \<longleftrightarrow> d \<in> unat ` set (c # cs) \<or> mem s d" if "d < 80" for d
    using t(3) that mem_mark [OF Cons.prems(1) _ that u(1)] Cons.prems(2) by auto
  ultimately show ?case using t(2) by blast
qed

lemma unmark_mark:
  assumes "inv s" "unat c < 80" "\<not> mem s (unat c)" "mark s c = Some (r, t)" "unmark t c = Some (q, u)" "d < 80"
  shows "mem u d \<longleftrightarrow> mem s d"
proof -
  have "inv t" using mark_runs [OF assms(1,2)] assms(4) by auto
  then show ?thesis
    using mem_mark [OF assms(1,2,6,4)] mem_unmark [OF _ assms(2,6,5)] assms(3) by auto
qed

end

interpretation channels: channel_set afh_wf "\<lambda>pn. channel_bit (pn_afh_map pn)"
  btbb_piconet_set_channel_seen btbb_piconet_clear_channel_seen
proof
  fix s r t and c :: u8 and d :: nat
  assume s: "afh_wf s" "unat c < 80"
  then have len: "length (pn_afh_map s) = 10" by (simp add: afh_wf_def)
  show "\<exists>r t. btbb_piconet_set_channel_seen s c = Some (r, t) \<and> afh_wf t"
    using set_channel_seen_wf [OF s] set_channel_seen_eq [OF len s(2)] by (cases "channel_bit (pn_afh_map s) (unat c)") auto
  show "\<exists>r t. btbb_piconet_clear_channel_seen s c = Some (r, t) \<and> afh_wf t"
    using clear_channel_seen_wf [OF s] clear_channel_seen_eq [OF len s(2)] by (cases "channel_bit (pn_afh_map s) (unat c)") auto
  assume d: "d < 80"
  show "channel_bit (pn_afh_map t) d \<longleftrightarrow> d = unat c \<or> channel_bit (pn_afh_map s) d"
    if "btbb_piconet_set_channel_seen s c = Some (r, t)"
    using that channel_bit_set [OF len s(2) d]
    by (auto simp: set_channel_seen_eq len s(2) split: if_splits)
  show "channel_bit (pn_afh_map t) d \<longleftrightarrow> d \<noteq> unat c \<and> channel_bit (pn_afh_map s) d"
    if "btbb_piconet_clear_channel_seen s c = Some (r, t)"
    using that channel_bit_clear [OF len s(2) d]
    by (auto simp: clear_channel_seen_eq len s(2) split: if_splits)
qed

lemma new_piconet_channels: "afh_wf btbb_piconet_new" "c < 80 \<Longrightarrow> \<not> channel_bit (pn_afh_map btbb_piconet_new) c"
proof -
  have m: "pn_afh_map btbb_piconet_new = replicate 10 0" "pn_used_channels btbb_piconet_new = 0"
    by (simp_all add: btbb_piconet_new_def)
  then show "afh_wf btbb_piconet_new" by (simp add: afh_wf_def afh_weight_def)
  assume "c < 80"
  then have "c div 8 < 10" by auto
  then show "\<not> channel_bit (pn_afh_map btbb_piconet_new) c"
    unfolding m channel_bit_def by simp
qed

lemma get_channel_seen_bit:
  assumes "length (pn_afh_map pn) = 10" "unat c < 79"
  shows "btbb_piconet_get_channel_seen pn c = Some (channel_bit (pn_afh_map pn) (unat c))"
proof -
  have "unat c div 8 < length (pn_afh_map pn)" using assms by auto
  then show ?thesis
    using assms channel_mask_bit by (simp add: btbb_piconet_get_channel_seen_def rd_nat channel_bit_def)
qed

text \<open>
  C11. From a new piconet, marking channels one by one with
  \<open>btbb_piconet_set_channel_seen\<close> makes exactly these channels seen, and \<open>used_channels\<close> counts each of
  them once, however often it was marked.
\<close>

theorem channels_seen_exact:
  assumes "\<forall>c \<in> set cs. unat c < BT_NUM_CHANNELS"
  shows "\<exists>pn. foldM (\<lambda>c pn. map_option snd (btbb_piconet_set_channel_seen pn c)) cs btbb_piconet_new = Some pn \<and>
    unat (pn_used_channels pn) = card (set cs) \<and>
    (\<forall>c. unat c < BT_NUM_CHANNELS \<longrightarrow> btbb_piconet_get_channel_seen pn c = Some (c \<in> set cs))"
proof -
  have lt: "\<forall>c \<in> set cs. unat c < 80" using assms by auto
  obtain pn where pn: "channels.mark_all cs btbb_piconet_new = Some pn" "afh_wf pn"
    "\<forall>d < 80. channel_bit (pn_afh_map pn) d \<longleftrightarrow> d \<in> unat ` set cs"
    using channels.mark_all [OF new_piconet_channels(1) lt] new_piconet_channels(2) by auto
  have "{d. d < 80 \<and> channel_bit (pn_afh_map pn) d} = unat ` set cs"
    using pn(3) lt by auto
  moreover have "card (unat ` set cs) = card (set cs)"
    by (rule card_image) (simp add: inj_on_def word_eq_iff_unsigned [symmetric])
  ultimately have "unat (pn_used_channels pn) = card (set cs)"
    using afh_wf_card [OF pn(2)] by simp
  moreover have "btbb_piconet_get_channel_seen pn c = Some (c \<in> set cs)" if "unat c < 79" for c
  proof -
    have "unat c \<in> unat ` set cs \<longleftrightarrow> c \<in> set cs"
      by (auto simp: word_eq_iff_unsigned [symmetric])
    then show ?thesis
      using that pn(2,3) by (simp add: get_channel_seen_bit afh_wf_def)
  qed
  ultimately show ?thesis
    using pn(1) unfolding channels.mark_all_def by auto
qed

lemma channels_seen_exact_witness:
  "\<exists>pn. foldM (\<lambda>c pn. map_option snd (btbb_piconet_set_channel_seen pn c)) [5, 78, 5, 0] btbb_piconet_new = Some pn \<and>
    unat (pn_used_channels pn) = 3"
proof -
  have "\<forall>c \<in> set [5, 78, 5, 0 :: u8]. unat c < BT_NUM_CHANNELS" by simp
  from channels_seen_exact [OF this] show ?thesis
    by (elim exE conjE, intro exI conjI) (assumption, simp add: card_insert_if)
qed

end
