(* ===== verification/Hop.thy ===== *)
theory Hop
  imports Piconet
begin

text \<open>
  The hop selection of \<open>lib/src/bluetooth_piconet.c\<close>: the five bit permutation (\<open>perm5\<close> and its lookup
  table), the precalculations, the complete hopping sequence (\<open>gen_hops\<close>), a single hop
  (\<open>single_hop\<close>) and the cache of sequences (\<open>get_hop_pattern\<close>).

  The sequence has 2^27 entries, one for each value of CLK1-27. \<open>None\<close> is a division by
  zero (\<open>used_channels\<close> is 0) or an access outside an array.
\<close>

section \<open>The permutation\<close>

definition index1 :: "nat list" where "index1 = [0, 2, 1, 3, 0, 1, 0, 3, 1, 0, 2, 1, 0, 1]"
definition index2 :: "nat list" where "index2 = [1, 3, 2, 4, 4, 3, 2, 4, 4, 3, 4, 3, 3, 2]"

definition perm5 :: "int \<Rightarrow> int \<Rightarrow> int \<Rightarrow> int" where
  "perm5 z p_high p_low =
     (let p = map (\<lambda>i. drop_bit i p_low AND 0x01) [0..<9] @ map (\<lambda>i. drop_bit i p_high AND 0x01) [0..<5];
          z_bit = map (\<lambda>i. drop_bit i z AND 0x01) [0..<5];
          z_bit = fold (\<lambda>i z_bit.
              if p ! i \<noteq> 0
              then z_bit[index1 ! i := z_bit ! (index2 ! i), index2 ! i := z_bit ! (index1 ! i)]
              else z_bit) (rev [0..<14]) z_bit
      in fold (\<lambda>i output. output + push_bit i (z_bit ! i)) [0..<5] 0)"

text \<open>
  The alternative \<open>perm5\<close> of the file, compiled when \<open>WC4\<close> is defined: each butterfly exchanges two
  bits of \<open>z\<close> by an exclusive or.
\<close>

definition BUTTERFLY :: "int \<Rightarrow> nat \<Rightarrow> nat \<Rightarrow> nat \<Rightarrow> int \<Rightarrow> int" where
  "BUTTERFLY p c a b z =
     (if (((drop_bit a z XOR drop_bit b z) AND drop_bit c p) AND 0x1) \<noteq> 0
      then z XOR (push_bit a 1 OR push_bit b 1) else z)"

definition perm5_WC4 :: "int \<Rightarrow> int \<Rightarrow> int \<Rightarrow> int" where
  "perm5_WC4 z p_high p_low =
     (let p = push_bit 5 p_high OR p_low;
          z = BUTTERFLY p 13 1 2 z;
          z = BUTTERFLY p 12 0 3 z;
          z = BUTTERFLY p 11 1 3 z;
          z = BUTTERFLY p 10 2 4 z;
          z = BUTTERFLY p 9 0 3 z;
          z = BUTTERFLY p 8 1 4 z;
          z = BUTTERFLY p 7 3 4 z;
          z = BUTTERFLY p 6 0 2 z;
          z = BUTTERFLY p 5 1 3 z;
          z = BUTTERFLY p 4 0 4 z;
          z = BUTTERFLY p 3 3 4 z;
          z = BUTTERFLY p 2 1 2 z;
          z = BUTTERFLY p 1 2 3 z;
          z = BUTTERFLY p 0 0 1 z
      in z)"

text \<open>\<open>perm_table\<close> after \<open>perm_table_init\<close>, which \<open>fast_perm\<close> runs on its first call.\<close>

definition perm_table_init :: "int list list list" where
  "perm_table_init = map (\<lambda>z. map (\<lambda>p_high. map (\<lambda>p_low. perm5 z p_high p_low) [0..0x1ff]) [0..0x1f]) [0..0x1f]"

definition fast_perm :: "int \<Rightarrow> int \<Rightarrow> int \<Rightarrow> int option" where
  "fast_perm z p_high p_low = do {
     plane \<leftarrow> rd perm_table_init z;
     row \<leftarrow> rd plane p_high;
     rd row p_low
   }"

section \<open>Precalculation\<close>

definition precalc :: "btbb_piconet \<Rightarrow> btbb_piconet option" where
  "precalc pn = do {
     (j, pn) \<leftarrow> foldM (\<lambda>i (j, pn).
         if btbb_piconet_get_flag pn BTBB_IS_AFH then do {
           let chan = (i * 2) mod BT_NUM_CHANNELS;
           seen \<leftarrow> btbb_piconet_get_channel_seen pn (of_nat chan);
           if seen then do {
             bank \<leftarrow> wr (pn_bank pn) (int j) [int chan];
             Some (j + 1, pn\<lparr>pn_bank := bank\<rparr>)
           }
           else Some (j, pn)
         }
         else do {
           bank \<leftarrow> wr (pn_bank pn) (int i) [int ((i * 2) mod BT_NUM_CHANNELS)];
           Some (j, pn\<lparr>pn_bank := bank\<rparr>)
         }) [0..<BT_NUM_CHANNELS] (0, pn);
     Some pn
   }"

definition address_precalc :: "int \<Rightarrow> btbb_piconet \<Rightarrow> btbb_piconet" where
  "address_precalc address pn = pn\<lparr>
     pn_a1 := drop_bit 23 address AND 0x1f,
     pn_b := drop_bit 19 address AND 0x0f,
     pn_c1 := (drop_bit 4 address AND 0x10) + (drop_bit 3 address AND 0x08) +
       (drop_bit 2 address AND 0x04) + (drop_bit 1 address AND 0x02) + (address AND 0x01),
     pn_d1 := drop_bit 10 address AND 0x1ff,
     pn_e := (drop_bit 7 address AND 0x40) + (drop_bit 6 address AND 0x20) +
       (drop_bit 5 address AND 0x10) + (drop_bit 4 address AND 0x08) +
       (drop_bit 3 address AND 0x04) + (drop_bit 2 address AND 0x02) + (drop_bit 1 address AND 0x01)\<rparr>"

section \<open>Hop selection\<close>

definition checked_mod :: "int \<Rightarrow> int \<Rightarrow> int option" where
  "checked_mod a m = (if m = 0 then None else Some (a mod m))"

text \<open>
  The last step of the selection, the same in all places: an offset into the register bank. Under
  AFH it is \<open>f_dash\<close> modulo the number of used channels, else \<open>f\<close> modulo 79.
\<close>

definition select_channel :: "btbb_piconet \<Rightarrow> int \<Rightarrow> int \<Rightarrow> int \<Rightarrow> int \<Rightarrow> int option" where
  "select_channel pn perm_out f f_dash y2 =
     (if btbb_piconet_get_flag pn BTBB_IS_AFH then do {
        i \<leftarrow> checked_mod (perm_out + pn_e pn + f_dash + y2) (uint (pn_used_channels pn));
        rd (pn_bank pn) i
      }
      else rd (pn_bank pn) ((perm_out + pn_e pn + f + y2) mod int BT_NUM_CHANNELS))"

text \<open>The body of the innermost loop of \<open>gen_hops\<close>: the two hops of one value of \<open>x\<close>.\<close>

definition gen_pair :: "btbb_piconet \<Rightarrow> int \<Rightarrow> int \<Rightarrow> int \<Rightarrow> int \<Rightarrow> int \<Rightarrow> int \<Rightarrow> int list \<Rightarrow> int list option" where
  "gen_pair pn a c d f f_dash x hops = do {
     let perm_in = ((x + a) mod 32) XOR pn_b pn;
     perm_out \<leftarrow> fast_perm perm_in c d;
     hop0 \<leftarrow> select_channel pn perm_out f f_dash 0;
     perm_out \<leftarrow> fast_perm perm_in (c XOR 0x1f) d;
     hop1 \<leftarrow> select_channel pn perm_out f f_dash 32;
     Some (hops @ [hop0, hop1])
   }"

text \<open>The body of the loop over \<open>k\<close>; the state is \<open>base_f\<close>, \<open>f\<close>, \<open>f_dash\<close> and the hops so far.\<close>

definition gen_block ::
    "btbb_piconet \<Rightarrow> int \<Rightarrow> int \<Rightarrow> int \<Rightarrow> u32 \<times> int \<times> int \<times> int list \<Rightarrow> (u32 \<times> int \<times> int \<times> int list) option" where
  "gen_block pn a c k = (\<lambda>(base_f, f, f_dash, hops). do {
     let d = pn_d1 pn XOR k;
     hops \<leftarrow> foldM (gen_pair pn a c d f f_dash) [0..0x1f] hops;
     let base_f = base_f + 16;
     let f = uint base_f mod int BT_NUM_CHANNELS;
     f_dash \<leftarrow> checked_mod f (uint (pn_used_channels pn));
     Some (base_f, f, f_dash, hops)
   })"

definition gen_hops :: "btbb_piconet \<Rightarrow> btbb_piconet option" where
  "gen_hops pn = do {
     (base_f, f, f_dash, hops) \<leftarrow>
       foldM (\<lambda>h. foldM (\<lambda>i. foldM (\<lambda>j. foldM (\<lambda>k.
           gen_block pn (pn_a1 pn XOR i) (pn_c1 pn XOR j) k)
         [0..0x1ff]) [0..0x1f]) [0..0x1f]) [0..(3 :: int)] (0, 0, 0, []);
     Some (pn\<lparr>pn_sequence := Some hops\<rparr>)
   }"

definition gen_hop_pattern :: "btbb_piconet \<Rightarrow> btbb_piconet option" where
  "gen_hop_pattern pn = do {
     pn \<leftarrow> precalc pn;
     let pn = address_precalc (uint ((push_bit 24 (ucast (pn_UAP pn)) OR pn_LAP pn) AND 0xfffffff)) pn;
     gen_hops pn
   }"

text \<open>Determine the channel for a particular hop.\<close>

definition single_hop :: "int \<Rightarrow> btbb_piconet \<Rightarrow> int option" where
  "single_hop clock pn = do {
     let x = drop_bit 2 clock AND 0x1f;
     let y1 = drop_bit 1 clock AND 0x01;
     let y2 = push_bit 5 y1;
     let a = (pn_a1 pn XOR drop_bit 21 clock) AND 0x1f;
     let c = (pn_c1 pn XOR drop_bit 16 clock) AND 0x1f;
     let d = (pn_d1 pn XOR drop_bit 7 clock) AND 0x1ff;
     let base_f = drop_bit 3 clock AND 0x1fffff0;
     let f = base_f mod int BT_NUM_CHANNELS;
     perm \<leftarrow> fast_perm (((x + a) mod 32) XOR pn_b pn) ((y1 * 0x1f) XOR c) d;
     f_dash \<leftarrow> (if btbb_piconet_get_flag pn BTBB_IS_AFH
                then checked_mod base_f (uint (pn_used_channels pn)) else Some 0);
     select_channel pn perm f f_dash y2
   }"

text \<open>Look up the channel for a particular hop.\<close>

definition hop :: "int \<Rightarrow> btbb_piconet \<Rightarrow> int option" where
  "hop clock pn = do { hops \<leftarrow> pn_sequence pn; rd hops clock }"

section \<open>The cache of sequences\<close>

text \<open>
  The key is 64 bits wide, but the hash table is searched and filled with a key length of 4 bytes:
  on a little-endian host the lower half of the key.
\<close>

type_synonym hopping_map = "(u64 \<times> int list) list"

definition hopping_key :: "btbb_piconet \<Rightarrow> u64" where
  "hopping_key pn =
     push_bit 39 (of_bool (btbb_piconet_get_flag pn BTBB_IS_AFH)) OR
     push_bit 32 (ucast (pn_used_channels pn)) OR
     ucast (push_bit 24 (ucast (pn_UAP pn) :: u32)) OR ucast (pn_LAP pn)"

definition hash_find4 :: "hopping_map \<Rightarrow> u64 \<Rightarrow> int list option" where
  "hash_find4 hopping_map key = map_option snd (find (\<lambda>(k, s). take_bit 32 k = take_bit 32 key) hopping_map)"

definition get_hop_pattern :: "hopping_map \<Rightarrow> btbb_piconet \<Rightarrow> (hopping_map \<times> btbb_piconet) option" where
  "get_hop_pattern hopping_map pn =
     (let key = hopping_key pn in
      case hash_find4 hopping_map key of
        None \<Rightarrow> do {
          pn \<leftarrow> gen_hop_pattern pn;
          hops \<leftarrow> pn_sequence pn;
          Some ((key, hops) # hopping_map, pn)
        }
      | Some hops \<Rightarrow> Some (hopping_map, pn\<lparr>pn_sequence := Some hops\<rparr>))"

definition btbb_piconet_set_afh_map ::
    "hopping_map \<Rightarrow> btbb_piconet \<Rightarrow> u8 list \<Rightarrow> (hopping_map \<times> btbb_piconet) option" where
  "btbb_piconet_set_afh_map hopping_map pn afh_map = do {
     pn \<leftarrow> foldM (\<lambda>i pn. do {
         byte \<leftarrow> rd afh_map (int i);
         m \<leftarrow> wr (pn_afh_map pn) (int i) [byte];
         Some (pn\<lparr>pn_afh_map := m,
                  pn_used_channels := pn_used_channels pn + word_of_int (count_bits_byte byte)\<rparr>)
       }) [0..<10] (pn\<lparr>pn_used_channels := 0\<rparr>);
     if btbb_piconet_get_flag pn BTBB_UAP_VALID then get_hop_pattern hopping_map pn
     else Some (hopping_map, pn)
   }"

section \<open>The permutation on bits\<close>

definition swap :: "nat \<Rightarrow> nat \<Rightarrow> 'a list \<Rightarrow> 'a list" where
  "swap i j xs = xs[i := xs ! j, j := xs ! i]"

lemma length_swap [simp]: "length (swap i j xs) = length xs"
  by (simp add: swap_def)

lemma swap_swap: "i < length xs \<Longrightarrow> j < length xs \<Longrightarrow> swap i j (swap i j xs) = xs"
  by (rule nth_equalityI) (auto simp: swap_def nth_list_update)

lemma map_swap: "i < length xs \<Longrightarrow> j < length xs \<Longrightarrow> map f (swap i j xs) = swap i j (map f xs)"
  by (simp add: swap_def map_update)

lemma nth_swap:
  "i < length xs \<Longrightarrow> j < length xs \<Longrightarrow> swap i j xs ! n = (if n = i then xs ! j else if n = j then xs ! i else xs ! n)"
  by (auto simp: swap_def nth_list_update)

text \<open>The fourteen butterflies; \<open>p i\<close> is control signal \<open>i\<close>.\<close>

definition butterflies :: "(nat \<Rightarrow> bool) \<Rightarrow> nat list \<Rightarrow> 'a list \<Rightarrow> 'a list" where
  "butterflies p is xs = fold (\<lambda>i xs. if p i then swap (index1 ! i) (index2 ! i) xs else xs) is xs"

lemma index_bounds: "i < 14 \<Longrightarrow> index1 ! i < 5 \<and> index2 ! i < 5 \<and> index1 ! i \<noteq> index2 ! i"
proof -
  have "\<forall>i \<in> set [0..<14]. index1 ! i < 5 \<and> index2 ! i < 5 \<and> index1 ! i \<noteq> index2 ! i"
    by (simp add: index1_def index2_def upt_eval)
  then show "i < 14 \<Longrightarrow> index1 ! i < 5 \<and> index2 ! i < 5 \<and> index1 ! i \<noteq> index2 ! i" by simp
qed

lemma length_butterflies [simp]: "length (butterflies p is xs) = length xs"
  by (induction "is" arbitrary: xs) (auto simp: butterflies_def)

lemma butterflies_inverse:
  "set is \<subseteq> {..<14} \<Longrightarrow> length xs = 5 \<Longrightarrow> butterflies p (rev is) (butterflies p is xs) = xs"
proof (induction "is" arbitrary: xs)
  case (Cons i "is")
  let ?s = "\<lambda>xs. if p i then swap (index1 ! i) (index2 ! i) xs else xs"
  have "length (?s xs) = 5" using Cons.prems by simp
  then have "butterflies p (rev is) (butterflies p is (?s xs)) = ?s xs"
    using Cons by simp
  then have "butterflies p (rev (i # is)) (butterflies p (i # is) xs) = ?s (?s xs)"
    by (cases "p i") (simp_all add: butterflies_def)
  also have "\<dots> = xs"
    using index_bounds [of i] Cons.prems by (simp add: swap_swap)
  finally show ?case .
qed (simp add: butterflies_def)

lemma map_butterflies:
  "set is \<subseteq> {..<14} \<Longrightarrow> length xs = 5 \<Longrightarrow> map f (butterflies p is xs) = butterflies p is (map f xs)"
proof (induction "is" arbitrary: xs)
  case (Cons i "is")
  let ?s = "\<lambda>xs. if p i then swap (index1 ! i) (index2 ! i) xs else xs"
  have "map f (butterflies p is (if p i then swap (index1 ! i) (index2 ! i) xs else xs)) =
      butterflies p is (map f (if p i then swap (index1 ! i) (index2 ! i) xs else xs))"
    using Cons by simp
  then show ?case
    using index_bounds [of i] Cons.prems by (simp add: butterflies_def map_swap)
qed (simp add: butterflies_def)

text \<open>Five bits as a number.\<close>

definition bits5 :: "int \<Rightarrow> bool list" where
  "bits5 z = map (bit z) [0..<5]"

definition value5 :: "bool list \<Rightarrow> int" where
  "value5 bs = horner_sum of_bool 2 bs"

lemma length_bits5 [simp]: "length (bits5 z) = 5"
  by (simp add: bits5_def)

lemma bit_value5: "bit (value5 bs) n \<longleftrightarrow> n < length bs \<and> bs ! n"
  by (simp add: value5_def bit_horner_sum_bit_iff)

lemma value5_bits5: "0 \<le> z \<Longrightarrow> z < 32 \<Longrightarrow> value5 (bits5 z) = z"
proof -
  assume "0 \<le> z" "z < 32"
  then have "z = take_bit 5 z" by (simp add: take_bit_int_eq_self)
  then have "bit z n \<Longrightarrow> n < 5" for n by (metis bit_take_bit_iff)
  then show ?thesis
    by (auto intro!: bit_eqI simp: bit_value5 bits5_def)
qed

lemma bits5_value5: "length bs = 5 \<Longrightarrow> bits5 (value5 bs) = bs"
  by (rule nth_equalityI) (auto simp: bits5_def bit_value5)

lemma value5_bounds: "length bs = 5 \<Longrightarrow> 0 \<le> value5 bs \<and> value5 bs < 32"
proof -
  assume "length bs = 5"
  then have "value5 bs = take_bit 5 (value5 bs)"
    by (auto intro!: bit_eqI simp: bit_value5 bit_take_bit_iff)
  then show ?thesis
    using take_bit_int_less_exp [of 5 "value5 bs"] take_bit_nonnegative [of 5 "value5 bs"] by simp
qed

lemma drop_bit_and_1: "drop_bit i p AND 1 = of_bool (bit p i)" for p :: int
  by (simp add: and_one_eq bit_iff_odd_drop_bit mod2_eq_if)

definition control :: "int \<Rightarrow> int \<Rightarrow> nat \<Rightarrow> bool" where
  "control p_high p_low i = (if i < 9 then bit p_low i else bit p_high (i - 9))"

lemma perm5_butterflies:
  "perm5 z p_high p_low = value5 (butterflies (control p_high p_low) (rev [0..<14]) (bits5 z))"
proof -
  let ?p = "map (\<lambda>i. drop_bit i p_low AND 0x01) [0..<9] @ map (\<lambda>i. drop_bit i p_high AND 0x01) [0..<5]"
  let ?step = "\<lambda>i z_bit. if ?p ! i \<noteq> 0
      then z_bit[index1 ! i := z_bit ! (index2 ! i), index2 ! i := z_bit ! (index1 ! i)] else z_bit"
  let ?bs = "butterflies (control p_high p_low) (rev [0..<14]) (bits5 z)"
  have p: "?p ! i \<noteq> 0 \<longleftrightarrow> control p_high p_low i" if "i < 14" for i
    proof -
    have "i - 9 < 5" using that by simp
    then show ?thesis
      using that by (simp add: nth_append control_def drop_bit_and_1 del: upt_rec_numeral)
  qed
  have z: "map (\<lambda>i. drop_bit i z AND 0x01) [0..<5] = map of_bool (bits5 z)"
    by (simp add: bits5_def drop_bit_and_1)
  have "fold ?step (rev [0..<14]) (map of_bool (bits5 z)) =
      butterflies (control p_high p_low) (rev [0..<14]) (map of_bool (bits5 z))"
    unfolding butterflies_def by (rule fold_cong) (auto simp: p swap_def)
  also have "\<dots> = map of_bool ?bs"
    by (rule map_butterflies [symmetric]) auto
  finally have fold: "fold ?step (rev [0..<14]) (map of_bool (bits5 z)) = map of_bool ?bs" .
  have "fold (\<lambda>i output. output + push_bit i ((map of_bool bs :: int list) ! i)) [0..<5] 0 = value5 bs"
    if bs: "length bs = 5" for bs
  proof -
    obtain b0 b1 b2 b3 b4 where "bs = [b0, b1, b2, b3, b4]"
      using bs by (auto simp: numeral_eq_Suc length_Suc_conv)
    then show ?thesis
      by (simp add: value5_def upt_eval push_bit_eq_mult)
  qed
  then show ?thesis
    unfolding perm5_def Let_def z fold by simp
qed


text \<open>
  C12. For every setting of the control signals \<open>perm5\<close> is a permutation of the numbers
  below 32.
\<close>

theorem perm5_permutes: "bij_betw (\<lambda>z. perm5 z p_high p_low) {0..<32} {0..<32}"
proof -
  let ?f = "\<lambda>z. perm5 z p_high p_low"
  have "inj_on ?f {0..<32}"
  proof (rule inj_onI)
    fix y z assume "y \<in> {0..<32::int}" "z \<in> {0..<32::int}" and eq: "?f y = ?f z"
    let ?b = "butterflies (control p_high p_low)"
    have "?b (rev [0..<14]) (bits5 y) = ?b (rev [0..<14]) (bits5 z)"
      using arg_cong [OF eq, of bits5] unfolding perm5_butterflies by (simp add: bits5_value5)
    from arg_cong [OF this, of "?b (rev (rev [0..<14]))"] have "bits5 y = bits5 z"
      by (subst (asm) (1 2) butterflies_inverse) auto
    then show "y = z"
      using \<open>y \<in> _\<close> \<open>z \<in> _\<close> by (metis atLeastLessThan_iff value5_bits5)
  qed
  moreover have "?f ` {0..<32} \<subseteq> {0..<32}"
    using value5_bounds by (auto simp: perm5_butterflies)
  ultimately show ?thesis
    by (metis bij_betw_def endo_inj_surj finite_atLeastLessThan_int)
qed

section \<open>The two versions of the permutation\<close>

lemma bit_xor_two: "bit (z XOR (push_bit a 1 OR push_bit b 1)) n \<longleftrightarrow> bit z n \<noteq> (n = a \<or> n = b)" for z :: int
  by (auto simp: bit_simps push_bit_eq_mult)

lemma BUTTERFLY_swap:
  assumes "length bs = 5" "a < 5" "b < 5" "a \<noteq> b"
  shows "BUTTERFLY p c a b (value5 bs) = value5 (if bit p c then swap a b bs else bs)"
proof -
  have "(((drop_bit a (value5 bs) XOR drop_bit b (value5 bs)) AND drop_bit c p) AND 1) =
      of_bool ((bs ! a \<noteq> bs ! b) \<and> bit p c)"
    using assms by (auto intro!: bit_eqI simp: bit_simps bit_value5)
  moreover have "value5 bs XOR (push_bit a 1 OR push_bit b 1) = value5 (swap a b bs)" if "bs ! a \<noteq> bs ! b"
  proof (rule bit_eqI)
    fix n
    show "bit (value5 bs XOR (push_bit a 1 OR push_bit b 1)) n = bit (value5 (swap a b bs)) n"
      using that nth_swap [of a bs b n] assms unfolding bit_xor_two bit_value5 length_swap
      by (cases "n < 5") (simp_all, blast?)
  qed
  moreover have "swap a b bs = bs" if "bs ! a = bs ! b"
    by (rule nth_equalityI) (use assms that in \<open>auto simp: nth_swap\<close>)
  ultimately show ?thesis
    unfolding BUTTERFLY_def by auto
qed

definition butterfly_list :: "(nat \<times> nat \<times> nat) list" where
  "butterfly_list = [(13, 1, 2), (12, 0, 3), (11, 1, 3), (10, 2, 4), (9, 0, 3), (8, 1, 4), (7, 3, 4),
     (6, 0, 2), (5, 1, 3), (4, 0, 4), (3, 3, 4), (2, 1, 2), (1, 2, 3), (0, 0, 1)]"

lemma perm5_WC4_list:
  "perm5_WC4 z p_high p_low = fold (\<lambda>(c, a, b). BUTTERFLY (push_bit 5 p_high OR p_low) c a b) butterfly_list z"
  unfolding perm5_WC4_def butterfly_list_def Let_def by (simp only: fold_simps prod.case)

lemma butterfly_list_index: "butterfly_list = map (\<lambda>i. (i, index1 ! i, index2 ! i)) (rev [0..<14])"
  by (simp add: butterfly_list_def index1_def index2_def upt_eval)

lemma butterflies_list:
  "butterflies p (rev [0..<14]) xs = fold (\<lambda>(c, a, b) xs. if p c then swap a b xs else xs) butterfly_list xs"
  unfolding butterflies_def butterfly_list_index fold_map by (simp add: comp_def del: upt_rec_numeral)

lemma fold_BUTTERFLY:
  "length bs = 5 \<Longrightarrow> \<forall>(c, a, b) \<in> set l. a < 5 \<and> b < 5 \<and> a \<noteq> b \<Longrightarrow>
     fold (\<lambda>(c, a, b). BUTTERFLY p c a b) l (value5 bs) =
     value5 (fold (\<lambda>(c, a, b) xs. if bit p c then swap a b xs else xs) l bs)"
proof (induction l arbitrary: bs)
  case (Cons t l)
  obtain c a b where t: "t = (c, a, b)" by (cases t) auto
  have "BUTTERFLY p c a b (value5 bs) = value5 (if bit p c then swap a b bs else bs)"
    using Cons.prems t by (intro BUTTERFLY_swap) auto
  then show ?case
    using Cons t by simp
qed simp

text \<open>
  C13. The version of \<open>perm5\<close> that is compiled under \<open>WC4\<close> computes the same permutation
  for the control word that it builds, but it builds it with the high signals shifted by five
  positions, onto the nine low ones: the two versions are different functions of their arguments.
\<close>

theorem perm5_versions:
  "(\<forall>z p_high p_low. z \<in> {0..<32} \<longrightarrow>
      (let p = push_bit 5 p_high OR p_low in perm5_WC4 z p_high p_low = perm5 z (drop_bit 9 p) p)) \<and>
   perm5_WC4 1 1 0 \<noteq> perm5 1 1 0"
proof (intro conjI allI impI)
  fix z p_high p_low :: int
  assume z: "z \<in> {0..<32}"
  define p where "p = push_bit 5 p_high OR p_low"
  have "\<forall>(c, a, b) \<in> set butterfly_list. a < 5 \<and> b < 5 \<and> a \<noteq> b"
    by (simp add: butterfly_list_def)
  then have "perm5_WC4 z p_high p_low = value5 (butterflies (bit p) (rev [0..<14]) (bits5 z))"
    using fold_BUTTERFLY [of "bits5 z" butterfly_list p] z value5_bits5 [of z]
    by (simp add: perm5_WC4_list butterflies_list p_def)
  moreover have "control (drop_bit 9 p) p = bit p"
    by (rule ext) (simp add: control_def bit_drop_bit_eq)
  ultimately show "let p = push_bit 5 p_high OR p_low in perm5_WC4 z p_high p_low = perm5 z (drop_bit 9 p) p"
    by (simp add: perm5_butterflies Let_def p_def)
next
  have "perm5_WC4 1 1 0 = 1"
    by (simp only: perm5_WC4_list butterfly_list_def fold_simps prod.case) (simp add: BUTTERFLY_def)
  moreover have "perm5 1 1 0 = 8"
    unfolding perm5_butterflies butterflies_list butterfly_list_def bits5_def
    by (simp add: control_def upt_eval swap_def value5_def bit_1_iff)
  ultimately show "perm5_WC4 1 1 0 \<noteq> perm5 1 1 0" by simp
qed

lemma perm5_versions_witness: "perm5_WC4 21 0 300 = perm5 21 0 300"
proof -
  have "let p = push_bit 5 0 OR 300 in perm5_WC4 21 0 300 = perm5 21 (drop_bit 9 p) (p :: int)"
    by (rule perm5_versions [THEN conjunct1, rule_format]) simp
  then show ?thesis by (simp add: Let_def)
qed

lemma fast_perm_perm5:
  assumes "z \<in> {0..<32}" "p_high \<in> {0..<32}" "p_low \<in> {0..<512}"
  shows "fast_perm z p_high p_low = Some (perm5 z p_high p_low)"
proof -
  have rd_map: "rd (map f [0..m]) i = Some (f i)" if "0 \<le> i" "i \<le> m" for f :: "int \<Rightarrow> 'b" and m i
    using that by (simp add: rd_def nth_upto)
  show ?thesis
    using assms unfolding fast_perm_def perm_table_init_def by (simp add: rd_map)
qed

lemma perm5_range: "perm5 z p_high p_low \<in> {0..<32}"
  using value5_bounds by (simp add: perm5_butterflies)

section \<open>The complete sequence\<close>

text \<open>A loop whose states are numbered.\<close>

lemma foldM_count:
  assumes "\<And>t. t < length xs \<Longrightarrow> f (xs ! t) (St (m + t * w)) = Some (St (m + Suc t * w))"
  shows "foldM f xs (St m) = Some (St (m + length xs * w))"
  using assms
proof (induction xs arbitrary: m)
  case (Cons x xs)
  from Cons.prems [of 0] have "f x (St m) = Some (St (m + w))" by simp
  moreover have "foldM f xs (St (m + w)) = Some (St (m + w + length xs * w))"
    using Cons.prems [of "Suc t" for t] by (intro Cons.IH) (simp add: algebra_simps)
  ultimately show ?case by (simp add: algebra_simps)
qed simp

text \<open>What the precalculations leave: a full register bank and address parts in their ranges.\<close>

definition hop_wf :: "btbb_piconet \<Rightarrow> bool" where
  "hop_wf pn \<longleftrightarrow> length (pn_bank pn) = 79 \<and> 1 \<le> uint (pn_used_channels pn) \<and> uint (pn_used_channels pn) \<le> 79 \<and>
     0 \<le> pn_a1 pn \<and> pn_a1 pn < 32 \<and> 0 \<le> pn_b pn \<and> pn_b pn < 16 \<and> 0 \<le> pn_c1 pn \<and> pn_c1 pn < 32 \<and>
     0 \<le> pn_d1 pn \<and> pn_d1 pn < 512 \<and> 0 \<le> pn_e pn"

text \<open>Hop \<open>n\<close>, from the bits of \<open>n\<close>: bit 0 is y1, then x, k, j and i.\<close>

definition hop_perm :: "btbb_piconet \<Rightarrow> nat \<Rightarrow> int" where
  "hop_perm pn n =
     (let x = int (n div 2 mod 32); i = int (n div 2 ^ 20 mod 32); j = int (n div 2 ^ 15 mod 32);
          k = int (n div 64 mod 512); c = pn_c1 pn XOR j
      in perm5 (((x + (pn_a1 pn XOR i)) mod 32) XOR pn_b pn)
           (if n mod 2 = 1 then c XOR 0x1f else c) (pn_d1 pn XOR k))"

definition hop_value :: "btbb_piconet \<Rightarrow> nat \<Rightarrow> int" where
  "hop_value pn n =
     (let f = int (16 * (n div 64) mod 79)
      in the (select_channel pn (hop_perm pn n) f (f mod uint (pn_used_channels pn)) (32 * int (n mod 2))))"

lemma select_channel_total:
  assumes "hop_wf pn" "0 \<le> perm" "0 \<le> f" "0 \<le> fd" "0 \<le> y2"
  shows "select_channel pn perm f fd y2 = Some (the (select_channel pn perm f fd y2))"
proof -
  let ?u = "uint (pn_used_channels pn)" and ?s = "perm + pn_e pn + fd + y2"
  have "0 \<le> ?s mod ?u" "?s mod ?u < ?u"
    using assms by (auto simp: hop_wf_def intro: pos_mod_sign pos_mod_bound)
  then have "?s mod ?u < 79" using assms(1) by (simp add: hop_wf_def)
  with \<open>0 \<le> ?s mod ?u\<close> show ?thesis
    using assms(1) by (auto simp: select_channel_def checked_mod_def rd_def hop_wf_def)
qed

lemma xor_range:
  assumes "0 \<le> a" "a < 2 ^ n" "0 \<le> b" "b < 2 ^ n"
  shows "0 \<le> a XOR b \<and> a XOR b < (2 ^ n :: int)"
proof -
  have "a XOR b = take_bit n (a XOR b)"
    using assms by (simp add: take_bit_int_eq_self)
  then show ?thesis
    by (metis take_bit_int_less_exp take_bit_nonnegative)
qed

lemma perm_arguments:
  assumes "hop_wf pn" "0 \<le> i" "i < 32" "0 \<le> j" "j < 32" "0 \<le> k" "k < 512"
  shows "(y mod 32) XOR pn_b pn \<in> {0..<32}" "pn_c1 pn XOR j \<in> {0..<32}"
    "(pn_c1 pn XOR j) XOR 0x1f \<in> {0..<32}" "pn_d1 pn XOR k \<in> {0..<512}"
proof -
  have c: "0 \<le> pn_c1 pn XOR j \<and> pn_c1 pn XOR j < 2 ^ 5"
    using assms by (intro xor_range) (auto simp: hop_wf_def)
  then have "0 \<le> (pn_c1 pn XOR j) XOR 0x1f \<and> (pn_c1 pn XOR j) XOR 0x1f < 2 ^ 5"
    by (intro xor_range) auto
  moreover have "0 \<le> (y mod 32) XOR pn_b pn \<and> (y mod 32) XOR pn_b pn < 2 ^ 5"
    using assms by (intro xor_range) (auto simp: hop_wf_def)
  moreover have "0 \<le> pn_d1 pn XOR k \<and> pn_d1 pn XOR k < 2 ^ 9"
    using assms by (intro xor_range) (auto simp: hop_wf_def)
  ultimately show "(y mod 32) XOR pn_b pn \<in> {0..<32}" "pn_c1 pn XOR j \<in> {0..<32}"
    "(pn_c1 pn XOR j) XOR 0x1f \<in> {0..<32}" "pn_d1 pn XOR k \<in> {0..<512}"
    using c by simp_all
qed

text \<open>The state of the loops after \<open>m\<close> values of \<open>k\<close>.\<close>

definition hop_state :: "btbb_piconet \<Rightarrow> nat \<Rightarrow> u32 \<times> int \<times> int \<times> int list" where
  "hop_state pn m = (of_nat (16 * m), int (16 * m mod 79), int (16 * m mod 79) mod uint (pn_used_channels pn),
     map (hop_value pn) [0..<64 * m])"

lemma gen_pair_value:
  assumes "hop_wf pn" "t < 32"
    and "i = int (m div 2 ^ 14 mod 32)" "j = int (m div 512 mod 32)" "k = int (m mod 512)"
    and "f = int (16 * m mod 79)"
  shows "gen_pair pn (pn_a1 pn XOR i) (pn_c1 pn XOR j) (pn_d1 pn XOR k) f (f mod uint (pn_used_channels pn)) (int t) hops =
    Some (hops @ [hop_value pn (64 * m + 2 * t), hop_value pn (64 * m + Suc (2 * t))])"
proof -
  have ar: "0 \<le> i" "i < 32" "0 \<le> j" "j < 32" "0 \<le> k" "k < 512"
    unfolding assms(3-5) by auto
  note args = perm_arguments [OF assms(1) ar]
  have n: "(64 * m + 2 * t + y) div 2 mod 32 = t" "(64 * m + 2 * t + y) div 64 = m"
    "(64 * m + 2 * t + y) mod 2 = y" if "y < 2" for y
  proof -
    have r: "2 * t + y < 64" "(2 * t + y) div 2 = t" "(2 * t + y) mod 2 = y"
      using that assms(2) by auto
    have "64 * m + 2 * t + y = 64 * m + (2 * t + y)" by simp
    moreover have "(64 * m + (2 * t + y)) div 64 = m" using r(1) by simp
    moreover have "(64 * m + (2 * t + y)) div 2 = 32 * m + t"
      using r(2) div_mult_self4 [of 2 "2 * t + y" "32 * m"] by simp
    moreover have "(64 * m + (2 * t + y)) mod 2 = y"
      using r(3) mod_mult_self4 [of 2 "32 * m" "2 * t + y"] by simp
    ultimately show "(64 * m + 2 * t + y) div 2 mod 32 = t" "(64 * m + 2 * t + y) div 64 = m"
      "(64 * m + 2 * t + y) mod 2 = y"
      using assms(2) by (simp_all only: add.assoc) simp_all
  qed
  have big: "(64 * m + 2 * t + y) div 2 ^ 20 = m div 2 ^ 14" "(64 * m + 2 * t + y) div 2 ^ 15 = m div 512" if "y < 2" for y
    using n(2) [OF that] div_mult2_eq [of "64 * m + 2 * t + y" 64 "2 ^ 14"] div_mult2_eq [of "64 * m + 2 * t + y" 64 512]
    by simp_all
  let ?in = "((int t + (pn_a1 pn XOR i)) mod 32) XOR pn_b pn"
  have p0: "hop_perm pn (64 * m + 2 * t) = perm5 ?in (pn_c1 pn XOR j) (pn_d1 pn XOR k)"
    using n [of 0] big [of 0] by (simp add: hop_perm_def Let_def assms(3-5))
  have p1: "hop_perm pn (Suc (64 * m + 2 * t)) = perm5 ?in ((pn_c1 pn XOR j) XOR 0x1f) (pn_d1 pn XOR k)"
    using n [of 1] big [of 1] by (simp add: hop_perm_def Let_def assms(3-5))
  have fd: "0 \<le> f" "0 \<le> f mod uint (pn_used_channels pn)"
    using assms(1) unfolding assms(6) by (auto simp: hop_wf_def intro: pos_mod_sign)
  have v: "select_channel pn (hop_perm pn (64 * m + 2 * t + y)) f (f mod uint (pn_used_channels pn)) (32 * int y) =
      Some (hop_value pn (64 * m + 2 * t + y))" if "y < 2" for y
    using n [OF that] perm5_range fd
    by (subst select_channel_total [OF assms(1)]) (auto simp: hop_perm_def hop_value_def Let_def assms(6))
  show ?thesis
    unfolding gen_pair_def Let_def
    using v [of 0] v [of 1] args by (simp add: fast_perm_perm5 p0 p1)
qed


lemma gen_block_state:
  assumes "hop_wf pn" "m < 2 ^ 21"
    and "i = int (m div 2 ^ 14 mod 32)" "j = int (m div 512 mod 32)" "k = int (m mod 512)"
  shows "gen_block pn (pn_a1 pn XOR i) (pn_c1 pn XOR j) k (hop_state pn m) = Some (hop_state pn (Suc m))"
proof -
  let ?f = "int (16 * m mod 79)" and ?u = "uint (pn_used_channels pn)"
  define St where "St t = map (hop_value pn) [0..<64 * m + 2 * t]" for t
  have "foldM (gen_pair pn (pn_a1 pn XOR i) (pn_c1 pn XOR j) (pn_d1 pn XOR k) ?f (?f mod ?u)) [0..0x1f] (St 0) =
      Some (St (0 + length [0..0x1f :: int] * 1))"
  proof (rule foldM_count)
    fix t assume "t < length [0..0x1f :: int]"
    then have t: "t < 32" "[0..0x1f :: int] ! t = int t" by (simp_all add: nth_upto del: upto_rec_numeral)
    have "64 * m + 2 * Suc t = Suc (Suc (64 * m + 2 * t))" by simp
    then have "[0..<64 * m + 2 * Suc t] = [0..<64 * m + 2 * t] @ [64 * m + 2 * t, 64 * m + Suc (2 * t)]"
      by (simp only: upt_Suc) simp
    then show "gen_pair pn (pn_a1 pn XOR i) (pn_c1 pn XOR j) (pn_d1 pn XOR k) ?f (?f mod ?u) ([0..0x1f] ! t)
        (St (0 + t * 1)) = Some (St (0 + Suc t * 1))"
      using gen_pair_value [OF assms(1) t(1) assms(3-5) refl, of "St t"] by (simp add: St_def t(2))
  qed
  then have hops: "foldM (gen_pair pn (pn_a1 pn XOR i) (pn_c1 pn XOR j) (pn_d1 pn XOR k) ?f (?f mod ?u)) [0..0x1f]
      (map (hop_value pn) [0..<64 * m]) = Some (map (hop_value pn) [0..<64 * Suc m])"
    by (simp add: St_def algebra_simps)
  have base: "(of_nat (16 * m) :: u32) + 16 = of_nat (16 * Suc m)" by simp
  have "uint (of_nat (16 * Suc m) :: u32) = int (16 * Suc m)"
    using assms(2) by (simp only: unsigned_of_nat take_bit_nat_eq_self) (simp add: take_bit_nat_eq_self)
  then have "uint (of_nat (16 * Suc m) :: u32) mod 79 = int (16 * Suc m mod 79)"
    by (simp only: zmod_int of_nat_numeral)
  moreover have "checked_mod f ?u = Some (f mod ?u)" for f
    using assms(1) by (auto simp: checked_mod_def hop_wf_def)
  ultimately show ?thesis
    unfolding gen_block_def hop_state_def prod.case Let_def base
    by (simp only: hops bind.bind_lunit BT_NUM_CHANNELS_def of_nat_numeral)
qed

lemma gen_hops_sequence:
  assumes "hop_wf pn"
  shows "gen_hops pn = Some (pn\<lparr>pn_sequence := Some (map (hop_value pn) [0..<SEQUENCE_LENGTH])\<rparr>)"
proof -
  let ?K = "\<lambda>i j k. gen_block pn (pn_a1 pn XOR i) (pn_c1 pn XOR j) k"
  have K: "foldM (?K i j) [0..0x1ff] (hop_state pn (512 * q)) = Some (hop_state pn (512 * q + 512))"
    if "q < 2 ^ 12" "i = int (q div 32 mod 32)" "j = int (q mod 32)" for q i j
  proof -
    have "foldM (?K i j) [0..0x1ff] (hop_state pn (512 * q)) =
        Some (hop_state pn (512 * q + length [0..0x1ff :: int] * 1))"
    proof (rule foldM_count)
      fix t assume "t < length [0..0x1ff :: int]"
      then have t: "t < 512" "[0..0x1ff :: int] ! t = int t" by (simp_all add: nth_upto del: upto_rec_numeral)
      have d: "(512 * q + t) div 512 = q" "(512 * q + t) mod 512 = t" using t(1) by simp_all
      have "(512 * q + t) div 2 ^ 14 = q div 32"
        using div_mult2_eq [of "512 * q + t" 512 32] d(1) by simp
      then show "?K i j ([0..0x1ff] ! t) (hop_state pn (512 * q + t * 1)) = Some (hop_state pn (512 * q + Suc t * 1))"
        using gen_block_state [OF assms, of "512 * q + t" i j "int t"] t that d by simp
    qed
    then show ?thesis by (simp del: upto_rec_numeral)
  qed
  have J: "foldM (\<lambda>j. foldM (?K i j) [0..0x1ff]) [0..0x1f] (hop_state pn (16384 * r)) = Some (hop_state pn (16384 * r + 16384))"
    if "r < 128" "i = int (r mod 32)" for r i
  proof -
    have "foldM (\<lambda>j. foldM (?K i j) [0..0x1ff]) [0..0x1f] (hop_state pn (16384 * r)) =
        Some (hop_state pn (16384 * r + length [0..0x1f :: int] * 512))"
    proof (rule foldM_count)
      fix t assume "t < length [0..0x1f :: int]"
      then have t: "t < 32" "[0..0x1f :: int] ! t = int t" by (simp_all add: nth_upto del: upto_rec_numeral)
      have d: "(32 * r + t) div 32 = r" "(32 * r + t) mod 32 = t" using t(1) by simp_all
      have m: "16384 * r + t * 512 = 512 * (32 * r + t)" "16384 * r + Suc t * 512 = 512 * (32 * r + t) + 512"
        by (simp_all add: algebra_simps)
      show "foldM (?K i ([0..0x1f] ! t)) [0..0x1ff] (hop_state pn (16384 * r + t * 512)) =
          Some (hop_state pn (16384 * r + Suc t * 512))"
        unfolding m t(2) by (rule K) (use t(1) that d in simp_all)
    qed
    then show ?thesis by (simp del: upto_rec_numeral)
  qed
  have I: "foldM (\<lambda>i. foldM (\<lambda>j. foldM (?K i j) [0..0x1ff]) [0..0x1f]) [0..0x1f] (hop_state pn (524288 * h)) =
      Some (hop_state pn (524288 * h + 524288))" if "h < 4" for h
  proof -
    have "foldM (\<lambda>i. foldM (\<lambda>j. foldM (?K i j) [0..0x1ff]) [0..0x1f]) [0..0x1f] (hop_state pn (524288 * h)) =
        Some (hop_state pn (524288 * h + length [0..0x1f :: int] * 16384))"
    proof (rule foldM_count)
      fix t assume "t < length [0..0x1f :: int]"
      then have t: "t < 32" "[0..0x1f :: int] ! t = int t" by (simp_all add: nth_upto del: upto_rec_numeral)
      have m: "524288 * h + t * 16384 = 16384 * (32 * h + t)" "524288 * h + Suc t * 16384 = 16384 * (32 * h + t) + 16384"
        by (simp_all add: algebra_simps)
      show "foldM (\<lambda>j. foldM (?K ([0..0x1f] ! t) j) [0..0x1ff]) [0..0x1f] (hop_state pn (524288 * h + t * 16384)) =
          Some (hop_state pn (524288 * h + Suc t * 16384))"
        unfolding m t(2) by (rule J) (use t(1) that in simp_all)
    qed
    then show ?thesis by (simp del: upto_rec_numeral)
  qed
  have "foldM (\<lambda>h. foldM (\<lambda>i. foldM (\<lambda>j. foldM (?K i j) [0..0x1ff]) [0..0x1f]) [0..0x1f]) [0..(3 :: int)] (hop_state pn 0) =
      Some (hop_state pn (0 + length [0..(3 :: int)] * 524288))"
  proof (rule foldM_count)
    fix t assume "t < length [0..(3 :: int)]"
    then show "foldM (\<lambda>i. foldM (\<lambda>j. foldM (?K i j) [0..0x1ff]) [0..0x1f]) [0..0x1f] (hop_state pn (0 + t * 524288)) =
        Some (hop_state pn (0 + Suc t * 524288))"
      using I [of t] by (simp add: algebra_simps)
  qed
  moreover have "hop_state pn 0 = (0, 0, 0, [])" by (simp add: hop_state_def)
  moreover have "snd (snd (snd (hop_state pn (length [0..(3 :: int)] * 524288)))) = map (hop_value pn) [0..<SEQUENCE_LENGTH]"
    by (simp add: hop_state_def SEQUENCE_LENGTH_def)
  ultimately show ?thesis
    unfolding gen_hops_def by (simp add: case_prod_beta)
qed

section \<open>Precalculation\<close>

text \<open>The register bank: the even channels, then the odd ones.\<close>

definition register_order :: "nat list" where
  "register_order = map (\<lambda>i. i * 2 mod BT_NUM_CHANNELS) [0..<BT_NUM_CHANNELS]"

lemma register_order_channels: "distinct register_order" "set register_order = {..<79}"
proof -
  have d: "i * 2 mod 79 = j * 2 mod 79 \<Longrightarrow> i < 79 \<Longrightarrow> j < 79 \<Longrightarrow> i = j" for i j :: nat
  proof -
    assume ij: "i * 2 mod 79 = j * 2 mod 79" "i < 79" "j < 79"
    have "i * 2 mod 79 * 40 mod 79 = j * 2 mod 79 * 40 mod 79" using ij(1) by simp
    then have "(i * 80) mod 79 = (j * 80) mod 79" by (simp only: mod_mult_left_eq) (simp add: mult.commute)
    moreover have "k * 80 mod 79 = k" if "k < 79" for k :: nat
      using that mod_mult_self1 [of k k 79] by (simp add: mult.commute)
    ultimately show "i = j" using ij(2,3) by metis
  qed
  then show "distinct register_order"
    unfolding register_order_def distinct_map BT_NUM_CHANNELS_def set_upt
    by (intro conjI distinct_upt inj_onI) (rule d, (simp only: atLeastLessThan_iff)+)
  then have "card (set register_order) = length register_order" by (rule distinct_card)
  also have "\<dots> = 79" by (simp only: register_order_def length_map length_upt BT_NUM_CHANNELS_def diff_zero)
  finally have "card (set register_order) = 79" .
  moreover have "set register_order \<subseteq> {..<79}"
    by (auto simp: register_order_def simp del: upt_rec_numeral)
  ultimately show "set register_order = {..<79}"
    by (intro card_subset_eq) simp_all
qed

text \<open>A loop that rewrites one cell after the other.\<close>

lemma fold_bank:
  assumes "n \<le> length bank"
  shows "foldM (\<lambda>i bank. wr bank (int i) [g i]) [0..<n] bank = Some (map g [0..<n] @ drop n bank)"
  using assms
proof (induction n)
  case (Suc n)
  have "(map g [0..<n] @ drop n bank)[n := g n] = map g [0..<n] @ g n # drop (Suc n) bank"
    using Suc.prems by (simp add: list_update_append Cons_nth_drop_Suc [symmetric])
  then show ?case
    using Suc by (simp add: foldM_append wr_one)
qed simp

lemma precalc_no_afh:
  assumes "length (pn_bank pn) = 79" "\<not> btbb_piconet_get_flag pn BTBB_IS_AFH"
  shows "precalc pn = Some (pn\<lparr>pn_bank := map int register_order\<rparr>)"
proof -
  let ?f = "\<lambda>i (j, p). if btbb_piconet_get_flag p BTBB_IS_AFH then do {
           let chan = (i * 2) mod BT_NUM_CHANNELS;
           seen \<leftarrow> btbb_piconet_get_channel_seen p (of_nat chan);
           if seen then do {
             bank \<leftarrow> wr (pn_bank p) (int j) [int chan];
             Some (j + 1, p\<lparr>pn_bank := bank\<rparr>)
           }
           else Some (j, p)
         }
         else do {
           bank \<leftarrow> wr (pn_bank p) (int i) [int ((i * 2) mod BT_NUM_CHANNELS)];
           Some (j, p\<lparr>pn_bank := bank\<rparr>)
         }"
  have run: "foldM ?f is (0 :: nat, pn\<lparr>pn_bank := b\<rparr>) =
      map_option (\<lambda>b. (0, pn\<lparr>pn_bank := b\<rparr>)) (foldM (\<lambda>i bank. wr bank (int i) [int ((i * 2) mod BT_NUM_CHANNELS)]) is b)"
    for "is" b
    using assms(2)
    by (induction "is" arbitrary: b)
       (auto simp: btbb_piconet_get_flag_def split: bind_split)
  have "foldM (\<lambda>i bank. wr bank (int i) [int ((i * 2) mod BT_NUM_CHANNELS)]) [0..<BT_NUM_CHANNELS] (pn_bank pn) =
      Some (map int register_order)"
    by (subst fold_bank) (simp_all add: assms(1) register_order_def comp_def del: upt_rec_numeral)
  with run [of "[0..<BT_NUM_CHANNELS]" "pn_bank pn"] show ?thesis
    unfolding precalc_def by (simp del: upt_rec_numeral)
qed

lemma and_bounds: "0 \<le> (a AND numeral m) \<and> (a AND numeral m) \<le> (numeral m :: int)"
    "0 \<le> (a AND 1) \<and> (a AND 1) \<le> (1 :: int)"
  by (simp_all add: AND_upper2)

lemma address_precalc_wf:
  assumes "length (pn_bank pn) = 79" "1 \<le> uint (pn_used_channels pn)" "uint (pn_used_channels pn) \<le> 79"
  shows "hop_wf (address_precalc address pn)"
proof -
  let ?p = "address_precalc address pn"
  have "0 \<le> pn_a1 ?p \<and> pn_a1 ?p < 32" "0 \<le> pn_b ?p \<and> pn_b ?p < 16" "0 \<le> pn_d1 ?p \<and> pn_d1 ?p < 512"
    using and_bounds(1) [where a = "drop_bit _ address"]
    by (simp_all add: address_precalc_def order.strict_trans1 [OF AND_upper2])
  moreover have c1: "pn_c1 ?p = (drop_bit 4 address AND 16) + (drop_bit 3 address AND 8) +
      (drop_bit 2 address AND 4) + (drop_bit 1 address AND 2) + (address AND 1)"
    by (simp add: address_precalc_def)
  have "0 \<le> pn_c1 ?p \<and> pn_c1 ?p < 32"
    using and_bounds(1) [of "drop_bit 4 address" "num.Bit0 (num.Bit0 (num.Bit0 (num.Bit0 num.One)))"]
      and_bounds(1) [of "drop_bit 3 address" "num.Bit0 (num.Bit0 (num.Bit0 num.One))"]
      and_bounds(1) [of "drop_bit 2 address" "num.Bit0 (num.Bit0 num.One)"]
      and_bounds(1) [of "drop_bit 1 address" "num.Bit0 num.One"] and_bounds(2) [of address]
    unfolding c1 by linarith
  moreover have "0 \<le> pn_e ?p"
    by (simp add: address_precalc_def)
  ultimately show ?thesis
    using assms by (simp add: hop_wf_def address_precalc_def)
qed

lemma address_precalc_keeps [simp]:
  "pn_flags (address_precalc address pn) = pn_flags pn"
  "pn_bank (address_precalc address pn) = pn_bank pn"
  "pn_used_channels (address_precalc address pn) = pn_used_channels pn"
  by (simp_all add: address_precalc_def)

section \<open>One hop and the sequence\<close>

text \<open>The fields of a clock value: \<open>clock\<close> is \<open>2 * n\<close> or \<open>2 * n + 1\<close> for entry \<open>n\<close> of the sequence.\<close>

lemma clock_fields:
  assumes "clock = 2 * int n + b" "b \<in> {0, 1}" "n < SEQUENCE_LENGTH"
  shows "drop_bit 1 clock = int n"
    "drop_bit 3 clock AND 0x1fffff0 = int (16 * (n div 64))"
proof -
  have d1: "clock div 2 = int n" using assms(1,2) by auto
  then show "drop_bit 1 clock = int n" by (simp add: drop_bit_eq_div)
  have "drop_bit 3 clock AND 0x1fffff0 = push_bit 4 (take_bit 21 (drop_bit 4 (drop_bit 3 clock)))"
  proof -
    have "(0x1fffff0 :: int) = push_bit 4 (mask 21)" by (simp add: push_bit_eq_mult mask_eq_exp_minus_1)
    moreover have "drop_bit 3 clock AND push_bit 4 (mask 21) = push_bit 4 (take_bit 21 (drop_bit 4 (drop_bit 3 clock)))"
      by (rule bit_eqI) (auto simp: bit_simps)
    ultimately show ?thesis by simp
  qed
  also have "drop_bit 4 (drop_bit 3 clock) = int (n div 64)"
  proof -
    have "drop_bit 4 (drop_bit 3 clock) = drop_bit 6 (drop_bit 1 clock)" by (simp add: drop_bit_drop_bit)
    then show ?thesis
      by (simp add: d1 drop_bit_eq_div zdiv_int)
  qed
  also have "take_bit 21 (int (n div 64)) = int (n div 64)"
    using assms(3) by (simp add: take_bit_int_eq_self SEQUENCE_LENGTH_def)
  finally show "drop_bit 3 clock AND 0x1fffff0 = int (16 * (n div 64))"
    by (simp add: push_bit_eq_mult)
qed

lemma xor_take_bit: "0 \<le> a \<Longrightarrow> a < 2 ^ m \<Longrightarrow> take_bit m (a XOR b) = a XOR take_bit m (b :: int)"
  by (simp add: take_bit_xor take_bit_int_eq_self)

lemma single_hop_value:
  assumes "hop_wf pn" "\<not> btbb_piconet_get_flag pn BTBB_IS_AFH"
    and "clock = 2 * int n + b" "b \<in> {0, 1}" "n < SEQUENCE_LENGTH"
  shows "single_hop clock pn = Some (hop_value pn n)"
proof -
  note n = clock_fields [OF assms(3-5)]
  have shift: "drop_bit (Suc m) clock = int (n div 2 ^ m)" for m
  proof -
    have "drop_bit (Suc m) clock = drop_bit m (drop_bit 1 clock)" by (simp add: drop_bit_drop_bit)
    then show ?thesis unfolding n(1) by (simp add: drop_bit_eq_div zdiv_int)
  qed
  have mask: "z AND 0x1f = take_bit 5 z" "z AND 0x1ff = take_bit 9 z" "z AND 0x01 = take_bit 1 z" for z :: int
    by (simp_all add: take_bit_eq_mask mask_eq_exp_minus_1)
  have x: "drop_bit 2 clock AND 0x1f = int (n div 2 mod 32)"
    using shift [of 1] unfolding mask by (simp add: numeral_2_eq_2 take_bit_eq_mod zmod_int)
  have y: "drop_bit 1 clock AND 0x01 = int (n mod 2)"
    unfolding n(1) mask by (simp add: take_bit_eq_mod zmod_int)
  have a: "(pn_a1 pn XOR drop_bit 21 clock) AND 0x1f = pn_a1 pn XOR int (n div 2 ^ 20 mod 32)"
    using shift [of 20] xor_take_bit [of "pn_a1 pn" 5] assms(1)
    unfolding mask by (simp add: hop_wf_def take_bit_eq_mod zmod_int)
  have c: "(pn_c1 pn XOR drop_bit 16 clock) AND 0x1f = pn_c1 pn XOR int (n div 2 ^ 15 mod 32)"
    using shift [of 15] xor_take_bit [of "pn_c1 pn" 5] assms(1)
    unfolding mask by (simp add: hop_wf_def take_bit_eq_mod zmod_int)
  have d: "(pn_d1 pn XOR drop_bit 7 clock) AND 0x1ff = pn_d1 pn XOR int (n div 64 mod 512)"
    using shift [of 6] xor_take_bit [of "pn_d1 pn" 9] assms(1)
    unfolding mask by (simp add: hop_wf_def take_bit_eq_mod zmod_int)
  let ?c = "pn_c1 pn XOR int (n div 2 ^ 15 mod 32)"
  have flip: "(int (n mod 2) * 0x1f) XOR ?c = (if n mod 2 = 1 then ?c XOR 0x1f else ?c)"
    by (simp add: xor.commute mod2_eq_if)
  have bounds: "n div 2 ^ 20 mod 32 < 32" "n div 2 ^ 15 mod 32 < 32" "n div 64 mod 512 < 512" by simp_all
  have perm: "fast_perm (((int (n div 2 mod 32) + (pn_a1 pn XOR int (n div 2 ^ 20 mod 32))) mod 32) XOR pn_b pn)
      ((int (n mod 2) * 0x1f) XOR ?c) (pn_d1 pn XOR int (n div 64 mod 512)) = Some (hop_perm pn n)"
    unfolding flip hop_perm_def Let_def
    using perm_arguments [OF assms(1), of "0 :: int" "int (n div 2 ^ 15 mod 32)" "int (n div 64 mod 512)"]
    by (intro fast_perm_perm5) (simp_all split: if_split)
  have f: "int (16 * (n div 64)) mod int BT_NUM_CHANNELS = int (16 * (n div 64) mod 79)"
    by (simp add: zmod_int)
  have "select_channel pn (hop_perm pn n) (int (16 * (n div 64) mod 79)) f' (32 * int (n mod 2)) =
      Some (hop_value pn n)" if "0 \<le> f'" for f'
  proof -
    have "select_channel pn (hop_perm pn n) (int (16 * (n div 64) mod 79)) f' (32 * int (n mod 2)) =
        select_channel pn (hop_perm pn n) (int (16 * (n div 64) mod 79))
          (int (16 * (n div 64) mod 79) mod uint (pn_used_channels pn)) (32 * int (n mod 2))"
      using assms(2) by (simp add: select_channel_def)
    also have "\<dots> = Some (hop_value pn n)"
      unfolding hop_value_def Let_def
      using perm5_range assms(1)
      by (intro select_channel_total) (auto simp: hop_perm_def Let_def hop_wf_def intro: pos_mod_sign)
    finally show ?thesis .
  qed
  then show ?thesis
    unfolding single_hop_def Let_def x y a c d n(2) f perm bind.bind_lunit
    using assms(2) by (simp add: push_bit_eq_mult mult.commute)
qed

lemma used_channels_keep [simp]:
  "pn_used_channels (pn\<lparr>pn_bank := b\<rparr>) = pn_used_channels pn" by simp

lemma gen_hop_pattern_sequence:
  assumes "length (pn_bank pn) = 79" "1 \<le> uint (pn_used_channels pn)" "uint (pn_used_channels pn) \<le> 79"
    and "\<not> btbb_piconet_get_flag pn BTBB_IS_AFH"
  obtains q where "hop_wf q" "\<not> btbb_piconet_get_flag q BTBB_IS_AFH" "pn_bank q = map int register_order"
    "gen_hop_pattern pn = Some (q\<lparr>pn_sequence := Some (map (hop_value q) [0..<SEQUENCE_LENGTH])\<rparr>)"
proof
  let ?a = "uint ((push_bit 24 (ucast (pn_UAP pn)) OR pn_LAP pn) AND 0xfffffff)"
  let ?q = "address_precalc ?a (pn\<lparr>pn_bank := map int register_order\<rparr>)"
  have "length register_order = 79"
    by (simp only: register_order_def length_map length_upt BT_NUM_CHANNELS_def diff_zero)
  then show wf: "hop_wf ?q"
    using assms by (intro address_precalc_wf) simp_all
  show "\<not> btbb_piconet_get_flag ?q BTBB_IS_AFH"
    using assms(4) by (simp add: btbb_piconet_get_flag_def)
  show "pn_bank ?q = map int register_order" by simp
  show "gen_hop_pattern pn = Some (?q\<lparr>pn_sequence := Some (map (hop_value ?q) [0..<SEQUENCE_LENGTH])\<rparr>)"
    using gen_hops_sequence [OF wf]
    unfolding gen_hop_pattern_def precalc_no_afh [OF assms(1,4)] Let_def by simp
qed

lemma sequence_irrelevant [simp]:
  "hop_wf (pn\<lparr>pn_sequence := s\<rparr>) = hop_wf pn"
  "btbb_piconet_get_flag (pn\<lparr>pn_sequence := s\<rparr>) f = btbb_piconet_get_flag pn f"
  "hop_value (pn\<lparr>pn_sequence := s\<rparr>) n = hop_value pn n"
  by (simp_all add: hop_wf_def btbb_piconet_get_flag_def hop_value_def hop_perm_def select_channel_def Let_def)

lemma hop_value_channel:
  assumes "hop_wf pn" "\<not> btbb_piconet_get_flag pn BTBB_IS_AFH" "pn_bank pn = map int register_order"
  shows "hop_value pn n \<in> {0..<79}"
proof -
  let ?i = "(hop_perm pn n + pn_e pn + int (16 * (n div 64) mod 79) + 32 * int (n mod 2)) mod 79"
  have i: "0 \<le> ?i" "?i < 79" by simp_all
  moreover have "length register_order = 79"
    by (simp only: register_order_def length_map length_upt BT_NUM_CHANNELS_def diff_zero)
  moreover from this i have "register_order ! nat ?i \<in> {..<79}"
    unfolding register_order_channels(2) [symmetric] by (intro nth_mem) (simp add: nat_less_iff)
  ultimately show ?thesis
    using assms(2) by (simp add: hop_value_def Let_def select_channel_def rd_def assms(3) nat_less_iff)
qed

text \<open>
  C14. Without AFH the complete sequence and the computation of a single hop agree:
  for both clock values of an even and odd pair, \<open>single_hop\<close> is entry \<open>clock / 2\<close> of the sequence that
  \<open>gen_hop_pattern\<close> computes, and it is one of the 79 channels.
\<close>

theorem hop_sequence_is_single_hop:
  assumes "length (pn_bank pn) = 79" "1 \<le> uint (pn_used_channels pn)" "uint (pn_used_channels pn) \<le> 79"
    and "\<not> btbb_piconet_get_flag pn BTBB_IS_AFH" "n < SEQUENCE_LENGTH" "b \<in> {0, 1}"
  shows "\<exists>pn' channel. gen_hop_pattern pn = Some pn' \<and> hop (int n) pn' = Some channel \<and>
    single_hop (2 * int n + b) pn' = Some channel \<and> 0 \<le> channel \<and> channel < 79"
proof -
  obtain q where q: "hop_wf q" "\<not> btbb_piconet_get_flag q BTBB_IS_AFH" "pn_bank q = map int register_order"
    "gen_hop_pattern pn = Some (q\<lparr>pn_sequence := Some (map (hop_value q) [0..<SEQUENCE_LENGTH])\<rparr>)"
    using gen_hop_pattern_sequence [OF assms(1-4)] by blast
  let ?q = "q\<lparr>pn_sequence := Some (map (hop_value q) [0..<SEQUENCE_LENGTH])\<rparr>"
  have "single_hop (2 * int n + b) ?q = Some (hop_value q n)"
    using single_hop_value [of ?q "2 * int n + b" n b] q(1,2) assms(5,6) by simp
  moreover have "hop (int n) ?q = Some (hop_value q n)"
    using assms(5) by (simp add: hop_def rd_def)
  ultimately show ?thesis
    using q(4) hop_value_channel [OF q(1-3), of n] by auto
qed

lemma hop_sequence_is_single_hop_witness:
  "\<exists>pn' channel. gen_hop_pattern (btbb_piconet_new\<lparr>pn_used_channels := 79, pn_LAP := 0x9e8b33\<rparr>) = Some pn' \<and>
    hop (int 1234567) pn' = Some channel \<and> single_hop (2 * int 1234567 + 1) pn' = Some channel \<and>
    0 \<le> channel \<and> channel < 79"
  by (rule hop_sequence_is_single_hop)
     (simp_all add: btbb_piconet_new_def btbb_piconet_get_flag_def SEQUENCE_LENGTH_def)

lemma foldM_fails: "(\<And>x s. f x s = None) \<Longrightarrow> xs \<noteq> [] \<Longrightarrow> foldM f xs s = None"
  by (cases xs) auto




lemma nth_register_order: "i < 79 \<Longrightarrow> register_order ! i = i * 2 mod 79"
  unfolding register_order_def BT_NUM_CHANNELS_def by (subst nth_map) (simp_all del: upt_rec_numeral)

lemma perm5_0: "perm5 0 p_high p_low = 0"
proof -
  have "swap i j (replicate 5 False) = replicate 5 False" if "i < 5" "j < 5" for i j
    using that by (intro nth_equalityI) (auto simp: nth_swap)
  then have keep: "set is \<subseteq> {..<14} \<Longrightarrow> butterflies p is (replicate 5 False) = replicate 5 False" for p "is"
    using index_bounds by (induction "is") (auto simp: butterflies_def)
  moreover have "bits5 0 = replicate 5 False" by (rule nth_equalityI) (auto simp: bits5_def)
  ultimately show ?thesis
    unfolding perm5_butterflies by (subst \<open>bits5 0 = _\<close>, subst keep) (auto simp: value5_def eval_nat_numeral)
qed

definition afh_example :: btbb_piconet where
  "afh_example = btbb_piconet_set_flag
     (btbb_piconet_new\<lparr>pn_used_channels := 20, pn_bank := map int register_order\<rparr>) BTBB_IS_AFH 1"

text \<open>
  C17. Under AFH the two routines disagree: \<open>gen_hops\<close> reduces the frequency counter
  modulo 79 before it reduces it modulo the used channels, \<open>single_hop\<close> does not. With 20 used channels
  they differ at clock 640.
\<close>

theorem afh_sequence_disagrees:
  "\<exists>pn'. gen_hops afh_example = Some pn' \<and> hop 320 pn' = Some 2 \<and> single_hop 640 pn' = Some 0"
proof -
  have len: "length register_order = 79"
    by (simp only: register_order_def length_map length_upt BT_NUM_CHANNELS_def diff_zero)
  have fields: "pn_a1 afh_example = 0" "pn_b afh_example = 0" "pn_c1 afh_example = 0" "pn_d1 afh_example = 0"
    "pn_e afh_example = 0" "pn_bank afh_example = map int register_order" "pn_used_channels afh_example = 20"
    "btbb_piconet_get_flag afh_example BTBB_IS_AFH"
    by (simp_all add: afh_example_def btbb_piconet_set_flag_def btbb_piconet_get_flag_def btbb_piconet_new_def Let_def)
  then have wf: "hop_wf afh_example" by (simp add: hop_wf_def len)
  have sel: "select_channel afh_example 0 f 1 0 = Some 2" "select_channel afh_example 0 f 0 0 = Some 0" for f
    using fields by (simp_all add: select_channel_def checked_mod_def rd_def len nth_register_order)
  have "hop_value afh_example 320 = 2"
    using sel(1) by (simp add: hop_value_def hop_perm_def Let_def fields perm5_0)
  then have "hop 320 (afh_example\<lparr>pn_sequence := Some (map (hop_value afh_example) [0..<SEQUENCE_LENGTH])\<rparr>) = Some 2"
    by (simp add: hop_def rd_def SEQUENCE_LENGTH_def del: upt_rec_numeral)
  moreover have "single_hop 640 (afh_example\<lparr>pn_sequence := s\<rparr>) = Some 0" for s
    using sel(2) [of 1] by (simp add: single_hop_def fields [simplified] fast_perm_perm5 perm5_0 checked_mod_def Let_def
      select_channel_def rd_def len nth_register_order)
  ultimately show ?thesis
    using gen_hops_sequence [OF wf] by blast
qed


end
