(* ===== verification/Clock.thy ===== *)
theory Clock
  imports Hop "HOL-Library.Signed_Division"
begin

text \<open>
  Clock acquisition and the packet entry point of \<open>lib/src/bluetooth_piconet.c\<close>: the candidates for
  CLK1-27 (\<open>init_candidates\<close>, \<open>channel_winnow\<close>, \<open>btbb_winnow\<close>), the candidates for the UAP and CLK1-6
  (\<open>btbb_uap_from_header\<close>), \<open>try_hop\<close>, the survey and \<open>btbb_process_packet\<close>.

  Three things of the C code are outside the language and are arguments here: \<open>malloc\<close>, the contents
  of a fresh block of candidates; \<open>stray\<close>, what the two reads at index -1 of \<open>btbb_winnow\<close> give; and
  the state that the file keeps in static variables, a record. \<open>None\<close> is an access outside an array, a
  use of a null or freed pointer, or a division by zero.
\<close>

section \<open>Candidates for CLK1-27\<close>

text \<open>The observable channel (26-50) of a channel, for receivers that alias.\<close>

definition aliased_channel :: "int \<Rightarrow> int" where
  "aliased_channel channel = ((channel + 24) smod int ALIASED_CHANNELS) + 26"

definition observable_channel :: "btbb_piconet \<Rightarrow> int \<Rightarrow> int" where
  "observable_channel pn channel = (if pn_aliased pn then aliased_channel channel else channel)"

text \<open>The values of the counter of the loop in \<open>init_candidates\<close>.\<close>

function candidate_clocks :: "int \<Rightarrow> int list" where
  "candidate_clocks i = (if i < int SEQUENCE_LENGTH then i # candidate_clocks (i + 0x40) else [])"
  by pat_completeness auto
termination by (relation "measure (\<lambda>i. nat (int SEQUENCE_LENGTH - i))") auto

declare candidate_clocks.simps [simp del]

definition init_candidates :: "int \<Rightarrow> int \<Rightarrow> btbb_piconet \<Rightarrow> (int \<times> btbb_piconet) option" where
  "init_candidates channel known_clock_bits pn =
     foldM (\<lambda>i (count, pn). do {
         hops \<leftarrow> pn_sequence pn;
         ch \<leftarrow> rd hops i;
         if observable_channel pn ch = channel then do {
           cands \<leftarrow> pn_clock_candidates pn;
           cands \<leftarrow> wr cands count [word_of_int i];
           Some (count + 1, pn\<lparr>pn_clock_candidates := Some cands\<rparr>)
         }
         else Some (count, pn)
       }) (candidate_clocks known_clock_bits) (0, pn)"

text \<open>A channel is a \<open>uint8_t\<close> in the packet and a \<open>char\<close> where it is compared with the sequence.\<close>

definition btbb_init_hop_reversal ::
    "(nat \<Rightarrow> u32 list) \<Rightarrow> hopping_map \<Rightarrow> int \<Rightarrow> btbb_piconet \<Rightarrow> (int \<times> hopping_map \<times> btbb_piconet) option" where
  "btbb_init_hop_reversal malloc hopping_map aliased pn = do {
     (hopping_map, pn) \<leftarrow> get_hop_pattern hopping_map pn;
     let max_candidates = (if aliased \<noteq> 0 then (SEQUENCE_LENGTH div ALIASED_CHANNELS) div 32
                           else (SEQUENCE_LENGTH div BT_NUM_CHANNELS) div 32);
     let pn = pn\<lparr>pn_clock_candidates := Some (malloc max_candidates)\<rparr>;
     let clock = (word_of_int (pn_clk_offset pn) + pn_first_pkt_time pn) AND 0x3f;
     channel \<leftarrow> rd (pn_pattern_channels pn) 0;
     (num, pn) \<leftarrow> init_candidates (sint channel) (uint clock) pn;
     let pn = pn\<lparr>pn_num_candidates := num, pn_winnowed := 0\<rparr>;
     let pn = btbb_piconet_set_flag pn BTBB_HOP_REVERSAL_INIT 1;
     let pn = btbb_piconet_set_flag pn BTBB_CLK27_VALID 0;
     let pn = btbb_piconet_set_flag pn BTBB_IS_ALIASED aliased;
     Some (pn_num_candidates pn, hopping_map, pn)
   }"

text \<open>Reset UAP/clock discovery. The freed candidates are \<open>None\<close>.\<close>

definition reset :: "btbb_piconet \<Rightarrow> btbb_piconet" where
  "reset pn =
     (let pn = (if btbb_piconet_get_flag pn BTBB_HOP_REVERSAL_INIT
                then pn\<lparr>pn_clock_candidates := None, pn_sequence := None\<rparr> else pn);
          pn = btbb_piconet_set_flag pn BTBB_GOT_FIRST_PACKET 0;
          pn = btbb_piconet_set_flag pn BTBB_HOP_REVERSAL_INIT 0;
          pn = btbb_piconet_set_flag pn BTBB_UAP_VALID 0;
          pn = btbb_piconet_set_flag pn BTBB_CLK6_VALID 0;
          pn = btbb_piconet_set_flag pn BTBB_CLK27_VALID 0;
          pn = pn\<lparr>pn_packets_observed := 0\<rparr>
      in btbb_piconet_set_flag pn BTBB_IS_AFH (of_bool (btbb_piconet_get_flag pn BTBB_LOOKS_LIKE_AFH)))"

text \<open>Narrow the candidates by one observed hop, in place.\<close>

definition winnow_one :: "int \<Rightarrow> int \<Rightarrow> int \<Rightarrow> int \<times> btbb_piconet \<Rightarrow> (int \<times> btbb_piconet) option" where
  "winnow_one offset channel i = (\<lambda>(new_count, pn). do {
     cands \<leftarrow> pn_clock_candidates pn;
     cand \<leftarrow> rd cands i;
     hops \<leftarrow> pn_sequence pn;
     ch \<leftarrow> rd hops (uint (cand + word_of_int offset) mod int SEQUENCE_LENGTH);
     if observable_channel pn ch = channel then do {
       cands \<leftarrow> wr cands new_count [cand];
       Some (new_count + 1, pn\<lparr>pn_clock_candidates := Some cands\<rparr>)
     }
     else Some (new_count, pn)
   })"

definition channel_winnow :: "int \<Rightarrow> int \<Rightarrow> btbb_piconet \<Rightarrow> (int \<times> btbb_piconet) option" where
  "channel_winnow offset channel pn = do {
     (new_count, pn) \<leftarrow> foldM (winnow_one offset channel) [0..pn_num_candidates pn - 1] (0, pn);
     let pn = pn\<lparr>pn_num_candidates := new_count\<rparr>;
     if new_count = 1 then do {
       cands \<leftarrow> pn_clock_candidates pn;
       cand \<leftarrow> rd cands 0;
       let pn = pn\<lparr>pn_clk_offset := sint (push_bit 1 cand - push_bit 1 (pn_first_pkt_time pn))\<rparr>;
       Some (new_count, btbb_piconet_set_flag pn BTBB_CLK27_VALID 1)
     }
     else if new_count = 0 then Some (new_count, reset pn)
     else Some (new_count, pn)
   }"

text \<open>The loop of \<open>channel_winnow\<close> changes the candidates only.\<close>

lemma winnow_one_frame:
  "winnow_one offset channel i (n, pn) = Some (n', pn') \<Longrightarrow> \<exists>c. pn' = pn\<lparr>pn_clock_candidates := c\<rparr>"
  by (auto simp: winnow_one_def split: bind_splits if_splits) (metis btbb_piconet.surjective btbb_piconet.update_convs(9))+

lemma winnow_loop_frame:
  "foldM (winnow_one offset channel) is (n, pn) = Some (n', pn') \<Longrightarrow> \<exists>c. pn' = pn\<lparr>pn_clock_candidates := c\<rparr>"
proof (induction "is" arbitrary: n pn)
  case Nil
  then have "pn' = pn\<lparr>pn_clock_candidates := pn_clock_candidates pn\<rparr>" by simp
  then show ?case ..
next
  case (Cons i "is")
  from Cons.prems obtain m q where "winnow_one offset channel i (n, pn) = Some (m, q)"
      "foldM (winnow_one offset channel) is (m, q) = Some (n', pn')"
    by (auto split: bind_splits)
  with winnow_one_frame [OF this(1)] Cons.IH [OF this(2)] show ?case by auto
qed

lemma channel_winnow_frame:
  assumes "channel_winnow offset channel pn = Some (n, pn')" "n \<noteq> 0"
  shows "pn_packets_observed pn' = pn_packets_observed pn \<and> pn_winnowed pn' = pn_winnowed pn"
proof -
  from assms(1) obtain q where
    q: "foldM (winnow_one offset channel) [0..pn_num_candidates pn - 1] (0, pn) = Some (n, q)"
    by (auto simp: channel_winnow_def Let_def split: bind_splits if_splits)
  obtain c where "q = pn\<lparr>pn_clock_candidates := c\<rparr>" using winnow_loop_frame [OF q] ..
  with assms q show ?thesis
    by (auto simp: channel_winnow_def Let_def btbb_piconet_set_flag_def split: bind_splits if_splits)
qed

text \<open>
  Narrow the candidates by all observed hops. The body runs while \<open>winnowed\<close> is below
  \<open>packets_observed\<close>; \<open>new_count\<close> is the variable of the code.
\<close>

definition winnow_afh :: "int \<times> u8 \<Rightarrow> int \<Rightarrow> u8 \<Rightarrow> btbb_piconet \<Rightarrow> btbb_piconet option" where
  "winnow_afh stray index channel pn =
     (if pn_packets_observed pn > 0 then do {
        (last_index, last_channel) \<leftarrow>
          (if pn_winnowed pn = 0 then Some stray
           else do {
             i \<leftarrow> rd (pn_pattern_indices pn) (pn_winnowed pn - 1);
             c \<leftarrow> rd (pn_pattern_channels pn) (pn_winnowed pn - 1);
             Some (i, c)
           });
        if \<not> btbb_piconet_get_flag pn BTBB_LOOKS_LIKE_AFH \<and> index = last_index + 1 \<and> channel = last_channel
        then Some (btbb_piconet_set_flag pn BTBB_LOOKS_LIKE_AFH 1)
        else Some pn
      }
      else Some pn)"

lemma winnow_afh_frame:
  "winnow_afh stray index channel pn = Some pn' \<Longrightarrow> \<exists>f. pn' = pn\<lparr>pn_flags := f\<rparr>"
proof -
  have "\<exists>f. pn = pn\<lparr>pn_flags := f\<rparr>" by (rule exI [of _ "pn_flags pn"]) simp
  then show "winnow_afh stray index channel pn = Some pn' \<Longrightarrow> \<exists>f. pn' = pn\<lparr>pn_flags := f\<rparr>"
    by (auto simp: winnow_afh_def btbb_piconet_set_flag_def Let_def split: bind_splits if_splits)
qed

function winnow_loop :: "int \<times> u8 \<Rightarrow> int \<Rightarrow> btbb_piconet \<Rightarrow> (int \<times> btbb_piconet) option" where
  "winnow_loop stray new_count pn =
     (if pn_winnowed pn < pn_packets_observed pn then do {
        index \<leftarrow> rd (pn_pattern_indices pn) (pn_winnowed pn);
        channel \<leftarrow> rd (pn_pattern_channels pn) (pn_winnowed pn);
        (new_count, pn) \<leftarrow> channel_winnow index (sint channel) pn;
        if new_count \<le> 1 then Some (new_count, pn)
        else do {
          pn \<leftarrow> winnow_afh stray index channel pn;
          winnow_loop stray new_count (pn\<lparr>pn_winnowed := pn_winnowed pn + 1\<rparr>)
        }
      }
      else Some (new_count, pn))"
  by pat_completeness auto
termination
proof (relation "measure (\<lambda>(stray, n, pn). nat (pn_packets_observed pn - pn_winnowed pn))", goal_cases)
  case 2
  then show ?case
    by (clarsimp dest!: winnow_afh_frame) (auto dest!: channel_winnow_frame)
qed simp

declare winnow_loop.simps [simp del]

definition btbb_winnow :: "int \<times> u8 \<Rightarrow> btbb_piconet \<Rightarrow> (int \<times> btbb_piconet) option" where
  "btbb_winnow stray pn = winnow_loop stray (pn_num_candidates pn) pn"

section \<open>The UAP from headers\<close>

text \<open>
  The loop over the 64 values of the clock of the first packet; \<open>first_clock\<close> and \<open>remaining\<close> are
  the variables of the code, the first component says whether the loop returned from the function.
\<close>

fun uap_counts :: "nat list \<Rightarrow> u32 \<Rightarrow> int \<Rightarrow> int \<Rightarrow> btbb_packet \<Rightarrow> btbb_piconet \<Rightarrow>
    (bool \<times> int \<times> int \<times> btbb_packet \<times> btbb_piconet) option" where
  "uap_counts [] clkn first_clock remaining pkt pn = Some (False, first_clock, remaining, pkt, pn)"
| "uap_counts (count # counts) clkn first_clock remaining pkt pn = do {
     cand \<leftarrow> rd (pn_clock6_candidates pn) (int count);
     if cand > -1 \<or> \<not> btbb_piconet_get_flag pn BTBB_GOT_FIRST_PACKET then do {
       let clock = (of_nat count + clkn - pn_first_pkt_time pn) mod 64;
       (UAP, pkt) \<leftarrow> try_clock clock pkt;
       (crc_chk, pkt) \<leftarrow>
         (if \<not> btbb_piconet_get_flag pn BTBB_GOT_FIRST_PACKET \<or> uint UAP = cand
          then crc_check clock pkt else Some (-1, pkt));
       let crc_chk = (if btbb_piconet_get_flag pn BTBB_UAP_VALID \<and> UAP \<noteq> pn_UAP pn then -1 else crc_chk);
       if crc_chk = -1 \<or> crc_chk = 0 then do {
         c6 \<leftarrow> wr (pn_clock6_candidates pn) (int count) [-1];
         uap_counts counts clkn first_clock remaining pkt (pn\<lparr>pn_clock6_candidates := c6\<rparr>)
       }
       else if crc_chk = 1 \<or> crc_chk = 2 then do {
         c6 \<leftarrow> wr (pn_clock6_candidates pn) (int count) [uint UAP];
         uap_counts counts clkn (int count) (remaining + 1) pkt (pn\<lparr>pn_clock6_candidates := c6\<rparr>)
       }
       else do {
         let pn = pn\<lparr>pn_clk_offset := uint ((of_nat count - (pn_first_pkt_time pn AND 0x3f)) AND 0x3f),
                     pn_UAP := UAP\<rparr>;
         let pn = btbb_piconet_set_flag pn BTBB_CLK6_VALID 1;
         let pn = btbb_piconet_set_flag pn BTBB_UAP_VALID 1;
         Some (True, first_clock, remaining, pkt, pn\<lparr>pn_total_packets_observed := 0\<rparr>)
       }
     }
     else uap_counts counts clkn first_clock remaining pkt pn
   }"

definition btbb_uap_from_header ::
    "btbb_packet \<Rightarrow> btbb_piconet \<Rightarrow> (int \<times> btbb_packet \<times> btbb_piconet) option" where
  "btbb_uap_from_header pkt pn = do {
     let clkn = pkt_clkn pkt;
     let pn = (if \<not> btbb_piconet_get_flag pn BTBB_GOT_FIRST_PACKET then pn\<lparr>pn_first_pkt_time := clkn\<rparr> else pn);
     (_, pn) \<leftarrow> btbb_piconet_set_channel_seen pn (pkt_channel pkt);
     if pn_packets_observed pn < MAX_PATTERN_LENGTH then do {
       indices \<leftarrow> wr (pn_pattern_indices pn) (pn_packets_observed pn) [sint (clkn - pn_first_pkt_time pn)];
       channels \<leftarrow> wr (pn_pattern_channels pn) (pn_packets_observed pn) [pkt_channel pkt];
       let pn = pn\<lparr>pn_pattern_indices := indices, pn_pattern_channels := channels,
                   pn_packets_observed := pn_packets_observed pn + 1,
                   pn_total_packets_observed := pn_total_packets_observed pn + 1\<rparr>;
       (found, first_clock, remaining, pkt, pn) \<leftarrow> uap_counts [0..<64] clkn 0 0 pkt pn;
       if found then Some (1, pkt, pn)
       else do {
         let pn = btbb_piconet_set_flag pn BTBB_GOT_FIRST_PACKET 1;
         if remaining = 1 then do {
           cand \<leftarrow> rd (pn_clock6_candidates pn) first_clock;
           let pn = pn\<lparr>pn_clk_offset := uint ((word_of_int first_clock - (pn_first_pkt_time pn AND 0x3f)) AND 0x3f),
                       pn_UAP := word_of_int cand\<rparr>;
           let pn = btbb_piconet_set_flag pn BTBB_CLK6_VALID 1;
           let pn = btbb_piconet_set_flag pn BTBB_UAP_VALID 1;
           Some (1, pkt, pn\<lparr>pn_total_packets_observed := 0\<rparr>)
         }
         else if remaining = 0 then Some (0, pkt, reset pn)
         else Some (0, pkt, pn)
       }
     }
     else Some (0, pkt, reset pn)
   }"

definition try_hop :: "(nat \<Rightarrow> u32 list) \<Rightarrow> int \<times> u8 \<Rightarrow> hopping_map \<Rightarrow> btbb_packet \<Rightarrow> btbb_piconet \<Rightarrow>
    (hopping_map \<times> btbb_packet \<times> btbb_piconet) option" where
  "try_hop malloc stray hopping_map pkt pn = do {
     let filter_uap = pn_UAP pn;
     (_, pkt) \<leftarrow> btbb_decode pkt;
     (hopping_map, pkt, pn) \<leftarrow>
       (if btbb_piconet_get_flag pn BTBB_HOP_REVERSAL_INIT then do {
          indices \<leftarrow> wr (pn_pattern_indices pn) (pn_packets_observed pn) [sint (pkt_clkn pkt - pn_first_pkt_time pn)];
          channels \<leftarrow> wr (pn_pattern_channels pn) (pn_packets_observed pn) [pkt_channel pkt];
          let pn = pn\<lparr>pn_pattern_indices := indices, pn_pattern_channels := channels,
                      pn_packets_observed := pn_packets_observed pn + 1,
                      pn_total_packets_observed := pn_total_packets_observed pn + 1\<rparr>;
          (_, pn) \<leftarrow> btbb_winnow stray pn;
          Some (hopping_map, pkt, pn)
        }
        else if btbb_piconet_get_flag pn BTBB_CLK6_VALID then do {
          (_, pkt, pn) \<leftarrow> btbb_uap_from_header pkt pn;
          Some (hopping_map, pkt, pn)
        }
        else do {
          (found, pkt, pn) \<leftarrow> btbb_uap_from_header pkt pn;
          if found \<noteq> 0 \<and> filter_uap = pn_UAP pn then do {
            (_, hopping_map, pn) \<leftarrow> btbb_init_hop_reversal malloc hopping_map 0 pn;
            (_, pn) \<leftarrow> btbb_winnow stray pn;
            Some (hopping_map, pkt, pn)
          }
          else Some (hopping_map, pkt, pn)
        });
     if \<not> btbb_piconet_get_flag pn BTBB_UAP_VALID
     then Some (hopping_map, pkt, (btbb_piconet_set_flag pn BTBB_UAP_VALID 1)\<lparr>pn_UAP := filter_uap\<rparr>)
     else Some (hopping_map, pkt, pn)
   }"

section \<open>The survey and the entry point\<close>

text \<open>The static variables of the file; the survey holds its piconets in the order they were added.\<close>

record piconet_lib =
  survey_mode :: bool
  piconet_survey :: "(u32 \<times> btbb_piconet) list"
  lib_hopping_map :: hopping_map

definition btbb_init_survey :: "piconet_lib \<Rightarrow> int \<times> piconet_lib" where
  "btbb_init_survey lib = (0, lib\<lparr>survey_mode := True\<rparr>)"

definition get_piconet :: "u32 \<Rightarrow> piconet_lib \<Rightarrow> btbb_piconet \<times> piconet_lib" where
  "get_piconet lap lib =
     (case map_of (piconet_survey lib) lap of
        None \<Rightarrow> let pn = btbb_init_piconet btbb_piconet_new lap
                in (pn, lib\<lparr>piconet_survey := piconet_survey lib @ [(lap, pn)]\<rparr>)
      | Some pn \<Rightarrow> (pn, lib))"

text \<open>The survey holds pointers: writing through the one of \<open>lap\<close> changes its entry.\<close>

definition put_piconet :: "u32 \<Rightarrow> btbb_piconet \<Rightarrow> piconet_lib \<Rightarrow> piconet_lib" where
  "put_piconet lap pn lib = lib\<lparr>piconet_survey := map (\<lambda>(k, q). (k, if k = lap then pn else q)) (piconet_survey lib)\<rparr>"

definition btbb_next_survey_result :: "piconet_lib \<Rightarrow> btbb_piconet option \<times> piconet_lib" where
  "btbb_next_survey_result lib =
     (case piconet_survey lib of
        [] \<Rightarrow> (None, lib)
      | (k, pn) # rest \<Rightarrow> (Some pn, lib\<lparr>piconet_survey := rest\<rparr>))"

definition process_survey :: "piconet_lib \<Rightarrow> btbb_packet \<Rightarrow> (piconet_lib \<times> btbb_packet) option" where
  "process_survey lib pkt = do {
     let lap = btbb_packet_get_lap pkt;
     let (pn, lib) = get_piconet lap lib;
     (_, pn) \<leftarrow> btbb_piconet_set_channel_seen pn (pkt_channel pkt);
     header \<leftarrow> btbb_header_present pkt;
     if header \<and> \<not> btbb_piconet_get_flag pn BTBB_UAP_VALID then do {
       (_, pkt, pn) \<leftarrow> btbb_uap_from_header pkt pn;
       Some (put_piconet lap pn lib, pkt)
     }
     else Some (put_piconet lap pn lib, pkt)
   }"

definition process_piconet :: "(nat \<Rightarrow> u32 list) \<Rightarrow> int \<times> u8 \<Rightarrow> hopping_map \<Rightarrow> btbb_packet \<Rightarrow> btbb_piconet \<Rightarrow>
    (int \<times> hopping_map \<times> btbb_packet \<times> btbb_piconet) option" where
  "process_piconet malloc stray hopping_map pkt pn = do {
     (_, pn) \<leftarrow> btbb_piconet_set_channel_seen pn (pkt_channel pkt);
     header \<leftarrow> (if btbb_piconet_get_flag pn BTBB_LAP_VALID then btbb_header_present pkt else Some False);
     if header then
       if btbb_piconet_get_flag pn BTBB_FOLLOWING then do {
         let pkt = btbb_packet_set_uap pkt (btbb_piconet_get_uap pn);
         let pkt = btbb_packet_set_flag pkt BTBB_CLK6_VALID 1;
         let pkt = btbb_packet_set_flag pkt BTBB_CLK27_VALID 1;
         (_, pkt) \<leftarrow> btbb_decode pkt;
         Some (0, hopping_map, pkt, pn)
       }
       else if btbb_piconet_get_uap pn \<noteq> 0 then do {
         (hopping_map, pkt, pn) \<leftarrow> try_hop malloc stray hopping_map pkt pn;
         if btbb_piconet_get_flag pn BTBB_CLK6_VALID \<and> btbb_piconet_get_flag pn BTBB_CLK27_VALID
         then Some (-1, hopping_map, pkt, btbb_piconet_set_flag pn BTBB_FOLLOWING 1)
         else Some (0, hopping_map, pkt, pn)
       }
       else do {
         (_, pkt, pn) \<leftarrow> btbb_uap_from_header pkt pn;
         Some (0, hopping_map, pkt, pn)
       }
     else Some (0, hopping_map, pkt, pn)
   }"

definition btbb_process_packet :: "(nat \<Rightarrow> u32 list) \<Rightarrow> int \<times> u8 \<Rightarrow> piconet_lib \<Rightarrow> btbb_packet \<Rightarrow>
    btbb_piconet option \<Rightarrow> (int \<times> piconet_lib \<times> btbb_packet \<times> btbb_piconet option) option" where
  "btbb_process_packet malloc stray lib pkt pn =
     (if survey_mode lib then do {
        (lib, pkt) \<leftarrow> process_survey lib pkt;
        Some (0, lib, pkt, pn)
      }
      else case pn of
        None \<Rightarrow> Some (0, lib, pkt, None)
      | Some pn \<Rightarrow> do {
          (rv, hopping_map, pkt, pn) \<leftarrow> process_piconet malloc stray (lib_hopping_map lib) pkt pn;
          Some (rv, lib\<lparr>lib_hopping_map := hopping_map\<rparr>, pkt, Some pn)
        })"

section \<open>Flags\<close>

lemma get_flag_value: "btbb_piconet_get_flag pn f \<longleftrightarrow> bit (pn_flags pn) f"
  by (simp add: btbb_piconet_get_flag_def Let_def push_bit_eq_mult and_exp_eq_0_iff_not_bit)

lemma get_set_flag:
  "f < 32 \<Longrightarrow> btbb_piconet_get_flag (btbb_piconet_set_flag pn f val) g =
    (if g = f then val \<noteq> 0 else btbb_piconet_get_flag pn g)"
  by (auto simp: get_flag_value btbb_piconet_set_flag_def Let_def bit_simps dest: bit_imp_le_length)

lemma set_flag_fields:
  "btbb_piconet_set_flag pn f val =
    pn\<lparr>pn_flags := (if val \<noteq> 0 then (pn_flags pn AND NOT (push_bit f 1)) OR push_bit f 1
                  else pn_flags pn AND NOT (push_bit f 1))\<rparr>"
  by (simp add: btbb_piconet_set_flag_def Let_def)

lemma get_flag_updates [simp]:
  "btbb_piconet_get_flag (pn\<lparr>pn_clk_offset := a\<rparr>) f = btbb_piconet_get_flag pn f"
  "btbb_piconet_get_flag (pn\<lparr>pn_UAP := b\<rparr>) f = btbb_piconet_get_flag pn f"
  "btbb_piconet_get_flag (pn\<lparr>pn_clock6_candidates := c\<rparr>) f = btbb_piconet_get_flag pn f"
  "btbb_piconet_get_flag (pn\<lparr>pn_first_pkt_time := d\<rparr>) f = btbb_piconet_get_flag pn f"
  "btbb_piconet_get_flag (pn\<lparr>pn_packets_observed := e\<rparr>) f = btbb_piconet_get_flag pn f"
  "btbb_piconet_get_flag (pn\<lparr>pn_total_packets_observed := e\<rparr>) f = btbb_piconet_get_flag pn f"
  "btbb_piconet_get_flag (pn\<lparr>pn_pattern_indices := g\<rparr>) f = btbb_piconet_get_flag pn f"
  "btbb_piconet_get_flag (pn\<lparr>pn_pattern_channels := h\<rparr>) f = btbb_piconet_get_flag pn f"
  by (simp_all add: btbb_piconet_get_flag_def)

section \<open>Winnowing\<close>

text \<open>The invariant of hop reversal: a complete sequence and room for the candidates.\<close>

definition reversal_wf :: "btbb_piconet \<Rightarrow> int list \<Rightarrow> u32 list \<Rightarrow> bool" where
  "reversal_wf pn hops cands \<longleftrightarrow>
     pn_sequence pn = Some hops \<and> length hops = SEQUENCE_LENGTH \<and>
     pn_clock_candidates pn = Some cands \<and> 0 \<le> pn_num_candidates pn \<and> pn_num_candidates pn \<le> int (length cands)"

text \<open>The channel that the sequence has for a candidate after \<open>offset\<close> ticks.\<close>

definition channel_at :: "btbb_piconet \<Rightarrow> int list \<Rightarrow> int \<Rightarrow> u32 \<Rightarrow> int" where
  "channel_at pn hops offset cand =
     observable_channel pn (hops ! (unat (cand + word_of_int offset) mod SEQUENCE_LENGTH))"

lemma channel_at_candidates [simp]:
  "observable_channel (pn\<lparr>pn_clock_candidates := c\<rparr>) = observable_channel pn"
  "channel_at (pn\<lparr>pn_clock_candidates := c\<rparr>) = channel_at pn"
  by (simp_all add: observable_channel_def channel_at_def fun_eq_iff)

lemma winnow_one_step:
  assumes "pn_sequence pn = Some hops" "length hops = SEQUENCE_LENGTH"
    and "pn_clock_candidates pn = Some cands" "i < length cands" "n \<le> i"
  shows "winnow_one offset channel (int i) (int n, pn) =
    (if channel_at pn hops offset (cands ! i) = channel
     then Some (int (Suc n), pn\<lparr>pn_clock_candidates := Some (cands[n := cands ! i])\<rparr>)
     else Some (int n, pn))"
proof -
  let ?k = "unat (cands ! i + word_of_int offset) mod SEQUENCE_LENGTH"
  have "uint (cands ! i + word_of_int offset) mod int SEQUENCE_LENGTH = int ?k"
    by (simp add: zmod_int)
  moreover have "?k < length hops" by (simp add: assms(2) SEQUENCE_LENGTH_def)
  ultimately show ?thesis
    using assms wr_one [of n cands "cands ! i"]
    by (simp add: winnow_one_def rd_nat channel_at_def)
qed

lemma foldM_Nil [simp]: "foldM f [] = Some"
  by (rule ext) simp

lemma winnow_loop_filter:
  fixes offset channel :: int
  assumes "pn_sequence pn = Some hops" "length hops = SEQUENCE_LENGTH"
    and "pn_clock_candidates pn = Some cands" "m \<le> length cands"
  defines "F \<equiv> \<lambda>k. filter (\<lambda>c. channel_at pn hops offset c = channel) (take k cands)"
  shows "foldM (winnow_one offset channel) (map int [0..<m]) (0, pn) =
    Some (int (length (F m)), pn\<lparr>pn_clock_candidates := Some (F m @ drop (length (F m)) cands)\<rparr>)"
  using assms(4)
proof (induction m)
  case 0
  then show ?case using assms(3) by (simp add: F_def)
next
  case (Suc m)
  let ?c = "F m @ drop (length (F m)) cands" and ?q = "pn\<lparr>pn_clock_candidates := Some (F m @ drop (length (F m)) cands)\<rparr>"
  have le: "length (F m) \<le> m"
    unfolding F_def using length_filter_le [of _ "take m cands"] Suc.prems by (simp add: min_def)
  have len: "length ?c = length cands" using le Suc.prems by simp
  have at: "?c ! m = cands ! m" using le Suc.prems by (simp add: nth_append)
  have F: "F (Suc m) = F m @ (if channel_at pn hops offset (cands ! m) = channel then [cands ! m] else [])"
    using Suc.prems by (simp add: F_def take_Suc_conv_app_nth)
  have "foldM (winnow_one offset channel) (map int [0..<Suc m]) (0, pn) =
      winnow_one offset channel (int m) (int (length (F m)), ?q)"
    using Suc by (simp add: foldM_append)
  also have "\<dots> = (if channel_at pn hops offset (cands ! m) = channel
     then Some (int (Suc (length (F m))), ?q\<lparr>pn_clock_candidates := Some (?c[length (F m) := cands ! m])\<rparr>)
     else Some (int (length (F m)), ?q))"
    using winnow_one_step [of ?q hops ?c m "length (F m)" offset channel] assms(1,2) Suc.prems le len at by simp
  also have "?c[length (F m) := cands ! m] = F m @ cands ! m # drop (Suc (length (F m))) cands"
    using le Suc.prems by (simp add: list_update_append Cons_nth_drop_Suc [symmetric])
  finally show ?case
    using F by simp
qed

lemma upto_upt: "[0..int n - 1] = map int [0..<n]"
  by (rule nth_equalityI) (simp_all add: nth_upto)

text \<open>What \<open>channel_winnow\<close> makes of the candidates \<open>F\<close> that match.\<close>

definition winnowed_to :: "btbb_piconet \<Rightarrow> u32 list \<Rightarrow> u32 list \<Rightarrow> btbb_piconet" where
  "winnowed_to pn cands F =
     (let q = pn\<lparr>pn_clock_candidates := Some (F @ drop (length F) cands), pn_num_candidates := int (length F)\<rparr>
      in if length F = 1
         then btbb_piconet_set_flag
                (q\<lparr>pn_clk_offset := sint (push_bit 1 (hd F) - push_bit 1 (pn_first_pkt_time pn))\<rparr>) BTBB_CLK27_VALID 1
         else if length F = 0 then reset q else q)"

lemma channel_winnow_filter:
  fixes offset channel :: int
  assumes "reversal_wf pn hops cands"
  defines "F \<equiv> filter (\<lambda>c. channel_at pn hops offset c = channel) (take (nat (pn_num_candidates pn)) cands)"
  shows "channel_winnow offset channel pn = Some (int (length F), winnowed_to pn cands F)"
proof -
  let ?n = "nat (pn_num_candidates pn)"
  have n: "[0..pn_num_candidates pn - 1] = map int [0..<?n]"
    using upto_upt [of ?n] assms(1) by (simp add: reversal_wf_def)
  have wf: "pn_sequence pn = Some hops" "length hops = SEQUENCE_LENGTH" "pn_clock_candidates pn = Some cands"
    "?n \<le> length cands"
    using assms(1) by (simp_all add: reversal_wf_def nat_le_iff)
  have loop: "foldM (winnow_one offset channel) [0..pn_num_candidates pn - 1] (0, pn) =
      Some (int (length F), pn\<lparr>pn_clock_candidates := Some (F @ drop (length F) cands)\<rparr>)"
    unfolding n F_def by (rule winnow_loop_filter [OF wf])
  show ?thesis
  proof (cases "length F = 1")
    case True
    then obtain c where "F = [c]" by (auto simp: length_Suc_conv)
    then show ?thesis
      unfolding channel_winnow_def loop by (simp add: winnowed_to_def rd_def Let_def)
  next
    case False
    then show ?thesis
      unfolding channel_winnow_def loop by (auto simp: winnowed_to_def Let_def)
  qed
qed

lemma winnowed_to_wf:
  assumes "reversal_wf pn hops cands" "F \<noteq> []" "length F \<le> length cands"
  shows "reversal_wf (winnowed_to pn cands F) hops (F @ drop (length F) cands)"
    "pn_num_candidates (winnowed_to pn cands F) = int (length F)"
    "pn_pattern_indices (winnowed_to pn cands F) = pn_pattern_indices pn"
    "pn_pattern_channels (winnowed_to pn cands F) = pn_pattern_channels pn"
    "pn_packets_observed (winnowed_to pn cands F) = pn_packets_observed pn"
    "pn_winnowed (winnowed_to pn cands F) = pn_winnowed pn"
    "pn_aliased (winnowed_to pn cands F) = pn_aliased pn"
    "pn_first_pkt_time (winnowed_to pn cands F) = pn_first_pkt_time pn"
  using assms by (auto simp: winnowed_to_def reversal_wf_def Let_def btbb_piconet_set_flag_def)

lemma channel_at_aliased: "pn_aliased q = pn_aliased pn \<Longrightarrow> channel_at q = channel_at pn"
  by (simp add: channel_at_def observable_channel_def fun_eq_iff)

text \<open>A clock \<open>t\<close> that is among the candidates and that explains the hops \<open>i\<close> to \<open>n - 1\<close> observed.\<close>

definition explains :: "btbb_piconet \<Rightarrow> int list \<Rightarrow> u32 \<Rightarrow> bool" where
  "explains pn hops t \<longleftrightarrow>
     length (pn_pattern_indices pn) = 1000 \<and> length (pn_pattern_channels pn) = 1000 \<and>
     0 \<le> pn_winnowed pn \<and> pn_packets_observed pn \<le> MAX_PATTERN_LENGTH \<and>
     (\<forall>i. pn_winnowed pn \<le> int i \<and> int i < pn_packets_observed pn \<longrightarrow>
        channel_at pn hops (pn_pattern_indices pn ! i) t = sint (pn_pattern_channels pn ! i))"

lemma winnow_afh_total:
  assumes "length (pn_pattern_indices pn) = 1000" "length (pn_pattern_channels pn) = 1000"
    "0 \<le> pn_winnowed pn" "pn_winnowed pn < 1000"
  shows "\<exists>f. winnow_afh stray index channel pn = Some (pn\<lparr>pn_flags := f\<rparr>)"
proof -
  have "\<exists>q. winnow_afh stray index channel pn = Some q"
    using assms by (cases stray) (auto simp: winnow_afh_def rd_def)
  then show ?thesis using winnow_afh_frame by blast
qed

lemma winnow_loop_keeps:
  assumes "reversal_wf pn hops cands" "t \<in> set (take (nat (pn_num_candidates pn)) cands)" "explains pn hops t"
    and "new_count = pn_num_candidates pn"
  shows "\<exists>n pn' cands'. winnow_loop stray new_count pn = Some (n, pn') \<and> reversal_wf pn' hops cands' \<and>
    t \<in> set (take (nat n) cands') \<and> n = pn_num_candidates pn' \<and> n \<le> pn_num_candidates pn \<and>
    (n = 1 \<and> pn_winnowed pn < pn_packets_observed pn \<longrightarrow>
       btbb_piconet_get_flag pn' BTBB_CLK27_VALID \<and>
       pn_clk_offset pn' = sint (push_bit 1 t - push_bit 1 (pn_first_pkt_time pn)))"
  using assms
proof (induction "nat (pn_packets_observed pn - pn_winnowed pn)" arbitrary: pn cands new_count)
  case 0
  then show ?case by (auto simp: winnow_loop.simps)
next
  case (Suc k)
  define i where "i = nat (pn_winnowed pn)"
  have i: "pn_winnowed pn = int i" "int i < pn_packets_observed pn" "i < 1000"
    using Suc.hyps(2) Suc.prems(3) by (auto simp: i_def explains_def)
  let ?index = "pn_pattern_indices pn ! i" and ?channel = "pn_pattern_channels pn ! i"
  define F where "F = filter (\<lambda>c. channel_at pn hops ?index c = sint ?channel) (take (nat (pn_num_candidates pn)) cands)"
  have t: "t \<in> set F"
    using Suc.prems(2,3) i by (auto simp: F_def explains_def)
  have le: "length F \<le> nat (pn_num_candidates pn)" "length F \<le> length cands"
    using length_filter_le [of "\<lambda>c. channel_at pn hops ?index c = sint ?channel" "take (nat (pn_num_candidates pn)) cands"]
    by (simp_all add: F_def)
  have num: "0 \<le> pn_num_candidates pn" using Suc.prems(1) by (simp add: reversal_wf_def)
  have rd: "rd (pn_pattern_indices pn) (pn_winnowed pn) = Some ?index"
    "rd (pn_pattern_channels pn) (pn_winnowed pn) = Some ?channel"
    using Suc.prems(3) i by (simp_all add: explains_def rd_nat)
  let ?q = "winnowed_to pn cands F"
  have w: "channel_winnow ?index (sint ?channel) pn = Some (int (length F), ?q)"
    unfolding F_def by (rule channel_winnow_filter [OF Suc.prems(1)])
  have ne: "F \<noteq> []" using t by auto
  note q = winnowed_to_wf [OF Suc.prems(1) ne le(2)]
  let ?cands = "F @ drop (length F) cands"
  show ?case
  proof (cases "length F \<le> 1")
    case True
    with ne have one: "length F = 1" by (cases F) auto
    with t have F: "F = [t]" by (auto simp: length_Suc_conv)
    have "winnow_loop stray new_count pn = Some (int (length F), ?q)"
      using i(1,2) True by (subst winnow_loop.simps) (simp add: rd [unfolded i(1)] w)
    moreover have "btbb_piconet_get_flag ?q BTBB_CLK27_VALID"
      "pn_clk_offset ?q = sint (push_bit 1 t - push_bit 1 (pn_first_pkt_time pn))"
      by (simp_all add: winnowed_to_def F get_set_flag Let_def) (simp add: btbb_piconet_set_flag_def Let_def)
    ultimately show ?thesis
      using q(1,2) F num le(1) by (intro exI [of _ "1 :: int"] exI [of _ ?q] exI [of _ ?cands]) auto
  next
    case False
    have len: "length (pn_pattern_indices ?q) = 1000" "length (pn_pattern_channels ?q) = 1000"
      using Suc.prems(3) q(3,4) by (simp_all add: explains_def)
    obtain f where afh: "winnow_afh stray ?index ?channel ?q = Some (?q\<lparr>pn_flags := f\<rparr>)"
      using winnow_afh_total [OF len, of stray ?index ?channel] q(6) i by auto
    let ?r = "?q\<lparr>pn_flags := f, pn_winnowed := pn_winnowed ?q + 1\<rparr>"
    have loop: "winnow_loop stray new_count pn = winnow_loop stray (int (length F)) ?r"
      using i(1,2) False by (subst winnow_loop.simps) (simp add: rd [unfolded i(1)] w afh)
    have at: "channel_at ?r = channel_at pn"
      using q(7) by (intro channel_at_aliased) simp
    have "\<exists>n pn' cands'. winnow_loop stray (int (length F)) ?r = Some (n, pn') \<and> reversal_wf pn' hops cands' \<and>
        t \<in> set (take (nat n) cands') \<and> n = pn_num_candidates pn' \<and> n \<le> pn_num_candidates ?r \<and>
        (n = 1 \<and> pn_winnowed ?r < pn_packets_observed ?r \<longrightarrow>
           btbb_piconet_get_flag pn' BTBB_CLK27_VALID \<and>
           pn_clk_offset pn' = sint (push_bit 1 t - push_bit 1 (pn_first_pkt_time ?r)))"
    proof (rule Suc.hyps(1))
      show "k = nat (pn_packets_observed ?r - pn_winnowed ?r)"
        using Suc.hyps(2) q(5,6) by simp
      show "reversal_wf ?r hops ?cands" using q(1) by (simp add: reversal_wf_def)
      show "t \<in> set (take (nat (pn_num_candidates ?r)) ?cands)" using t q(2) by simp
      show "explains ?r hops t"
        using Suc.prems(3) q(3-6) unfolding explains_def at by simp
      show "int (length F) = pn_num_candidates ?r" using q(2) by simp
    qed
    then obtain n pn' cands' where r: "winnow_loop stray (int (length F)) ?r = Some (n, pn')" "reversal_wf pn' hops cands'"
        "t \<in> set (take (nat n) cands')" "n = pn_num_candidates pn'" "n \<le> int (length F)"
        "n = 1 \<and> pn_winnowed ?r < pn_packets_observed ?r \<longrightarrow> btbb_piconet_get_flag pn' BTBB_CLK27_VALID \<and>
           pn_clk_offset pn' = sint (push_bit 1 t - push_bit 1 (pn_first_pkt_time pn))"
      using q(2,8) by auto
    have "pn_winnowed ?r < pn_packets_observed ?r" if "n = 1"
    proof (rule ccontr)
      assume "\<not> pn_winnowed ?r < pn_packets_observed ?r"
      then have "winnow_loop stray (int (length F)) ?r = Some (int (length F), ?r)"
        by (subst winnow_loop.simps) simp
      with r(1) that False show False by simp
    qed
    with r num le(1) show ?thesis
      unfolding loop by (intro exI [of _ n] exI [of _ pn'] exI [of _ cands']) auto
  qed
qed

text \<open>
  C18. \<open>btbb_winnow\<close> never loses the clock of the piconet: if clock \<open>t\<close> is a candidate
  and the hopping sequence at \<open>t\<close> gives the channel of every packet observed, then \<open>t\<close> is still a
  candidate, whatever the reads in front of the pattern arrays give; and if one candidate is left,
  the clock is marked valid and its offset is the one of \<open>t\<close>.
\<close>

theorem winnow_keeps_true_clock:
  assumes "reversal_wf pn hops cands" "t \<in> set (take (nat (pn_num_candidates pn)) cands)" "explains pn hops t"
  shows "\<exists>n pn' cands'. btbb_winnow stray pn = Some (n, pn') \<and> reversal_wf pn' hops cands' \<and>
    t \<in> set (take (nat n) cands') \<and> 1 \<le> n \<and> n \<le> pn_num_candidates pn \<and>
    (n = 1 \<and> pn_winnowed pn < pn_packets_observed pn \<longrightarrow>
       btbb_piconet_get_flag pn' BTBB_CLK27_VALID \<and>
       pn_clk_offset pn' = sint (push_bit 1 t - push_bit 1 (pn_first_pkt_time pn)))"
proof -
  obtain n pn' cands' where w: "winnow_loop stray (pn_num_candidates pn) pn = Some (n, pn')" "reversal_wf pn' hops cands'"
    "t \<in> set (take (nat n) cands')" "n \<le> pn_num_candidates pn"
    "n = 1 \<and> pn_winnowed pn < pn_packets_observed pn \<longrightarrow> btbb_piconet_get_flag pn' BTBB_CLK27_VALID \<and>
       pn_clk_offset pn' = sint (push_bit 1 t - push_bit 1 (pn_first_pkt_time pn))"
    using winnow_loop_keeps [OF assms refl, of stray] by blast
  then have "1 \<le> n" by (cases "n \<le> 0") auto
  with w show ?thesis unfolding btbb_winnow_def by blast
qed

definition winnow_example :: btbb_piconet where
  "winnow_example = btbb_piconet_new\<lparr>pn_sequence := Some (replicate SEQUENCE_LENGTH 0),
     pn_clock_candidates := Some [7, 9, 71], pn_num_candidates := 3, pn_packets_observed := 2\<rparr>"

lemma winnow_keeps_true_clock_witness:
  "\<exists>n pn'. btbb_winnow (5, 6) winnow_example = Some (n, pn') \<and> 1 \<le> n \<and> n \<le> 3"
proof -
  let ?hops = "replicate SEQUENCE_LENGTH (0 :: int)"
  have "reversal_wf winnow_example ?hops [7, 9, 71]"
    by (simp add: reversal_wf_def winnow_example_def)
  moreover have "9 \<in> set (take (nat (pn_num_candidates winnow_example)) [7, 9, 71 :: u32])"
    by (simp add: winnow_example_def)
  moreover have "?hops ! (k mod SEQUENCE_LENGTH) = 0" for k
    by (simp add: SEQUENCE_LENGTH_def)
  then have "explains winnow_example ?hops 9"
    by (auto simp: explains_def winnow_example_def btbb_piconet_new_def channel_at_def observable_channel_def)
  ultimately have "\<exists>n pn' cands'. btbb_winnow (5, 6) winnow_example = Some (n, pn') \<and> reversal_wf pn' ?hops cands' \<and>
      9 \<in> set (take (nat n) cands') \<and> 1 \<le> n \<and> n \<le> pn_num_candidates winnow_example \<and>
      (n = 1 \<and> pn_winnowed winnow_example < pn_packets_observed winnow_example \<longrightarrow>
         btbb_piconet_get_flag pn' BTBB_CLK27_VALID \<and>
         pn_clk_offset pn' = sint (push_bit 1 9 - push_bit 1 (pn_first_pkt_time winnow_example)))"
    by (rule winnow_keeps_true_clock)
  then show ?thesis by (auto simp: winnow_example_def)
qed

section \<open>The first candidates\<close>

lemma candidate_clocks_eq:
  "candidate_clocks i = map (\<lambda>j. i + 64 * int j) [0..<nat ((int SEQUENCE_LENGTH - i + 63) div 64)]"
proof (induction i rule: candidate_clocks.induct)
  case (1 i)
  let ?n = "\<lambda>i. nat ((int SEQUENCE_LENGTH - i + 63) div 64)"
  show ?case
  proof (cases "i < int SEQUENCE_LENGTH")
    case True
    then have "?n i = Suc (?n (i + 64))" by linarith
    then show ?thesis
      using 1 True by (subst candidate_clocks.simps) (simp add: map_upt_Suc comp_def algebra_simps del: upt_Suc)
  next
    case False
    then show ?thesis by (subst candidate_clocks.simps) simp
  qed
qed

lemma candidate_clocks_range: "0 \<le> i \<Longrightarrow> j \<in> set (candidate_clocks i) \<Longrightarrow> 0 \<le> j \<and> j < int SEQUENCE_LENGTH"
proof (induction i rule: candidate_clocks.induct)
  case (1 i)
  have "candidate_clocks i = (if i < int SEQUENCE_LENGTH then i # candidate_clocks (i + 64) else [])"
    by (rule candidate_clocks.simps)
  with 1 show ?case by (auto split: if_splits)
qed

lemma candidate_clocks_length: "0 \<le> i \<Longrightarrow> i < 64 \<Longrightarrow> length (candidate_clocks i) = 2097152"
  unfolding candidate_clocks_eq length_map length_upt SEQUENCE_LENGTH_def by linarith

lemma init_step:
  assumes "pn_sequence pn = Some hops" "0 \<le> i" "i < int (length hops)" "n \<le> length c"
  shows "(case (int n, pn\<lparr>pn_clock_candidates := Some c\<rparr>) of (count, pn) \<Rightarrow> do {
       hops \<leftarrow> pn_sequence pn;
       ch \<leftarrow> rd hops i;
       if observable_channel pn ch = channel then do {
         cands \<leftarrow> pn_clock_candidates pn;
         cands \<leftarrow> wr cands count [word_of_int i];
         Some (count + 1, pn\<lparr>pn_clock_candidates := Some cands\<rparr>)
       }
       else Some (count, pn)}) =
     (if observable_channel pn (hops ! nat i) = channel
      then if n < length c then Some (int (Suc n), pn\<lparr>pn_clock_candidates := Some (c[n := word_of_int i])\<rparr>) else None
      else Some (int n, pn\<lparr>pn_clock_candidates := Some c\<rparr>))"
proof (cases "n < length c")
  case True
  then show ?thesis using assms wr_one [of n c "word_of_int i"] by (simp add: rd_def)
next
  case False
  then show ?thesis using assms by (simp add: rd_def wr_def)
qed

lemma init_loop:
  fixes channel :: int
  assumes "pn_sequence pn = Some hops" "\<forall>i \<in> set is. 0 \<le> i \<and> i < int (length hops)" "n \<le> length c"
  defines "M \<equiv> filter (\<lambda>i. observable_channel pn (hops ! nat i) = channel) is"
  shows "foldM (\<lambda>i (count, pn). do {
       hops \<leftarrow> pn_sequence pn;
       ch \<leftarrow> rd hops i;
       if observable_channel pn ch = channel then do {
         cands \<leftarrow> pn_clock_candidates pn;
         cands \<leftarrow> wr cands count [word_of_int i];
         Some (count + 1, pn\<lparr>pn_clock_candidates := Some cands\<rparr>)
       }
       else Some (count, pn)}) is (int n, pn\<lparr>pn_clock_candidates := Some c\<rparr>) =
    (if n + length M \<le> length c
     then Some (int (n + length M),
       pn\<lparr>pn_clock_candidates := Some (take n c @ map word_of_int M @ drop (n + length M) c)\<rparr>)
     else None)"
  using assms(2,3) unfolding M_def
proof (induction "is" arbitrary: n c)
  case (Cons i "is")
  have i: "0 \<le> i" "i < int (length hops)" using Cons.prems(1) by simp_all
  note step = init_step [OF assms(1) i Cons.prems(2), of channel]
  have later: "\<forall>i \<in> set is. 0 \<le> i \<and> i < int (length hops)" using Cons.prems(1) by simp
  let ?M = "filter (\<lambda>i. observable_channel pn (hops ! nat i) = channel) is"
  show ?case
  proof (cases "observable_channel pn (hops ! nat i) = channel")
    case False
    with Cons.IH [OF later Cons.prems(2)] show ?thesis
      unfolding foldM.simps step by simp
  next
    case True
    show ?thesis
    proof (cases "n < length c")
      case False
      with True show ?thesis unfolding foldM.simps step by simp
    next
      case lt: True
      have "take (Suc n) (c[n := word_of_int i]) = take n c @ [word_of_int i]"
        using lt by (simp add: take_Suc_conv_app_nth)
      with Cons.IH [OF later, of "Suc n" "c[n := word_of_int i]"] True lt show ?thesis
        unfolding foldM.simps step by simp
    qed
  qed
qed simp

text \<open>
  C19. The first candidates are, in order, exactly the clocks with the known lower bits
  at which the sequence has the observed channel; the loop writes behind the allocated block (a
  \<open>None\<close>) exactly when there are more of them than it holds.
\<close>

theorem init_candidates_complete:
  assumes "pn_sequence pn = Some hops" "length hops = SEQUENCE_LENGTH" "pn_clock_candidates pn = Some cands"
    and "0 \<le> known" "M = filter (\<lambda>i. observable_channel pn (hops ! nat i) = channel) (candidate_clocks known)"
  shows "init_candidates channel known pn =
    (if length M \<le> length cands
     then Some (int (length M), pn\<lparr>pn_clock_candidates := Some (map word_of_int M @ drop (length M) cands)\<rparr>)
     else None)"
proof -
  have "\<forall>i \<in> set (candidate_clocks known). 0 \<le> i \<and> i < int (length hops)"
    using candidate_clocks_range [OF assms(4)] assms(2) by auto
  moreover have "pn\<lparr>pn_clock_candidates := Some cands\<rparr> = pn" using assms(3) by (cases pn) simp
  ultimately show ?thesis
    using init_loop [OF assms(1), of "candidate_clocks known" 0 cands channel]
    unfolding init_candidates_def assms(5) by simp
qed

lemma init_candidates_complete_witness: "init_candidates 5 3 winnow_example = Some (0, winnow_example)"
proof -
  let ?hops = "replicate SEQUENCE_LENGTH (0 :: int)"
  have "filter (\<lambda>i. observable_channel winnow_example (?hops ! nat i) = 5) (candidate_clocks 3) = []"
    using candidate_clocks_range [of 3]
    by (auto simp: filter_empty_conv observable_channel_def winnow_example_def btbb_piconet_new_def nat_less_iff)
  moreover have "pn_sequence winnow_example = Some ?hops" "pn_clock_candidates winnow_example = Some [7, 9, 71]"
    by (simp_all add: winnow_example_def)
  moreover from this have "winnow_example\<lparr>pn_clock_candidates := Some [7, 9, 71]\<rparr> = winnow_example"
    by (cases winnow_example) simp
  ultimately show ?thesis
    using init_candidates_complete [of winnow_example ?hops "[7, 9, 71]" 3 "[]" 5, OF _ _ _ _ sym] by simp
qed

section \<open>Too many candidates\<close>

lemma afh_hop_value:
  assumes "hop_wf pn" "btbb_piconet_get_flag pn BTBB_IS_AFH"
  shows "hop_value pn n \<in> set (take (unat (pn_used_channels pn)) (pn_bank pn))"
proof -
  let ?u = "uint (pn_used_channels pn)"
  let ?f = "int (16 * (n div 64) mod 79)"
  let ?i = "(hop_perm pn n + pn_e pn + ?f mod ?u + 32 * int (n mod 2)) mod ?u"
  have i: "0 \<le> ?i" "?i < ?u" using assms(1) by (auto simp: hop_wf_def)
  have u: "?u = int (unat (pn_used_channels pn))" by simp
  have "unat (pn_used_channels pn) \<le> length (pn_bank pn)" using assms(1) u unfolding hop_wf_def by linarith
  moreover have "nat ?i < unat (pn_used_channels pn)" using i unfolding u by (simp only: nat_less_iff)
  ultimately have lt: "nat ?i < length (take (unat (pn_used_channels pn)) (pn_bank pn))" by simp
  then have "hop_value pn n = take (unat (pn_used_channels pn)) (pn_bank pn) ! nat ?i"
    using i assms unfolding hop_value_def Let_def
    by (simp add: select_channel_def checked_mod_def rd_def hop_wf_def)
  with lt show ?thesis by (metis nth_mem)
qed

lemma count_list_map_filter: "length (filter (\<lambda>i. g i = c) xs) = count_list (map g xs) c"
  by (induction xs) auto

text \<open>
  C20. With adaptive hopping over at most 39 channels there is, for every known lower
  clock bits, a channel whose observation makes \<open>init_candidates\<close> write behind the 53092 candidates
  that \<open>btbb_init_hop_reversal\<close> allocates.
\<close>

theorem afh_overflows_candidates:
  assumes "hop_wf pn" "btbb_piconet_get_flag pn BTBB_IS_AFH" "uint (pn_used_channels pn) \<le> 39" "\<not> pn_aliased pn"
    and "0 \<le> known" "known < 64" "length block = SEQUENCE_LENGTH div BT_NUM_CHANNELS div 32"
  shows "\<exists>pn' channel. gen_hops pn = Some pn' \<and> channel \<in> set (pn_bank pn) \<and>
    init_candidates channel known (pn'\<lparr>pn_clock_candidates := Some block\<rparr>) = None"
proof -
  let ?hops = "map (hop_value pn) [0..<SEQUENCE_LENGTH]"
  define q where "q = pn\<lparr>pn_sequence := Some ?hops, pn_clock_candidates := Some block\<rparr>"
  define S where "S = set (take (unat (pn_used_channels pn)) (pn_bank pn))"
  define L where "L = map (\<lambda>i. ?hops ! nat i) (candidate_clocks known)"
  have "card S \<le> unat (pn_used_channels pn)"
    unfolding S_def by (rule order.trans [OF card_length]) simp
  moreover have "uint (pn_used_channels pn) = int (unat (pn_used_channels pn))" by simp
  ultimately have card: "card S \<le> 39" using assms(3) by linarith
  have len: "length L = 2097152"
    using candidate_clocks_length [OF assms(5,6)] by (simp add: L_def)
  have "set L \<subseteq> S"
  proof
    fix x assume "x \<in> set L"
    then obtain i where "i \<in> set (candidate_clocks known)" "x = ?hops ! nat i" by (auto simp: L_def)
    then have "x = hop_value pn (nat i)"
      using candidate_clocks_range [OF assms(5)] by (simp add: nat_less_iff)
    then show "x \<in> S" unfolding S_def using afh_hop_value [OF assms(1,2)] by simp
  qed
  then have sum: "sum (count_list L) S = 2097152"
    unfolding len [symmetric] by (intro sum_count_set) (simp_all add: S_def)
  have "\<exists>c \<in> S. 53092 < count_list L c"
  proof (rule ccontr)
    assume "\<not> ?thesis"
    then have "sum (count_list L) S \<le> card S * 53092" using sum_bounded_above [of S "count_list L" 53092] by (simp add: not_less)
    with card sum show False by linarith
  qed
  then obtain c where c: "c \<in> S" "53092 < count_list L c" by blast
  define M where "M = filter (\<lambda>i. observable_channel q (?hops ! nat i) = c) (candidate_clocks known)"
  have "observable_channel q ch = ch" for ch
    using assms(4) by (simp add: q_def observable_channel_def)
  then have "length M = count_list L c"
    unfolding M_def L_def by (simp only: count_list_map_filter)
  moreover have "length block = 53092" using assms(7) by (simp add: SEQUENCE_LENGTH_def)
  ultimately have "init_candidates c known q = None"
    using c(2) init_candidates_complete [of q ?hops block known M c] assms(5)
    by (simp add: q_def M_def SEQUENCE_LENGTH_def)
  moreover have "c \<in> set (pn_bank pn)" using c(1) by (auto simp: S_def dest: in_set_takeD)
  ultimately show ?thesis
    using gen_hops_sequence [OF assms(1)] by (intro exI [of _ "pn\<lparr>pn_sequence := Some ?hops\<rparr>"] exI [of _ c]) (simp add: q_def)
qed

lemma afh_overflows_candidates_witness:
  "\<exists>pn' channel. gen_hops afh_example = Some pn' \<and> channel \<in> set (pn_bank afh_example) \<and>
    init_candidates channel 5 (pn'\<lparr>pn_clock_candidates := Some (replicate 53092 0)\<rparr>) = None"
proof -
  have "length register_order = 79"
    by (simp only: register_order_def length_map length_upt BT_NUM_CHANNELS_def diff_zero)
  then have "hop_wf afh_example" "uint (pn_used_channels afh_example) \<le> 39" "\<not> pn_aliased afh_example"
    "btbb_piconet_get_flag afh_example BTBB_IS_AFH"
    by (simp_all add: hop_wf_def afh_example_def set_flag_fields btbb_piconet_new_def btbb_piconet_get_flag_def)
  moreover have "length (replicate 53092 (0 :: u32)) = SEQUENCE_LENGTH div BT_NUM_CHANNELS div 32"
    unfolding length_replicate SEQUENCE_LENGTH_def BT_NUM_CHANNELS_def by simp
  ultimately show ?thesis
    by (intro afh_overflows_candidates) simp_all
qed

end
