(* ===== verification/Follow.thy ===== *)
theory Follow
  imports Clock
begin

text \<open>
  The life of a piconet structure: the invariant of its state, the step relation of the calls that
  handle packets, and what is reachable with them.
\<close>

section \<open>The invariant\<close>

text \<open>
  Array sizes and counters; hop reversal has its sequence and its candidates and follows a valid
  CLK1-6; a valid CLK1-27 comes from hop reversal; a piconet that is followed has both clocks.
\<close>

definition pn_inv :: "btbb_piconet \<Rightarrow> bool" where
  "pn_inv pn \<longleftrightarrow>
     afh_wf pn \<and> length (pn_bank pn) = 79 \<and> length (pn_clock6_candidates pn) = 64 \<and>
     length (pn_pattern_indices pn) = 1000 \<and> length (pn_pattern_channels pn) = 1000 \<and>
     0 \<le> pn_packets_observed pn \<and> pn_packets_observed pn \<le> MAX_PATTERN_LENGTH \<and> 0 \<le> pn_winnowed pn \<and>
     (btbb_piconet_get_flag pn BTBB_HOP_REVERSAL_INIT \<longrightarrow>
        btbb_piconet_get_flag pn BTBB_CLK6_VALID \<and> (\<exists>hops cands. reversal_wf pn hops cands)) \<and>
     (btbb_piconet_get_flag pn BTBB_CLK27_VALID \<longrightarrow> btbb_piconet_get_flag pn BTBB_HOP_REVERSAL_INIT) \<and>
     (btbb_piconet_get_flag pn BTBB_FOLLOWING \<longrightarrow>
        btbb_piconet_get_flag pn BTBB_CLK6_VALID \<and> btbb_piconet_get_flag pn BTBB_CLK27_VALID)"

text \<open>The cache holds complete sequences.\<close>

definition hopping_map_wf :: "hopping_map \<Rightarrow> bool" where
  "hopping_map_wf hm \<longleftrightarrow> (\<forall>(k, s) \<in> set hm. length s = SEQUENCE_LENGTH)"

section \<open>Sequences are complete\<close>

lemma foldM_adds:
  assumes "\<And>x s t. x \<in> set xs \<Longrightarrow> f x s = Some t \<Longrightarrow> m t = m s + (w :: nat)" "foldM f xs s = Some t"
  shows "m t = m s + length xs * w"
  using assms
proof (induction xs arbitrary: s)
  case (Cons x xs)
  then obtain u where "f x s = Some u" "foldM f xs u = Some t" by (auto split: bind_splits)
  moreover from this have "m t = m u + length xs * w"
    using Cons.prems(1) by (intro Cons.IH) (blast intro: list.set_intros)+
  ultimately show ?case
    using Cons.prems(1) [of x s u] by simp
qed simp

lemma gen_hops_length:
  assumes "gen_hops pn = Some q"
  obtains hops where "q = pn\<lparr>pn_sequence := Some hops\<rparr>" "length hops = SEQUENCE_LENGTH"
proof -
  let ?m = "\<lambda>(base_f, f, f_dash, hops). length (hops :: int list)"
  have pair: "gen_pair pn a c d f f_dash x hops = Some hops' \<Longrightarrow> length hops' = length hops + 2" for a c d f f_dash x hops hops'
    by (auto simp: gen_pair_def Let_def split: bind_splits)
  have block: "gen_block pn a c k s = Some t \<Longrightarrow> ?m t = ?m s + 64" for a c k s t
    by (auto simp: gen_block_def Let_def split: bind_splits prod.splits
        dest!: foldM_adds [where m = length and w = 2, rotated] intro: pair)
  have K: "foldM (\<lambda>k. gen_block pn (a i) (c j) k) [0..0x1ff] s = Some t \<Longrightarrow> ?m t = ?m s + 512 * 64" for a c i j s t
    by (drule foldM_adds [where m = ?m and w = 64, rotated]) (simp_all add: block del: upto_rec_numeral)
  have J: "foldM (\<lambda>j. foldM (\<lambda>k. gen_block pn (a i) (c j) k) [0..0x1ff]) [0..0x1f] s = Some t \<Longrightarrow>
      ?m t = ?m s + 32 * (512 * 64)" for a c i s t
    by (drule foldM_adds [where m = ?m and w = "512 * 64", rotated]) (simp_all add: K del: upto_rec_numeral)
  have I: "foldM (\<lambda>i. foldM (\<lambda>j. foldM (\<lambda>k. gen_block pn (a i) (c j) k) [0..0x1ff]) [0..0x1f]) [0..0x1f] s = Some t \<Longrightarrow>
      ?m t = ?m s + 32 * (32 * (512 * 64))" for a c s t
    by (drule foldM_adds [where m = ?m and w = "32 * (512 * 64)", rotated]) (simp_all add: J del: upto_rec_numeral)
  from assms obtain base_f f f_dash hops where
    run: "foldM (\<lambda>h. foldM (\<lambda>i. foldM (\<lambda>j. foldM (\<lambda>k.
        gen_block pn (pn_a1 pn XOR i) (pn_c1 pn XOR j) k) [0..0x1ff]) [0..0x1f]) [0..0x1f]) [0..(3 :: int)] (0, 0, 0, []) =
      Some (base_f, f, f_dash, hops)" and q: "q = pn\<lparr>pn_sequence := Some hops\<rparr>"
    by (auto simp: gen_hops_def simp del: upto_rec_numeral split: bind_splits)
  have "?m (base_f, f, f_dash, hops) = ?m (0 :: u32, 0 :: int, 0 :: int, []) + length [0..(3 :: int)] * (32 * (32 * (512 * 64)))"
    by (rule foldM_adds [OF _ run]) (rule I, assumption)
  then have "length hops = SEQUENCE_LENGTH" by (simp add: SEQUENCE_LENGTH_def)
  with q show ?thesis by (rule that)
qed

lemma foldM_preserves:
  assumes "\<And>x s t. f x s = Some t \<Longrightarrow> P s \<Longrightarrow> P t" "foldM f xs s = Some t" "P s"
  shows "P t"
  using assms(2,3) by (induction xs arbitrary: s) (auto split: bind_splits intro: assms(1))

section \<open>What the operations leave alone\<close>

text \<open>The part of the state that the operations below do not change, and what the invariant says of it.\<close>

definition bounded_part where
  "bounded_part pn = (pn_afh_map pn, pn_used_channels pn, length (pn_bank pn), length (pn_clock6_candidates pn),
     length (pn_pattern_indices pn), length (pn_pattern_channels pn), pn_packets_observed pn, pn_winnowed pn)"

definition arrays_wf :: "btbb_piconet \<Rightarrow> bool" where
  "arrays_wf pn \<longleftrightarrow> afh_wf pn \<and> length (pn_bank pn) = 79 \<and> length (pn_clock6_candidates pn) = 64 \<and>
     length (pn_pattern_indices pn) = 1000 \<and> length (pn_pattern_channels pn) = 1000 \<and>
     0 \<le> pn_packets_observed pn \<and> pn_packets_observed pn \<le> MAX_PATTERN_LENGTH \<and> 0 \<le> pn_winnowed pn"

lemma arrays_wf_cong: "bounded_part q = bounded_part pn \<Longrightarrow> arrays_wf q = arrays_wf pn"
  by (simp add: bounded_part_def arrays_wf_def afh_wf_def)

lemma bounded_part_updates [simp]:
  "bounded_part (pn\<lparr>pn_sequence := a\<rparr>) = bounded_part pn"
  "bounded_part (pn\<lparr>pn_clock_candidates := b\<rparr>) = bounded_part pn"
  "bounded_part (pn\<lparr>pn_num_candidates := c\<rparr>) = bounded_part pn"
  "bounded_part (pn\<lparr>pn_clk_offset := d\<rparr>) = bounded_part pn"
  "bounded_part (pn\<lparr>pn_UAP := e\<rparr>) = bounded_part pn"
  "bounded_part (pn\<lparr>pn_first_pkt_time := f\<rparr>) = bounded_part pn"
  "bounded_part (pn\<lparr>pn_total_packets_observed := g\<rparr>) = bounded_part pn"
  "bounded_part (btbb_piconet_set_flag pn fl v) = bounded_part pn"
  "bounded_part (address_precalc addr pn) = bounded_part pn"
  by (simp_all add: bounded_part_def set_flag_fields address_precalc_def)

lemma wr_length: "wr xs i ys = Some zs \<Longrightarrow> length zs = length xs"
  by (auto simp: wr_def split: if_splits)

lemma precalc_frame:
  assumes "precalc pn = Some q"
  shows "bounded_part q = bounded_part pn \<and> pn_flags q = pn_flags pn"
proof -
  let ?P = "\<lambda>(j :: nat, p). bounded_part p = bounded_part pn \<and> pn_flags p = pn_flags pn"
  from assms obtain j where run: "foldM (\<lambda>i (j, pn).
         if btbb_piconet_get_flag pn BTBB_IS_AFH then do {
           let chan = (i * 2) mod BT_NUM_CHANNELS;
           seen \<leftarrow> btbb_piconet_get_channel_seen pn (of_nat chan);
           if seen then do {
             bank \<leftarrow> wr (pn_bank pn) (int j) [int chan];
             Some (j + 1, pn\<lparr>pn_bank := bank\<rparr>)
           }
           else Some (j, pn)
         }
         else do {
           bank \<leftarrow> wr (pn_bank pn) (int i) [int ((i * 2) mod BT_NUM_CHANNELS)];
           Some (j, pn\<lparr>pn_bank := bank\<rparr>)
         }) [0..<BT_NUM_CHANNELS] (0, pn) = Some (j, q)"
    by (auto simp: precalc_def simp del: upt_rec_numeral BT_NUM_CHANNELS_def split: bind_splits)
  have "?P (j, q)"
    by (rule foldM_preserves [where P = ?P, OF _ run])
       (auto simp: bounded_part_def Let_def dest!: wr_length split: if_splits bind_splits)
  then show ?thesis by simp
qed

lemma gen_hop_pattern_frame:
  assumes "gen_hop_pattern pn = Some q"
  obtains hops where "bounded_part q = bounded_part pn" "pn_flags q = pn_flags pn"
    "pn_sequence q = Some hops" "length hops = SEQUENCE_LENGTH"
proof -
  from assms obtain p where p: "precalc pn = Some p"
    "gen_hops (address_precalc (uint ((push_bit 24 (ucast (pn_UAP p)) OR pn_LAP p) AND 0xfffffff)) p) = Some q"
    by (auto simp: gen_hop_pattern_def Let_def split: bind_splits)
  from gen_hops_length [OF p(2)] obtain hops where
    "q = (address_precalc (uint ((push_bit 24 (ucast (pn_UAP p)) OR pn_LAP p) AND 0xfffffff)) p)\<lparr>pn_sequence := Some hops\<rparr>"
    "length hops = SEQUENCE_LENGTH" .
  then show ?thesis
    using precalc_frame [OF p(1)] by (intro that [of hops]) simp_all
qed

lemma get_hop_pattern_frame:
  assumes "get_hop_pattern hm pn = Some (hm', q)" "hopping_map_wf hm"
  obtains hops where "bounded_part q = bounded_part pn" "pn_flags q = pn_flags pn" "hopping_map_wf hm'"
    "pn_sequence q = Some hops" "length hops = SEQUENCE_LENGTH"
proof (cases "hash_find4 hm (hopping_key pn)")
  case None
  with assms(1) obtain hops where q: "gen_hop_pattern pn = Some q" "pn_sequence q = Some hops" "hm' = (hopping_key pn, hops) # hm"
    by (auto simp: get_hop_pattern_def split: bind_splits)
  from gen_hop_pattern_frame [OF q(1)] q(2,3) assms(2) show ?thesis
    by (intro that [of hops]) (auto simp: hopping_map_wf_def)
next
  case (Some hops)
  then obtain k where "(k, hops) \<in> set hm"
    by (auto simp: hash_find4_def find_Some_iff) (metis nth_mem)
  with assms(2) have "length hops = SEQUENCE_LENGTH" by (auto simp: hopping_map_wf_def)
  with assms Some show ?thesis
    by (intro that [of hops]) (auto simp: get_hop_pattern_def)
qed

section \<open>Every operation keeps the invariant\<close>

lemma pn_inv_arrays:
  "pn_inv pn \<longleftrightarrow> arrays_wf pn \<and>
     (btbb_piconet_get_flag pn BTBB_HOP_REVERSAL_INIT \<longrightarrow>
        btbb_piconet_get_flag pn BTBB_CLK6_VALID \<and> (\<exists>hops cands. reversal_wf pn hops cands)) \<and>
     (btbb_piconet_get_flag pn BTBB_CLK27_VALID \<longrightarrow> btbb_piconet_get_flag pn BTBB_HOP_REVERSAL_INIT) \<and>
     (btbb_piconet_get_flag pn BTBB_FOLLOWING \<longrightarrow>
        btbb_piconet_get_flag pn BTBB_CLK6_VALID \<and> btbb_piconet_get_flag pn BTBB_CLK27_VALID)"
  by (simp add: pn_inv_def arrays_wf_def)

lemma flag_of_flags: "pn_flags q = pn_flags pn \<Longrightarrow> btbb_piconet_get_flag q f = btbb_piconet_get_flag pn f"
  by (simp add: btbb_piconet_get_flag_def)

lemma reversal_wf_set_flag [simp]: "reversal_wf (btbb_piconet_set_flag pn f v) = reversal_wf pn"
  by (simp add: reversal_wf_def set_flag_fields fun_eq_iff)

lemma arrays_wf_updates [simp]:
  "arrays_wf (btbb_piconet_set_flag pn f v) = arrays_wf pn"
  "arrays_wf (pn\<lparr>pn_clk_offset := d\<rparr>) = arrays_wf pn"
  "arrays_wf (pn\<lparr>pn_UAP := e\<rparr>) = arrays_wf pn"
  "arrays_wf (pn\<lparr>pn_total_packets_observed := g\<rparr>) = arrays_wf pn"
  "arrays_wf (pn\<lparr>pn_clock_candidates := b\<rparr>) = arrays_wf pn"
  "arrays_wf (pn\<lparr>pn_num_candidates := c\<rparr>) = arrays_wf pn"
  "arrays_wf (pn\<lparr>pn_first_pkt_time := h\<rparr>) = arrays_wf pn"
  by (rule arrays_wf_cong, simp)+

lemma reset_inv:
  assumes "arrays_wf pn" "\<not> btbb_piconet_get_flag pn BTBB_FOLLOWING"
  shows "pn_inv (reset pn)" "\<not> btbb_piconet_get_flag (reset pn) BTBB_FOLLOWING"
    "\<not> btbb_piconet_get_flag (reset pn) BTBB_CLK27_VALID"
proof -
  have "arrays_wf (p\<lparr>pn_packets_observed := 0\<rparr>)" if "arrays_wf p" for p
    using that by (simp add: arrays_wf_def afh_wf_def)
  moreover have "arrays_wf (p\<lparr>pn_clock_candidates := None, pn_sequence := None\<rparr>)" if "arrays_wf p" for p
    using that by (simp add: arrays_wf_def afh_wf_def)
  ultimately have "arrays_wf (reset pn)"
    using assms(1) by (simp add: reset_def Let_def)
  moreover have flags: "\<not> btbb_piconet_get_flag (reset pn) BTBB_FOLLOWING" "\<not> btbb_piconet_get_flag (reset pn) BTBB_CLK27_VALID"
    "\<not> btbb_piconet_get_flag (reset pn) BTBB_HOP_REVERSAL_INIT"
    using assms(2) by (auto simp: reset_def Let_def get_set_flag) (simp_all add: btbb_piconet_get_flag_def)
  ultimately show "pn_inv (reset pn)" "\<not> btbb_piconet_get_flag (reset pn) BTBB_FOLLOWING"
    "\<not> btbb_piconet_get_flag (reset pn) BTBB_CLK27_VALID"
    by (simp_all add: pn_inv_arrays)
qed

lemma winnowed_to_flags:
  "F \<noteq> [] \<Longrightarrow> btbb_piconet_get_flag (winnowed_to pn cands F) f =
     (f = BTBB_CLK27_VALID \<and> length F = 1 \<or> btbb_piconet_get_flag pn f)"
  by (auto simp: winnowed_to_def Let_def get_set_flag) (simp_all add: btbb_piconet_get_flag_def)

lemma winnowed_to_arrays: "arrays_wf pn \<Longrightarrow> F \<noteq> [] \<Longrightarrow> arrays_wf (winnowed_to pn cands F)"
  by (simp add: winnowed_to_def Let_def)

text \<open>The state of a piconet in hop reversal that is not followed yet.\<close>

definition reversing :: "btbb_piconet \<Rightarrow> bool" where
  "reversing pn \<longleftrightarrow> pn_inv pn \<and> btbb_piconet_get_flag pn BTBB_HOP_REVERSAL_INIT \<and> \<not> btbb_piconet_get_flag pn BTBB_FOLLOWING"

lemma reversing_looks_like_afh: "reversing (btbb_piconet_set_flag pn BTBB_LOOKS_LIKE_AFH v) = reversing pn"
  by (simp add: reversing_def pn_inv_arrays get_set_flag)

lemma winnowed_to_inv:
  assumes "reversing pn" "reversal_wf pn hops cands" "length F \<le> length cands"
  shows "if F = [] then pn_inv (winnowed_to pn cands F) \<and> \<not> btbb_piconet_get_flag (winnowed_to pn cands F) BTBB_FOLLOWING
    else reversing (winnowed_to pn cands F)"
proof (cases "F = []")
  case True
  have "arrays_wf (pn\<lparr>pn_clock_candidates := Some cands, pn_num_candidates := 0\<rparr>)"
    "\<not> btbb_piconet_get_flag (pn\<lparr>pn_clock_candidates := Some cands, pn_num_candidates := 0\<rparr>) BTBB_FOLLOWING"
    using assms(1) by (simp_all add: reversing_def pn_inv_arrays btbb_piconet_get_flag_def)
  from reset_inv [OF this] True show ?thesis by (simp add: winnowed_to_def Let_def)
next
  case False
  with assms winnowed_to_arrays [of pn F cands] winnowed_to_wf(1) [OF assms(2) False assms(3)]
  show ?thesis
    by (auto simp: reversing_def pn_inv_arrays winnowed_to_flags)
qed

lemma winnow_loop_inv:
  assumes "winnow_loop stray n pn = Some (n', q)" "reversing pn"
  shows "pn_inv q \<and> \<not> btbb_piconet_get_flag q BTBB_FOLLOWING"
  using assms
proof (induction stray n pn rule: winnow_loop.induct)
  case (1 stray n pn)
  obtain hops cands where wf: "reversal_wf pn hops cands"
    using "1.prems"(2) by (auto simp: reversing_def pn_inv_def)
  show ?case
  proof (cases "pn_winnowed pn < pn_packets_observed pn")
    case False
    then have "winnow_loop stray n pn = Some (n, pn)" by (subst winnow_loop.simps) simp
    with 1 show ?thesis by (simp add: reversing_def)
  next
    case True
    with "1.prems"(1) obtain index channel where rd: "rd (pn_pattern_indices pn) (pn_winnowed pn) = Some index"
      "rd (pn_pattern_channels pn) (pn_winnowed pn) = Some channel"
      by (subst (asm) winnow_loop.simps) (auto split: bind_splits)
    define F where "F = filter (\<lambda>c. channel_at pn hops index c = sint channel) (take (nat (pn_num_candidates pn)) cands)"
    have w: "channel_winnow index (sint channel) pn = Some (int (length F), winnowed_to pn cands F)"
      unfolding F_def by (rule channel_winnow_filter [OF wf])
    have "length F \<le> length cands" unfolding F_def by (rule order.trans [OF length_filter_le]) simp
    note inv = winnowed_to_inv [OF "1.prems"(2) wf this]
    have unfold: "winnow_loop stray n pn = (if length F \<le> 1 then Some (int (length F), winnowed_to pn cands F)
        else do {
          pn \<leftarrow> winnow_afh stray index channel (winnowed_to pn cands F);
          winnow_loop stray (int (length F)) (pn\<lparr>pn_winnowed := pn_winnowed pn + 1\<rparr>)
        })"
      using True by (subst winnow_loop.simps) (simp add: rd w)
    show ?thesis
    proof (cases "length F \<le> 1")
      case True
      with unfold "1.prems"(1) inv show ?thesis by (auto simp: reversing_def split: if_splits)
    next
      case False
      with unfold "1.prems"(1) obtain r where r: "winnow_afh stray index channel (winnowed_to pn cands F) = Some r"
        "winnow_loop stray (int (length F)) (r\<lparr>pn_winnowed := pn_winnowed r + 1\<rparr>) = Some (n', q)"
        by (auto split: bind_splits)
      have "F \<noteq> []" using False by auto
      with inv have rev: "reversing (winnowed_to pn cands F)" by simp
      have "r = winnowed_to pn cands F \<or> r = btbb_piconet_set_flag (winnowed_to pn cands F) BTBB_LOOKS_LIKE_AFH 1"
        using r(1) by (auto simp: winnow_afh_def split: bind_splits if_splits)
      then have "reversing r" using rev reversing_looks_like_afh by auto
      then have "reversing (r\<lparr>pn_winnowed := pn_winnowed r + 1\<rparr>)"
        by (auto simp: reversing_def pn_inv_def afh_wf_def reversal_wf_def btbb_piconet_get_flag_def)
      from "1.IH" [OF True rd(1) rd(2) w refl _ r(1) r(2) this] False show ?thesis by simp
    qed
  qed
qed

lemma init_candidates_frame:
  assumes "init_candidates channel known pn = Some (n, q)" "pn_clock_candidates pn = Some cands"
    "pn_sequence pn = Some hops" "length hops = SEQUENCE_LENGTH"
  obtains c where "q = pn\<lparr>pn_clock_candidates := Some c\<rparr>" "0 \<le> n" "n \<le> int (length c)"
proof -
  let ?P = "\<lambda>(n, q). 0 \<le> n \<and> n \<le> int (length (the (pn_clock_candidates q))) \<and> pn_clock_candidates q \<noteq> None \<and>
    q\<lparr>pn_clock_candidates := None\<rparr> = pn\<lparr>pn_clock_candidates := None\<rparr>"
  have P: "?P (0, pn)" using assms(2) by simp
  have "?P (n, q)"
    by (rule foldM_preserves [where P = ?P, OF _ assms(1) [unfolded init_candidates_def] P])
       (auto simp: wr_def split: bind_splits if_splits)
  moreover from this have "q = pn\<lparr>pn_clock_candidates := Some (the (pn_clock_candidates q))\<rparr>"
    by (cases q, cases pn) auto
  ultimately show ?thesis by (intro that [of "the (pn_clock_candidates q)"]) auto
qed

lemma set_flag_num [simp]: "pn_num_candidates (btbb_piconet_set_flag pn f v) = pn_num_candidates pn"
  by (simp add: set_flag_fields)

lemma init_hop_reversal_inv:
  assumes "btbb_init_hop_reversal malloc hm aliased pn = Some (n, hm', q)" "hopping_map_wf hm" "arrays_wf pn"
    "btbb_piconet_get_flag pn BTBB_CLK6_VALID" "\<not> btbb_piconet_get_flag pn BTBB_FOLLOWING"
  shows "reversing q \<and> hopping_map_wf hm'"
proof -
  let ?size = "if aliased \<noteq> 0 then (SEQUENCE_LENGTH div ALIASED_CHANNELS) div 32
    else (SEQUENCE_LENGTH div BT_NUM_CHANNELS) div 32"
  from assms(1) obtain p where p: "get_hop_pattern hm pn = Some (hm', p)"
    by (auto simp: btbb_init_hop_reversal_def Let_def split: bind_splits)
  with assms(1) obtain channel where channel: "rd (pn_pattern_channels p) 0 = Some channel"
    by (auto simp: btbb_init_hop_reversal_def Let_def split: bind_splits)
  let ?init = "init_candidates (sint channel) (uint ((word_of_int (pn_clk_offset p) + pn_first_pkt_time p) AND 0x3f))
          (p\<lparr>pn_clock_candidates := Some (malloc ?size)\<rparr>)"
  have run: "Some (n, hm', q) = do {
     (num, r) \<leftarrow> ?init;
     Some (num, hm', btbb_piconet_set_flag (btbb_piconet_set_flag (btbb_piconet_set_flag
          (r\<lparr>pn_num_candidates := num, pn_winnowed := 0\<rparr>) BTBB_HOP_REVERSAL_INIT 1) BTBB_CLK27_VALID 0) BTBB_IS_ALIASED aliased)
   }"
    unfolding assms(1) [symmetric] btbb_init_hop_reversal_def p channel Let_def by (simp add: channel case_prod_beta)
  then obtain r where r: "?init = Some (n, r)" by (cases ?init) auto
  with run have q: "q = btbb_piconet_set_flag (btbb_piconet_set_flag (btbb_piconet_set_flag
          (r\<lparr>pn_num_candidates := n, pn_winnowed := 0\<rparr>) BTBB_HOP_REVERSAL_INIT 1) BTBB_CLK27_VALID 0) BTBB_IS_ALIASED aliased"
    by simp
  from get_hop_pattern_frame [OF p assms(2)] obtain hops where
    hops: "bounded_part p = bounded_part pn" "pn_flags p = pn_flags pn" "hopping_map_wf hm'"
      "pn_sequence p = Some hops" "length hops = SEQUENCE_LENGTH" .
  obtain c where c: "r = p\<lparr>pn_clock_candidates := Some c\<rparr>" "0 \<le> n" "n \<le> int (length c)"
    by (rule init_candidates_frame [OF r]) (use hops in simp_all)
  have "arrays_wf p" using arrays_wf_cong [OF hops(1)] assms(3) by simp
  then have "arrays_wf (p\<lparr>pn_clock_candidates := Some c, pn_num_candidates := n, pn_winnowed := 0\<rparr>)"
    by (simp add: arrays_wf_def afh_wf_def)
  then have "arrays_wf q" unfolding q c by simp
  moreover have "reversal_wf q hops c"
    unfolding q c using hops c(2,3) by (simp add: reversal_wf_def)
  moreover have flag: "btbb_piconet_get_flag (r\<lparr>pn_num_candidates := n, pn_winnowed := 0\<rparr>) f = btbb_piconet_get_flag pn f" for f
    using hops(2) by (simp add: c btbb_piconet_get_flag_def)
  ultimately show ?thesis
    using assms(4,5) hops(3) by (auto simp: reversing_def pn_inv_arrays q get_set_flag flag)
qed

text \<open>What the search for the UAP changes: flags of the UAP and CLK1-6, and fields outside the invariant.\<close>

definition searched :: "btbb_piconet \<Rightarrow> btbb_piconet \<Rightarrow> bool" where
  "searched pn q \<longleftrightarrow> bounded_part q = bounded_part pn \<and> pn_sequence q = pn_sequence pn \<and>
     pn_clock_candidates q = pn_clock_candidates pn \<and> pn_num_candidates q = pn_num_candidates pn \<and>
     (\<forall>f. f \<noteq> BTBB_CLK6_VALID \<and> f \<noteq> BTBB_UAP_VALID \<and> f \<noteq> BTBB_GOT_FIRST_PACKET \<longrightarrow>
        btbb_piconet_get_flag q f = btbb_piconet_get_flag pn f) \<and>
     (btbb_piconet_get_flag pn BTBB_CLK6_VALID \<longrightarrow> btbb_piconet_get_flag q BTBB_CLK6_VALID)"

lemma searched_trans: "searched a b \<Longrightarrow> searched b c \<Longrightarrow> searched a c"
  by (simp add: searched_def)

lemma searched_updates:
  "searched pn pn"
  "length c = length (pn_clock6_candidates pn) \<Longrightarrow> searched pn (pn\<lparr>pn_clock6_candidates := c\<rparr>)"
  "searched pn (pn\<lparr>pn_clk_offset := d\<rparr>)"
  "searched pn (pn\<lparr>pn_UAP := e\<rparr>)"
  "searched pn (pn\<lparr>pn_total_packets_observed := g\<rparr>)"
  "searched pn (pn\<lparr>pn_first_pkt_time := h\<rparr>)"
  "searched pn (btbb_piconet_set_flag pn BTBB_CLK6_VALID 1)"
  "searched pn (btbb_piconet_set_flag pn BTBB_UAP_VALID v)"
  "searched pn (btbb_piconet_set_flag pn BTBB_GOT_FIRST_PACKET 1)"
  by (simp_all add: searched_def bounded_part_def get_set_flag)
     (simp_all add: set_flag_fields btbb_piconet_get_flag_def)

lemma searched_inv:
  assumes "searched pn q" "pn_inv pn"
  shows "pn_inv q"
proof -
  have "arrays_wf q" using arrays_wf_cong [of q pn] assms by (simp add: searched_def pn_inv_arrays)
  moreover have "reversal_wf q = reversal_wf pn"
    using assms(1) by (simp add: searched_def reversal_wf_def fun_eq_iff)
  ultimately show ?thesis using assms by (auto simp: pn_inv_arrays searched_def)
qed

definition found_piconet :: "btbb_piconet \<Rightarrow> int \<Rightarrow> u8 \<Rightarrow> btbb_piconet" where
  "found_piconet pn offset UAP =
     (btbb_piconet_set_flag (btbb_piconet_set_flag (pn\<lparr>pn_clk_offset := offset, pn_UAP := UAP\<rparr>)
        BTBB_CLK6_VALID 1) BTBB_UAP_VALID 1)\<lparr>pn_total_packets_observed := 0\<rparr>"

lemma searched_found: "searched pn (found_piconet pn offset UAP)"
  unfolding found_piconet_def
  by (rule searched_trans [OF searched_trans [OF searched_trans [OF searched_trans]]])
     (rule searched_updates(3) searched_updates(4) searched_updates(7) searched_updates(8) searched_updates(5))+

lemma found_flags:
  "btbb_piconet_get_flag (found_piconet pn offset UAP) f =
    (f = BTBB_CLK6_VALID \<or> f = BTBB_UAP_VALID \<or> btbb_piconet_get_flag pn f)"
  by (auto simp: found_piconet_def get_set_flag)

lemma found_eq:
  "btbb_piconet_set_flag (btbb_piconet_set_flag (pn\<lparr>pn_clk_offset := offset, pn_UAP := UAP\<rparr>) BTBB_CLK6_VALID 1)
     BTBB_UAP_VALID 1\<lparr>pn_total_packets_observed := 0\<rparr> = found_piconet pn offset UAP"
  by (simp add: found_piconet_def)

lemma uap_counts_searched:
  assumes "uap_counts counts clkn first_clock remaining pkt pn = Some (found, fc, rem, pkt', q)"
  shows "searched pn q \<and> (found \<longrightarrow> btbb_piconet_get_flag q BTBB_CLK6_VALID)"
  using assms
proof (induction counts arbitrary: first_clock remaining pkt pn)
  case Nil
  then show ?case by (simp add: searched_updates)
next
  case (Cons count counts)
  let ?clock = "(of_nat count + clkn - pn_first_pkt_time pn) mod 64"
  have stored: "?case"
    if "uap_counts counts clkn a b c (pn\<lparr>pn_clock6_candidates := c6\<rparr>) = Some (found, fc, rem, pkt', q)"
      "wr (pn_clock6_candidates pn) (int count) [v] = Some c6" for a b c c6 v
    using Cons.IH [OF that(1)] searched_trans searched_updates(2) [OF wr_length [OF that(2)]] by blast
  obtain cand where cand: "rd (pn_clock6_candidates pn) (int count) = Some cand"
    using Cons.prems by (auto split: bind_splits)
  show ?case
  proof (cases "cand > -1 \<or> \<not> btbb_piconet_get_flag pn BTBB_GOT_FIRST_PACKET")
    case False
    with Cons.prems cand show ?thesis by (intro Cons.IH) simp
  next
    case True
    with Cons.prems cand obtain UAP p where tried: "try_clock ?clock pkt = Some (UAP, p)"
      by (auto simp: Let_def split: bind_splits)
    let ?check = "if \<not> btbb_piconet_get_flag pn BTBB_GOT_FIRST_PACKET \<or> uint UAP = cand then crc_check ?clock p else Some (-1, p)"
    from True Cons.prems cand tried obtain chk r where check: "?check = Some (chk, r)"
      by (cases ?check) (auto simp: Let_def)
    let ?chk = "if btbb_piconet_get_flag pn BTBB_UAP_VALID \<and> UAP \<noteq> pn_UAP pn then -1 else chk"
    show ?thesis
      using Cons.prems True unfolding uap_counts.simps cand bind.bind_lunit Let_def tried prod.case check found_eq
      by (auto simp: found_flags searched_found dest: stored split: if_splits bind_splits)
  qed
qed

text \<open>Marking a channel.\<close>

lemma channel_seen_inv:
  assumes "btbb_piconet_set_channel_seen pn c = Some (r, q)" "pn_inv pn"
  shows "pn_inv q \<and> pn_flags q = pn_flags pn"
proof -
  have afh: "afh_wf pn" using assms(2) by (simp add: pn_inv_def)
  have c: "unat c < 80"
  proof (rule ccontr)
    assume "\<not> unat c < 80"
    then have "10 \<le> unat c div 8" by simp
    with afh assms(1) show False
      by (auto simp: btbb_piconet_set_channel_seen_def Let_def rd_def afh_wf_def split: bind_splits if_splits)
  qed
  have "afh_wf q" by (rule set_channel_seen_wf [OF afh c assms(1)])
  moreover have "\<exists>m u. q = pn\<lparr>pn_afh_map := m, pn_used_channels := u\<rparr>"
  proof -
    have "\<exists>m u. pn = pn\<lparr>pn_afh_map := m, pn_used_channels := u\<rparr>"
      by (intro exI [of _ "pn_afh_map pn"] exI [of _ "pn_used_channels pn"]) simp
    with assms(1) c afh show ?thesis
      by (auto simp: set_channel_seen_eq afh_wf_def split: if_splits)
  qed
  ultimately show ?thesis
    using assms(2) by (auto simp: pn_inv_def reversal_wf_def btbb_piconet_get_flag_def)
qed

text \<open>Recording an observed hop.\<close>

lemma record_hop_inv:
  assumes "wr (pn_pattern_indices pn) (pn_packets_observed pn) [i] = Some indices"
    and "wr (pn_pattern_channels pn) (pn_packets_observed pn) [c] = Some channels" "pn_inv pn"
  shows "pn_inv (pn\<lparr>pn_pattern_indices := indices, pn_pattern_channels := channels,
      pn_packets_observed := pn_packets_observed pn + 1, pn_total_packets_observed := t\<rparr>)"
proof -
  have "pn_packets_observed pn < 1000"
    using assms by (auto simp: wr_def pn_inv_def split: if_splits)
  then show ?thesis
    using assms(3) wr_length [OF assms(1)] wr_length [OF assms(2)]
    by (auto simp: pn_inv_def afh_wf_def reversal_wf_def btbb_piconet_get_flag_def)
qed

lemma uap_from_header_inv:
  assumes "btbb_uap_from_header pkt pn = Some (r, pkt', q)" "pn_inv pn" "\<not> btbb_piconet_get_flag pn BTBB_FOLLOWING"
  shows "pn_inv q \<and> \<not> btbb_piconet_get_flag q BTBB_FOLLOWING \<and> (r \<noteq> 0 \<longrightarrow> btbb_piconet_get_flag q BTBB_CLK6_VALID)"
proof -
  let ?clkn = "pkt_clkn pkt"
  define p0 where "p0 = (if \<not> btbb_piconet_get_flag pn BTBB_GOT_FIRST_PACKET then pn\<lparr>pn_first_pkt_time := ?clkn\<rparr> else pn)"
  have "searched pn p0" by (simp add: p0_def searched_updates)
  then have p0: "pn_inv p0" "\<not> btbb_piconet_get_flag p0 BTBB_FOLLOWING"
    using searched_inv assms(2,3) by (auto simp: searched_def)
  from assms(1) obtain x p1 where p1: "btbb_piconet_set_channel_seen p0 (pkt_channel pkt) = Some (x, p1)"
    unfolding btbb_uap_from_header_def Let_def p0_def [symmetric] by (auto split: bind_splits)
  with channel_seen_inv [OF this p0(1)] p0(2)
  have i1: "pn_inv p1" "\<not> btbb_piconet_get_flag p1 BTBB_FOLLOWING" by (simp_all add: btbb_piconet_get_flag_def)
  note run1 = assms(1) [unfolded btbb_uap_from_header_def Let_def p0_def [symmetric] p1 bind.bind_lunit prod.case]
  show ?thesis
  proof (cases "pn_packets_observed p1 < MAX_PATTERN_LENGTH")
    case False
    with run1 reset_inv [of p1] i1 show ?thesis by (auto simp: pn_inv_arrays)
  next
    case True
    with run1 obtain indices channels where w:
      "wr (pn_pattern_indices p1) (pn_packets_observed p1) [sint (?clkn - pn_first_pkt_time p1)] = Some indices"
      "wr (pn_pattern_channels p1) (pn_packets_observed p1) [pkt_channel pkt] = Some channels"
      by (auto split: bind_splits)
    define p2 where "p2 = p1\<lparr>pn_pattern_indices := indices, pn_pattern_channels := channels,
       pn_packets_observed := pn_packets_observed p1 + 1, pn_total_packets_observed := pn_total_packets_observed p1 + 1\<rparr>"
    have i2: "pn_inv p2" "\<not> btbb_piconet_get_flag p2 BTBB_FOLLOWING"
      using record_hop_inv [OF w i1(1)] i1(2) by (simp_all add: p2_def)
    note run2 = run1 [unfolded if_P [OF True] w bind.bind_lunit p2_def [symmetric]]
    from run2 obtain found fc rem r3 p3 where
      u: "uap_counts [0..<64] ?clkn 0 0 pkt p2 = Some (found, fc, rem, r3, p3)"
      by (cases "uap_counts [0..<64] ?clkn 0 0 pkt p2") auto
    note s3 = uap_counts_searched [OF u]
    note run3 = run2 [unfolded u bind.bind_lunit prod.case]
    let ?g = "btbb_piconet_set_flag p3 BTBB_GOT_FIRST_PACKET 1"
    have s4: "searched p2 ?g" using s3 searched_trans searched_updates(9) by blast
    have ok: "pn_inv z \<and> \<not> btbb_piconet_get_flag z BTBB_FOLLOWING" if "searched p2 z" for z
      using searched_inv [OF that i2(1)] that i2(2) by (auto simp: searched_def)
    show ?thesis
    proof (cases "found \<or> rem \<noteq> 0")
      case False
      with run3 reset_inv [of ?g] ok [OF s4] show ?thesis
        by (auto simp: pn_inv_arrays split: if_splits bind_splits)
    next
      case True
      with run3 s3 ok [of p3] ok [OF s4] ok [OF searched_trans [OF s4 searched_found]]
      show ?thesis
        unfolding found_eq by (auto simp: found_flags split: if_splits bind_splits)
    qed
  qed
qed

lemma winnow_inv:
  "btbb_winnow stray pn = Some (n, q) \<Longrightarrow> reversing pn \<Longrightarrow> pn_inv q \<and> \<not> btbb_piconet_get_flag q BTBB_FOLLOWING"
  unfolding btbb_winnow_def by (rule winnow_loop_inv)

lemma try_hop_inv:
  assumes "try_hop malloc stray hm pkt pn = Some (hm', pkt', q)" "hopping_map_wf hm" "pn_inv pn"
    "\<not> btbb_piconet_get_flag pn BTBB_FOLLOWING"
  shows "hopping_map_wf hm' \<and> pn_inv q \<and> \<not> btbb_piconet_get_flag q BTBB_FOLLOWING"
proof -
  from assms(1) obtain v p where d: "btbb_decode pkt = Some (v, p)"
    by (cases "btbb_decode pkt") (auto simp: try_hop_def Let_def)
  let ?body = "if btbb_piconet_get_flag pn BTBB_HOP_REVERSAL_INIT then do {
          indices \<leftarrow> wr (pn_pattern_indices pn) (pn_packets_observed pn) [sint (pkt_clkn p - pn_first_pkt_time pn)];
          channels \<leftarrow> wr (pn_pattern_channels pn) (pn_packets_observed pn) [pkt_channel p];
          let pn = pn\<lparr>pn_pattern_indices := indices, pn_pattern_channels := channels,
                      pn_packets_observed := pn_packets_observed pn + 1,
                      pn_total_packets_observed := pn_total_packets_observed pn + 1\<rparr>;
          (_, pn) \<leftarrow> btbb_winnow stray pn;
          Some (hm, p, pn)
        }
        else if btbb_piconet_get_flag pn BTBB_CLK6_VALID then do {
          (_, pkt, pn) \<leftarrow> btbb_uap_from_header p pn;
          Some (hm, pkt, pn)
        }
        else do {
          (found, pkt, r) \<leftarrow> btbb_uap_from_header p pn;
          if found \<noteq> 0 \<and> pn_UAP pn = pn_UAP r then do {
            (_, hm, r) \<leftarrow> btbb_init_hop_reversal malloc hm 0 r;
            (_, r) \<leftarrow> btbb_winnow stray r;
            Some (hm, pkt, r)
          }
          else Some (hm, pkt, r)
        }"
  have body: "hopping_map_wf hm1 \<and> pn_inv q1 \<and> \<not> btbb_piconet_get_flag q1 BTBB_FOLLOWING"
    if b: "?body = Some (hm1, p1, q1)" for hm1 p1 q1
  proof (cases "btbb_piconet_get_flag pn BTBB_HOP_REVERSAL_INIT")
    case True
    with b obtain indices channels n where w:
      "wr (pn_pattern_indices pn) (pn_packets_observed pn) [sint (pkt_clkn p - pn_first_pkt_time pn)] = Some indices"
      "wr (pn_pattern_channels pn) (pn_packets_observed pn) [pkt_channel p] = Some channels"
      "btbb_winnow stray (pn\<lparr>pn_pattern_indices := indices, pn_pattern_channels := channels,
         pn_packets_observed := pn_packets_observed pn + 1,
         pn_total_packets_observed := pn_total_packets_observed pn + 1\<rparr>) = Some (n, q1)" "hm1 = hm"
      by (auto simp: Let_def split: bind_splits)
    have "reversing (pn\<lparr>pn_pattern_indices := indices, pn_pattern_channels := channels,
         pn_packets_observed := pn_packets_observed pn + 1,
         pn_total_packets_observed := pn_total_packets_observed pn + 1\<rparr>)"
      using record_hop_inv [OF w(1,2) assms(3)] True assms(4) by (simp add: reversing_def)
    with winnow_inv [OF w(3)] w(4) assms(2) show ?thesis by simp
  next
    case False
    show ?thesis
    proof (cases "btbb_piconet_get_flag pn BTBB_CLK6_VALID")
      case True
      with False b uap_from_header_inv [OF _ assms(3,4)] assms(2) show ?thesis
        by (auto split: bind_splits)
    next
      case noclk: False
      from False noclk b obtain found r where u: "btbb_uap_from_header p pn = Some (found, p1, r)"
        by (auto split: bind_splits if_splits)
      note inv = uap_from_header_inv [OF u assms(3,4)]
      show ?thesis
      proof (cases "found \<noteq> 0 \<and> pn_UAP pn = pn_UAP r")
        case False
        with u b inv assms(2) noclk \<open>\<not> btbb_piconet_get_flag pn BTBB_HOP_REVERSAL_INIT\<close> show ?thesis by auto
      next
        case True
        with u b noclk \<open>\<not> btbb_piconet_get_flag pn BTBB_HOP_REVERSAL_INIT\<close> obtain n m r2 where
          i: "btbb_init_hop_reversal malloc hm 0 r = Some (n, hm1, r2)" "btbb_winnow stray r2 = Some (m, q1)"
          by (auto split: bind_splits)
        have "arrays_wf r" "btbb_piconet_get_flag r BTBB_CLK6_VALID" "\<not> btbb_piconet_get_flag r BTBB_FOLLOWING"
          using inv True by (simp_all add: pn_inv_arrays)
        from init_hop_reversal_inv [OF i(1) assms(2) this] winnow_inv [OF i(2)] show ?thesis by simp
      qed
    qed
  qed
  from assms(1) have "do {
     (hm, pkt, r) \<leftarrow> ?body;
     if \<not> btbb_piconet_get_flag r BTBB_UAP_VALID
     then Some (hm, pkt, (btbb_piconet_set_flag r BTBB_UAP_VALID 1)\<lparr>pn_UAP := pn_UAP pn\<rparr>)
     else Some (hm, pkt, r)} = Some (hm', pkt', q)"
    unfolding try_hop_def d Let_def bind.bind_lunit prod.case .
  then obtain hm1 p1 q1 where b: "?body = Some (hm1, p1, q1)" and
    q: "hm' = hm1" "q = q1 \<or> q = (btbb_piconet_set_flag q1 BTBB_UAP_VALID 1)\<lparr>pn_UAP := pn_UAP pn\<rparr>"
    by (cases ?body) (auto split: if_splits)
  have "searched q1 ((btbb_piconet_set_flag q1 BTBB_UAP_VALID 1)\<lparr>pn_UAP := pn_UAP pn\<rparr>)"
    using searched_trans searched_updates(4,8) by blast
  then have "searched q1 q" using q(2) searched_updates(1) by auto
  with body [OF b] q(1) show ?thesis
    using searched_inv by (auto simp: searched_def)
qed

lemma process_piconet_cases:
  assumes "process_piconet malloc stray hm pkt pn = Some (rv, hm', pkt', q)" "hopping_map_wf hm" "pn_inv pn"
  obtains
    (keep) p where "pn_inv p" "pn_flags p = pn_flags pn" "q = p" "hm' = hm" "rv = 0"
  | (search) "\<not> btbb_piconet_get_flag pn BTBB_FOLLOWING" "hopping_map_wf hm'" "pn_inv q"
      "\<not> btbb_piconet_get_flag q BTBB_FOLLOWING" "rv = 0"
  | (follow) p where "\<not> btbb_piconet_get_flag pn BTBB_FOLLOWING" "hopping_map_wf hm'" "pn_inv p"
      "btbb_piconet_get_flag p BTBB_CLK6_VALID" "btbb_piconet_get_flag p BTBB_CLK27_VALID"
      "q = btbb_piconet_set_flag p BTBB_FOLLOWING 1" "rv = -1"
proof -
  from assms(1) obtain x p where p: "btbb_piconet_set_channel_seen pn (pkt_channel pkt) = Some (x, p)"
    by (auto simp: process_piconet_def split: bind_splits)
  note inv = channel_seen_inv [OF p assms(3)]
  note run = assms(1) [unfolded process_piconet_def p bind.bind_lunit prod.case]
  have flag: "btbb_piconet_get_flag p f = btbb_piconet_get_flag pn f" for f
    using inv by (simp add: btbb_piconet_get_flag_def)
  let ?header = "if btbb_piconet_get_flag p BTBB_LAP_VALID then btbb_header_present pkt else Some False"
  from run obtain h where h: "?header = Some h" by (cases ?header) auto
  show ?thesis
  proof (cases "h \<and> \<not> btbb_piconet_get_flag p BTBB_FOLLOWING")
    case False
    with run h have "q = p \<and> hm' = hm \<and> rv = 0"
      by (auto simp: Let_def split: if_splits bind_splits)
    with inv show ?thesis by (intro keep) auto
  next
    case True
    then have nf: "\<not> btbb_piconet_get_flag p BTBB_FOLLOWING" by simp
    show ?thesis
    proof (cases "btbb_piconet_get_uap p = 0")
      case uap: True
      with run h True obtain r where "btbb_uap_from_header pkt p = Some (r, pkt', q)" "hm' = hm" "rv = 0"
        by (auto split: bind_splits)
      with uap_from_header_inv [OF this(1) _ nf] inv assms(2) nf show ?thesis
        by (intro search) (auto simp: flag)
    next
      case uap: False
      from run h True uap obtain r where t: "try_hop malloc stray hm pkt p = Some (hm', pkt', r)" and
        q: "if btbb_piconet_get_flag r BTBB_CLK6_VALID \<and> btbb_piconet_get_flag r BTBB_CLK27_VALID
            then q = btbb_piconet_set_flag r BTBB_FOLLOWING 1 \<and> rv = -1 else q = r \<and> rv = 0"
        by (auto split: bind_splits if_splits)
      from try_hop_inv [OF t assms(2) _ nf] inv
      have r: "hopping_map_wf hm'" "pn_inv r" "\<not> btbb_piconet_get_flag r BTBB_FOLLOWING" by auto
      show ?thesis
      proof (cases "btbb_piconet_get_flag r BTBB_CLK6_VALID \<and> btbb_piconet_get_flag r BTBB_CLK27_VALID")
        case True
        with q r nf show ?thesis by (intro follow [of r]) (auto simp: flag)
      next
        case False
        with q r nf show ?thesis by (intro search) (auto simp: flag)
      qed
    qed
  qed
qed

lemma process_piconet_inv:
  assumes "process_piconet malloc stray hm pkt pn = Some (rv, hm', pkt', q)" "hopping_map_wf hm" "pn_inv pn"
  shows "hopping_map_wf hm' \<and> pn_inv q"
  using assms
proof (cases rule: process_piconet_cases)
  case (follow p)
  then show ?thesis by (auto simp: pn_inv_arrays get_set_flag)
qed (use assms in auto)

section \<open>Reachable states\<close>

text \<open>
  What a host program does with a piconet: hand it a packet, tell it its UAP, its clock offset or
  whether it hops adaptively, and mark a channel as seen. The state is the cache and the piconet.
\<close>

inductive piconet_step :: "hopping_map \<times> btbb_piconet \<Rightarrow> hopping_map \<times> btbb_piconet \<Rightarrow> bool" where
  packet: "process_piconet malloc stray hm pkt pn = Some (rv, hm', pkt', pn') \<Longrightarrow>
    piconet_step (hm, pn) (hm', pn')"
| uap: "piconet_step (hm, pn) (hm, btbb_piconet_set_uap pn u)"
| offset: "piconet_step (hm, pn) (hm, btbb_piconet_set_clk_offset pn off)"
| afh: "piconet_step (hm, pn) (hm, btbb_piconet_set_flag pn BTBB_IS_AFH v)"
| seen: "btbb_piconet_set_channel_seen pn c = Some (r, pn') \<Longrightarrow> piconet_step (hm, pn) (hm, pn')"

inductive piconet_reachable :: "hopping_map \<times> btbb_piconet \<Rightarrow> bool" where
  new: "piconet_reachable ([], btbb_init_piconet btbb_piconet_new lap)"
| step: "piconet_reachable s \<Longrightarrow> piconet_step s t \<Longrightarrow> piconet_reachable t"

inductive_cases piconet_stepE: "piconet_step (hm, pn) (hm', pn')"

lemma new_piconet_inv: "pn_inv (btbb_init_piconet btbb_piconet_new lap)"
  using new_piconet_channels(1)
  by (simp add: pn_inv_def btbb_init_piconet_def set_flag_fields afh_wf_def btbb_piconet_get_flag_def btbb_piconet_new_def)

lemma step_inv:
  assumes "piconet_step (hm, pn) (hm', pn')" "hopping_map_wf hm" "pn_inv pn"
  shows "hopping_map_wf hm' \<and> pn_inv pn'"
  using assms(1)
proof (cases rule: piconet_stepE [consumes 1])
  case (1 malloc stray pkt rv pkt')
  with process_piconet_inv assms(2,3) show ?thesis by blast
next
  case (2 u)
  have "searched pn (btbb_piconet_set_uap pn u)"
    unfolding btbb_piconet_set_uap_def using searched_trans searched_updates(4,8) by blast
  with 2 searched_inv assms(2,3) show ?thesis by blast
next
  case (3 off)
  with 3 searched_inv [OF searched_updates(3) assms(3)] assms(2) show ?thesis
    by (simp add: btbb_piconet_set_clk_offset_def)
next
  case (4 v)
  with 4 assms(2,3) show ?thesis by (simp add: pn_inv_arrays get_set_flag)
next
  case (5 c r)
  with channel_seen_inv assms(2,3) show ?thesis by blast
qed




definition short_packet :: btbb_packet where
  "short_packet = (example_packet 2)\<lparr>pkt_length := 100\<rparr>"


section \<open>The right clock survives the header search\<close>

text \<open>
  \<open>p\<close> is the received packet \<open>pkt\<close> after some decoding attempts: the attempts change the fields of
  the result, not the symbols received.
\<close>

definition same_input :: "btbb_packet \<Rightarrow> btbb_packet \<Rightarrow> bool" where
  "same_input pkt p \<longleftrightarrow> packet_wf p \<and> pkt_symbols p = pkt_symbols pkt \<and> pkt_length p = pkt_length pkt \<and>
     btbb_packet_get_flag p BTBB_WHITENED = btbb_packet_get_flag pkt BTBB_WHITENED"

text \<open>Header and payload can be tried with this clock without an access outside an array.\<close>

definition clock_in_bounds :: "btbb_packet \<Rightarrow> u32 \<Rightarrow> bool" where
  "clock_in_bounds pkt clock \<longleftrightarrow> (\<forall>p. same_input pkt p \<longrightarrow>
     (\<exists>u p1 v p2. try_clock clock p = Some (u, p1) \<and> same_input pkt p1 \<and>
        crc_check clock p1 = Some (v, p2) \<and> same_input pkt p2))"

text \<open>With this clock the header gives the UAP \<open>u\<close>, and the CRC does not exclude it.\<close>

definition clock_agrees :: "btbb_packet \<Rightarrow> u32 \<Rightarrow> u8 \<Rightarrow> bool" where
  "clock_agrees pkt clock u \<longleftrightarrow> (\<forall>p p1. same_input pkt p \<longrightarrow> try_clock clock p = Some (u, p1) \<longrightarrow>
     (\<forall>v p2. crc_check clock p1 = Some (v, p2) \<longrightarrow> 0 < v)) \<and>
     (\<forall>p w p1. same_input pkt p \<longrightarrow> try_clock clock p = Some (w, p1) \<longrightarrow> w = u)"

definition search_clock :: "btbb_packet \<Rightarrow> btbb_piconet \<Rightarrow> nat \<Rightarrow> u32" where
  "search_clock pkt pn count = (of_nat count + pkt_clkn pkt - pn_first_pkt_time pn) mod 64"

text \<open>The candidate \<open>c0\<close> stands for UAP \<open>u\<close>, unless no packet was seen yet.\<close>

definition candidate :: "btbb_piconet \<Rightarrow> nat \<Rightarrow> u8 \<Rightarrow> bool" where
  "candidate pn c0 u \<longleftrightarrow> c0 < 64 \<and> length (pn_clock6_candidates pn) = 64 \<and>
     (btbb_piconet_get_flag pn BTBB_GOT_FIRST_PACKET \<longrightarrow> pn_clock6_candidates pn ! c0 = uint u) \<and>
     (btbb_piconet_get_flag pn BTBB_UAP_VALID \<longrightarrow> pn_UAP pn = u)"

text \<open>One turn of the loop, with the decoders in bounds.\<close>

declare uap_counts.simps(2) [simp del]

lemma uap_counts_turn:
  assumes "clock_in_bounds pkt (search_clock pkt pn count)" "same_input pkt p" "count < 64"
    "length (pn_clock6_candidates pn) = 64"
  obtains (found) q where "same_input pkt q" "uap_counts (count # counts) (pkt_clkn pkt) fc rem p pn = Some (True, fc, rem, q, found_piconet pn
        (uint ((of_nat count - (pn_first_pkt_time pn AND 0x3f)) AND 0x3f)) (fst (the (try_clock (search_clock pkt pn count) p))))"
  | (skip) q c where "uap_counts (count # counts) (pkt_clkn pkt) fc rem p pn =
        uap_counts counts (pkt_clkn pkt) fc rem q (pn\<lparr>pn_clock6_candidates := c\<rparr>)"
      "same_input pkt q" "\<And>i. i \<noteq> count \<Longrightarrow> c ! i = pn_clock6_candidates pn ! i" "length c = 64"
      "\<And>u. clock_agrees pkt (search_clock pkt pn count) u \<Longrightarrow> candidate pn count u \<Longrightarrow> False"
  | (remain) q c u p1 where "uap_counts (count # counts) (pkt_clkn pkt) fc rem p pn =
        uap_counts counts (pkt_clkn pkt) (int count) (rem + 1) q (pn\<lparr>pn_clock6_candidates := c\<rparr>)"
      "same_input pkt q" "c = (pn_clock6_candidates pn)[count := uint u]"
      "try_clock (search_clock pkt pn count) p = Some (u, p1)"
proof -
  let ?clock = "search_clock pkt pn count" and ?c6 = "pn_clock6_candidates pn"
  obtain u p1 v p2 where t: "try_clock ?clock p = Some (u, p1)" "same_input pkt p1"
    "crc_check ?clock p1 = Some (v, p2)" "same_input pkt p2"
    using assms(1,2) by (auto simp: clock_in_bounds_def)
  have cand: "rd ?c6 (int count) = Some (?c6 ! count)" and wr: "wr ?c6 (int count) [x] = Some (?c6[count := x])" for x
    using assms(3,4) by (simp_all add: rd_nat wr_one)
  note start = uap_counts.simps(2) [of count counts "pkt_clkn pkt" fc rem p pn, unfolded cand bind.bind_lunit]
  show ?thesis
  proof (cases "?c6 ! count > -1 \<or> \<not> btbb_piconet_get_flag pn BTBB_GOT_FIRST_PACKET")
    case False
    then have dead: "candidate pn count w \<Longrightarrow> False" for w
    proof -
      have "-1 < uint w" by (rule order.strict_trans2 [OF _ uint_ge_0]) simp
      then show "candidate pn count w \<Longrightarrow> False" using False by (auto simp: candidate_def)
    qed
    have "pn\<lparr>pn_clock6_candidates := ?c6\<rparr> = pn" by simp
    with False start assms(2,4) dead show ?thesis by (intro skip [of p ?c6]) auto
  next
    case True
    define checked where "checked \<longleftrightarrow> \<not> btbb_piconet_get_flag pn BTBB_GOT_FIRST_PACKET \<or> uint u = ?c6 ! count"
    define r where "r = (if checked then p2 else p1)"
    define chk where "chk = (if btbb_piconet_get_flag pn BTBB_UAP_VALID \<and> u \<noteq> pn_UAP pn then -1 else if checked then v else -1)"
    have r: "same_input pkt r" using t by (simp add: r_def)
    have check: "(if \<not> btbb_piconet_get_flag pn BTBB_GOT_FIRST_PACKET \<or> uint u = ?c6 ! count
        then crc_check ?clock p1 else Some (-1, p1)) = Some (if checked then v else -1, r)"
      using t(3) by (simp add: checked_def r_def)
    note step = start [unfolded if_P [OF True] Let_def, folded search_clock_def, unfolded t(1) bind.bind_lunit prod.case
        check, folded chk_def, unfolded wr bind.bind_lunit]
    show ?thesis
    proof (cases "chk = -1 \<or> chk = 0")
      case bad: True
      have "False" if agrees: "clock_agrees pkt ?clock w" "candidate pn count w" for w
      proof -
        have "u = w" "0 < v" using agrees(1) assms(2) t(1,3) unfolding clock_agrees_def by blast+
        with agrees(2) have "chk = v"
          by (auto simp: chk_def checked_def candidate_def)
        with bad \<open>0 < v\<close> show False by auto
      qed
      with step bad r assms(4) show ?thesis by (intro skip [of r "?c6[count := -1]"]) auto
    next
      case good: False
      show ?thesis
      proof (cases "chk = 1 \<or> chk = 2")
        case True
        with step good r t(1) show ?thesis by (intro remain [of r "?c6[count := uint u]"]) auto
      next
        case False
        with step good r t(1) show ?thesis unfolding found_eq by (intro found [of r]) simp_all
      qed
    qed
  qed
qed

lemma candidate_update:
  "candidate pn c0 u \<Longrightarrow> length c = 64 \<Longrightarrow> c ! c0 = pn_clock6_candidates pn ! c0 \<Longrightarrow>
     candidate (pn\<lparr>pn_clock6_candidates := c\<rparr>) c0 u"
  by (simp add: candidate_def)

lemma search_clock_update [simp]:
  "search_clock pkt (pn\<lparr>pn_clock6_candidates := c\<rparr>) = search_clock pkt pn"
  by (simp add: search_clock_def fun_eq_iff)

text \<open>The loop, before and after it has come to the candidate \<open>c0\<close>.\<close>

lemma uap_counts_keeps:
  assumes "\<forall>count \<in> set counts. count < 64 \<and> clock_in_bounds pkt (search_clock pkt pn count)" "distinct counts"
    and "same_input pkt p" "candidate pn c0 u" "clock_agrees pkt (search_clock pkt pn c0) u"
    and "c0 \<notin> set counts \<Longrightarrow> pn_clock6_candidates pn ! c0 = uint u"
  shows "\<exists>found fc' rem' q pn'. uap_counts counts (pkt_clkn pkt) fc rem p pn = Some (found, fc', rem', q, pn') \<and>
    same_input pkt q \<and> btbb_piconet_get_flag pn' BTBB_UAP_VALID = (found \<or> btbb_piconet_get_flag pn BTBB_UAP_VALID) \<and>
    (found \<longrightarrow> btbb_piconet_get_flag pn' BTBB_CLK6_VALID) \<and>
    (\<not> found \<longrightarrow> pn_clock6_candidates pn' ! c0 = uint u \<and> length (pn_clock6_candidates pn') = 64 \<and>
       pn' = pn\<lparr>pn_clock6_candidates := pn_clock6_candidates pn'\<rparr> \<and>
       rem + of_bool (c0 \<in> set counts) \<le> rem' \<and>
       (rem' = rem \<longrightarrow> fc' = fc) \<and> (rem' = rem + 1 \<and> c0 \<in> set counts \<longrightarrow> fc' = int c0))"
  using assms
proof (induction counts arbitrary: fc rem p pn)
  case Nil
  then show ?case by (auto simp: candidate_def)
next
  case (Cons count counts)
  have here: "clock_in_bounds pkt (search_clock pkt pn count)" "count < 64" and len: "length (pn_clock6_candidates pn) = 64"
    using Cons.prems(1,4) by (auto simp: candidate_def)
  have later: "\<forall>count \<in> set counts. count < 64 \<and> clock_in_bounds pkt (search_clock pkt pn count)" "distinct counts"
    using Cons.prems(1,2) by simp_all
  from here(1) Cons.prems(3) here(2) len show ?case
  proof (cases rule: uap_counts_turn [where counts = counts and fc = fc and rem = rem])
    case (found q)
    show ?thesis unfolding found(2) using found(1) by (auto simp: found_flags)
  next
    case (skip q c)
    have ne: "count \<noteq> c0" using skip(5) Cons.prems(4,5) by blast
    let ?pn = "pn\<lparr>pn_clock6_candidates := c\<rparr>"
    have "\<exists>found fc' rem' q' pn'. uap_counts counts (pkt_clkn pkt) fc rem q ?pn = Some (found, fc', rem', q', pn') \<and>
      same_input pkt q' \<and> btbb_piconet_get_flag pn' BTBB_UAP_VALID = (found \<or> btbb_piconet_get_flag ?pn BTBB_UAP_VALID) \<and>
      (found \<longrightarrow> btbb_piconet_get_flag pn' BTBB_CLK6_VALID) \<and>
      (\<not> found \<longrightarrow> pn_clock6_candidates pn' ! c0 = uint u \<and> length (pn_clock6_candidates pn') = 64 \<and>
         pn' = ?pn\<lparr>pn_clock6_candidates := pn_clock6_candidates pn'\<rparr> \<and>
         rem + of_bool (c0 \<in> set counts) \<le> rem' \<and>
         (rem' = rem \<longrightarrow> fc' = fc) \<and> (rem' = rem + 1 \<and> c0 \<in> set counts \<longrightarrow> fc' = int c0))"
      using later skip(2-4) ne Cons.prems(4-6) by (intro Cons.IH) (auto intro!: candidate_update)
    with ne show ?thesis unfolding skip(1) by auto
  next
    case (remain q c w p1)
    have w: "count = c0 \<Longrightarrow> w = u" using remain(4) Cons.prems(3,5) unfolding clock_agrees_def by blast
    have c: "length c = 64" "c ! c0 = (if count = c0 then uint u else pn_clock6_candidates pn ! c0)"
      using remain(3) w len here(2) by auto
    let ?pn = "pn\<lparr>pn_clock6_candidates := c\<rparr>"
    have cand: "candidate ?pn c0 u" using Cons.prems(4) c by (auto simp: candidate_def)
    have "\<exists>found fc' rem' q' pn'. uap_counts counts (pkt_clkn pkt) (int count) (rem + 1) q ?pn = Some (found, fc', rem', q', pn') \<and>
      same_input pkt q' \<and> btbb_piconet_get_flag pn' BTBB_UAP_VALID = (found \<or> btbb_piconet_get_flag ?pn BTBB_UAP_VALID) \<and>
      (found \<longrightarrow> btbb_piconet_get_flag pn' BTBB_CLK6_VALID) \<and>
      (\<not> found \<longrightarrow> pn_clock6_candidates pn' ! c0 = uint u \<and> length (pn_clock6_candidates pn') = 64 \<and>
         pn' = ?pn\<lparr>pn_clock6_candidates := pn_clock6_candidates pn'\<rparr> \<and>
         rem + 1 + of_bool (c0 \<in> set counts) \<le> rem' \<and>
         (rem' = rem + 1 \<longrightarrow> fc' = int count) \<and> (rem' = rem + 1 + 1 \<and> c0 \<in> set counts \<longrightarrow> fc' = int c0))"
      using later remain(2) cand c Cons.prems(5,6) by (intro Cons.IH) auto
    then show ?thesis
      unfolding remain(1) using Cons.prems(2) by (cases "count = c0") auto
  qed
qed


text \<open>An unwhitened packet of zeros: its header announces NULL, which every clock agrees with.\<close>

lemma zero_header: "unfec13 (replicate 3125 0) 68 18 = Some (replicate 18 0, True)"
proof -
  have loop: "unfec13_loop (replicate (3 * n) 0) = (replicate n 0, 0)" for n
  proof (induction n)
    case (Suc n)
    have "replicate (3 * Suc n) (0 :: sym) = 0 # 0 # 0 # replicate (3 * n) 0"
      by (simp add: numeral_3_eq_3)
    with Suc show ?case by simp
  qed simp
  have "sub (replicate 3125 0) 68 (3 * 18) = Some (replicate (3 * 18) (0 :: sym))"
    by (simp add: sub_def)
  then show ?thesis
    unfolding unfec13_def by (simp only: bind.bind_lunit loop) simp
qed

lemma unwhiten_off: "\<not> w \<Longrightarrow> unwhiten_loop w k xs = xs"
  by (induction xs arbitrary: k) auto

lemma zero_packet:
  assumes "same_input (example_packet 0) p"
  shows "try_clock clock p = Some (uap_from_hec 0 0, p\<lparr>pkt_UAP := uap_from_hec 0 0, pkt_packet_type := 0\<rparr>)"
    "crc_check clock (p\<lparr>pkt_UAP := uap_from_hec 0 0, pkt_packet_type := 0\<rparr>) =
       Some (1, p\<lparr>pkt_UAP := uap_from_hec 0 0, pkt_packet_type := 0\<rparr>)"
    "same_input (example_packet 0) (p\<lparr>pkt_UAP := uap_from_hec 0 0, pkt_packet_type := 0\<rparr>)"
proof -
  have zeros: "a2h i (replicate n 0) acc = acc" for i n acc
    by (induction n arbitrary: i) simp_all
  have "pkt_symbols p = replicate 3125 0" "\<not> btbb_packet_get_flag p BTBB_WHITENED"
    using assms by (simp_all add: same_input_def example_packet_def btbb_packet_new_def btbb_packet_get_flag_def)
  then show "try_clock clock p = Some (uap_from_hec 0 0, p\<lparr>pkt_UAP := uap_from_hec 0 0, pkt_packet_type := 0\<rparr>)"
    by (simp add: try_clock_def zero_header unwhiten_def unwhiten_off air_to_host_18 zeros Let_def)
  show "crc_check clock (p\<lparr>pkt_UAP := uap_from_hec 0 0, pkt_packet_type := 0\<rparr>) =
       Some (1, p\<lparr>pkt_UAP := uap_from_hec 0 0, pkt_packet_type := 0\<rparr>)"
    by (simp add: crc_check_def)
  show "same_input (example_packet 0) (p\<lparr>pkt_UAP := uap_from_hec 0 0, pkt_packet_type := 0\<rparr>)"
    using assms by (auto simp: same_input_def btbb_packet_get_flag_def) (simp_all add: packet_wf_def)
qed


end
