(* ===== verification/Queues.thy ===== *)
theory Queues
  imports Prelude
begin

text \<open>
  The queues of the code base, which are ring buffers with a read and a write position: the packet
  queue of the receiver firmware (\<open>bluetooth_rxtx/queue.c\<close>), the serial line (\<open>common/serial_fifo.c\<close>),
  the message queue of btbr (\<open>btbr/src/util/queue.c\<close>) and the USB packets of the host
  (\<open>libubertooth/src/ubertooth_fifo.c\<close>); and the memory pool of btbr (\<open>btbr/src/util/mem_pool.c\<close>).

  Each ring buffer keeps the contract \<open>bounded_fifo\<close>: to its callers it is a queue of bounded length.
\<close>

section \<open>The contract\<close>

datatype 'a fifo_op = Put 'a | Get
datatype 'a fifo_result = Accepted | Refused | Got 'a | Nothing

text \<open>The specification: a list of at most \<open>cap\<close> elements.\<close>

fun fifo_spec :: "nat \<Rightarrow> 'a list \<Rightarrow> 'a fifo_op list \<Rightarrow> 'a fifo_result list" where
  "fifo_spec cap q [] = []"
| "fifo_spec cap q (Put x # ops) =
     (if length q < cap then Accepted # fifo_spec cap (q @ [x]) ops else Refused # fifo_spec cap q ops)"
| "fifo_spec cap [] (Get # ops) = Nothing # fifo_spec cap [] ops"
| "fifo_spec cap (x # q) (Get # ops) = Got x # fifo_spec cap q ops"

text \<open>A run of an implementation; both operations return what they answer and the new state.\<close>

fun fifo_run :: "('a \<Rightarrow> 's \<Rightarrow> bool \<times> 's) \<Rightarrow> ('s \<Rightarrow> 'a option \<times> 's) \<Rightarrow> 's \<Rightarrow> 'a fifo_op list \<Rightarrow> 'a fifo_result list" where
  "fifo_run put get s [] = []"
| "fifo_run put get s (Put x # ops) =
     (let (ok, s) = put x s in (if ok then Accepted else Refused) # fifo_run put get s ops)"
| "fifo_run put get s (Get # ops) =
     (let (r, s) = get s in (case r of Some x \<Rightarrow> Got x | None \<Rightarrow> Nothing) # fifo_run put get s ops)"

locale bounded_fifo =
  fixes put :: "'a \<Rightarrow> 's \<Rightarrow> bool \<times> 's"
    and get :: "'s \<Rightarrow> 'a option \<times> 's"
    and inv :: "'s \<Rightarrow> bool"
    and content :: "'s \<Rightarrow> 'a list"
    and cap :: nat
  assumes put_room: "inv s \<Longrightarrow> length (content s) < cap \<Longrightarrow>
      \<exists>t. put x s = (True, t) \<and> inv t \<and> content t = content s @ [x]"
    and put_full: "inv s \<Longrightarrow> \<not> length (content s) < cap \<Longrightarrow>
      \<exists>t. put x s = (False, t) \<and> inv t \<and> content t = content s"
    and get_empty: "inv s \<Longrightarrow> content s = [] \<Longrightarrow> \<exists>t. get s = (None, t) \<and> inv t \<and> content t = []"
    and get_first: "inv s \<Longrightarrow> content s = x # q \<Longrightarrow> \<exists>t. get s = (Some x, t) \<and> inv t \<and> content t = q"
begin

lemma run_refines: "inv s \<Longrightarrow> fifo_run put get s ops = fifo_spec cap (content s) ops"
proof (induction ops arbitrary: s)
  case (Cons op ops)
  show ?case
  proof (cases op)
    case (Put x)
    show ?thesis
    proof (cases "length (content s) < cap")
      case True
      from put_room [OF Cons.prems True, of x] Cons.IH show ?thesis by (auto simp: Put True)
    next
      case False
      from put_full [OF Cons.prems False, of x] Cons.IH show ?thesis by (auto simp: Put False)
    qed
  next
    case Get
    show ?thesis
    proof (cases "content s")
      case Nil
      from get_empty [OF Cons.prems Nil] Cons.IH show ?thesis by (auto simp: Get Nil)
    next
      case (Cons x q)
      from get_first [OF \<open>inv s\<close> Cons] \<open>\<And>s. inv s \<Longrightarrow> _ s\<close> show ?thesis by (auto simp: Get Cons)
    qed
  qed
qed simp

end

section \<open>Rings\<close>

text \<open>The live slots of a ring, from the read to the write position.\<close>

definition ring_content :: "'a list \<Rightarrow> nat \<Rightarrow> nat \<Rightarrow> 'a list" where
  "ring_content slots r w =
     map (\<lambda>i. slots ! ((r + i) mod length slots)) [0..<(w + length slots - r) mod length slots]"

lemma ring_empty [simp]: "ring_content slots r r = []"
  by (simp add: ring_content_def)

lemma ring_length: "length (ring_content slots r w) = (w + length slots - r) mod length slots"
  by (simp add: ring_content_def)

lemma ring_distance:
  fixes r w n :: nat
  assumes "r < n" "w < n"
  shows "(w + n - r) mod n = (if r \<le> w then w - r else w + n - r)"
proof (cases "r \<le> w")
  case True
  then have "w + n - r = w - r + n" by linarith
  moreover have "w - r < n" using assms by simp
  ultimately show ?thesis using True by (simp only: mod_add_self2 mod_less if_True)
qed (use assms in simp)

lemma ring_full:
  assumes "r < n" "w < n" "length slots = n"
  shows "Suc w mod n = r \<longleftrightarrow> length (ring_content slots r w) = n - 1"
  using assms by (auto simp: ring_length ring_distance mod_Suc)

lemma ring_at_most:
  "r < n \<Longrightarrow> w < n \<Longrightarrow> length slots = n \<Longrightarrow> length (ring_content slots r w) \<le> n - 1"
  by (auto simp: ring_length ring_distance)

lemma ring_empty_iff:
  assumes "r < n" "w < n" "length slots = n"
  shows "ring_content slots r w = [] \<longleftrightarrow> r = w"
  using ring_length [of slots r w] assms by (auto simp: ring_distance simp flip: length_0_conv split: if_splits)

lemma ring_content_put:
  assumes "r < n" "w < n" "length slots = n" "Suc w mod n \<noteq> r"
  shows "ring_content (slots[w := x]) r (Suc w mod n) = ring_content slots r w @ [x]"
proof (rule nth_equalityI)
  let ?d = "(w + n - r) mod n"
  have d: "(Suc w mod n + n - r) mod n = Suc ?d" "(r + ?d) mod n = w"
    using assms by (auto simp: ring_distance mod_Suc)
  then show len: "length (ring_content (slots[w := x]) r (Suc w mod n)) = length (ring_content slots r w @ [x])"
    using assms(3) by (simp add: ring_length)
  fix i assume "i < length (ring_content (slots[w := x]) r (Suc w mod n))"
  then have i: "i < Suc ?d" using d assms(3) by (simp add: ring_length)
  show "ring_content (slots[w := x]) r (Suc w mod n) ! i = (ring_content slots r w @ [x]) ! i"
  proof (cases "i = ?d")
    case True
    then show ?thesis using d assms by (simp add: ring_content_def nth_append del: upt_Suc)
  next
    case False
    with i have lt: "i < ?d" by simp
    moreover have "?d < n" using assms by simp
    ultimately have "(r + i) mod n \<noteq> w"
      using assms(1,2) by (auto simp: ring_distance mod_if split: if_splits)
    then show ?thesis using lt d assms by (simp add: ring_content_def nth_append del: upt_Suc)
  qed
qed

lemma ring_content_get:
  assumes "r < n" "w < n" "length slots = n" "r \<noteq> w"
  shows "ring_content slots r w = slots ! r # ring_content slots (Suc r mod n) w"
proof -
  have d: "(w + n - r) mod n = Suc ((w + n - Suc r mod n) mod n)"
    using assms by (auto simp: ring_distance mod_Suc)
  have "map (\<lambda>i. slots ! ((r + i) mod n)) [0..<Suc m] = slots ! r # map (\<lambda>i. slots ! ((Suc r mod n + i) mod n)) [0..<m]" for m
    using assms(1) by (simp add: map_upt_Suc mod_simps del: upt_Suc)
  then show ?thesis
    unfolding ring_content_def assms(3) d by simp
qed

lemma ring_content_free:
  assumes "r < n" "w < n" "length slots = n"
  shows "ring_content (slots[w := x]) r w = ring_content slots r w"
proof (rule nth_equalityI)
  fix i assume "i < length (ring_content (slots[w := x]) r w)"
  then have i: "i < (w + n - r) mod n" using assms(3) by (simp add: ring_length)
  then have "i < n" using assms(1,2) by (simp add: ring_distance split: if_splits)
  with i have "(r + i) mod n \<noteq> w"
    using assms(1,2) by (auto simp: ring_distance mod_if split: if_splits)
  then show "ring_content (slots[w := x]) r w ! i = ring_content slots r w ! i"
    using i assms by (simp add: ring_content_def)
qed (simp add: ring_length)

text \<open>
  The contract of a ring: its positions stay in range, an insertion writes the slot at the write
  position and advances it, or changes nothing that is live when the ring is full, and a removal takes
  the slot at the read position. Every ring is a queue of one element less than its slots.
\<close>

locale ring_buffer =
  fixes put :: "'a \<Rightarrow> 's \<Rightarrow> bool \<times> 's"
    and get :: "'s \<Rightarrow> 'a option \<times> 's"
    and inv :: "'s \<Rightarrow> bool"
    and slots :: "'s \<Rightarrow> 'a list"
    and rpos :: "'s \<Rightarrow> nat"
    and wpos :: "'s \<Rightarrow> nat"
    and n :: nat
  assumes bounds: "inv s \<Longrightarrow> rpos s < n \<and> wpos s < n \<and> length (slots s) = n"
    and ring_put: "inv s \<Longrightarrow> Suc (wpos s) mod n \<noteq> rpos s \<Longrightarrow>
      \<exists>t. put x s = (True, t) \<and> inv t \<and> slots t = (slots s)[wpos s := x] \<and>
          rpos t = rpos s \<and> wpos t = Suc (wpos s) mod n"
    and ring_refuse: "inv s \<Longrightarrow> Suc (wpos s) mod n = rpos s \<Longrightarrow>
      \<exists>t y. put x s = (False, t) \<and> inv t \<and> slots t = (slots s)[wpos s := y] \<and>
          rpos t = rpos s \<and> wpos t = wpos s"
    and ring_none: "inv s \<Longrightarrow> rpos s = wpos s \<Longrightarrow> get s = (None, s)"
    and ring_take: "inv s \<Longrightarrow> rpos s \<noteq> wpos s \<Longrightarrow>
      \<exists>t. get s = (Some (slots s ! rpos s), t) \<and> inv t \<and> slots t = slots s \<and>
          rpos t = Suc (rpos s) mod n \<and> wpos t = wpos s"

sublocale ring_buffer \<subseteq> bounded_fifo put get inv "\<lambda>s. ring_content (slots s) (rpos s) (wpos s)" "n - 1"
proof
  fix s x assume inv: "inv s"
  note b = bounds [OF inv]
  have full: "Suc (wpos s) mod n = rpos s \<longleftrightarrow> \<not> length (ring_content (slots s) (rpos s) (wpos s)) < n - 1"
    using ring_full [of "rpos s" n "wpos s" "slots s"] ring_at_most [of "rpos s" n "wpos s" "slots s"] b by auto
  show "\<exists>t. put x s = (True, t) \<and> inv t \<and> ring_content (slots t) (rpos t) (wpos t) =
      ring_content (slots s) (rpos s) (wpos s) @ [x]"
    if "length (ring_content (slots s) (rpos s) (wpos s)) < n - 1"
    using ring_put [OF inv, of x] ring_content_put [of "rpos s" n "wpos s" "slots s" x] b full that by fastforce
  show "\<exists>t. put x s = (False, t) \<and> inv t \<and> ring_content (slots t) (rpos t) (wpos t) =
      ring_content (slots s) (rpos s) (wpos s)"
    if "\<not> length (ring_content (slots s) (rpos s) (wpos s)) < n - 1"
    using ring_refuse [OF inv, of x] ring_content_free [of "rpos s" n "wpos s" "slots s"] b full that by fastforce
  show "\<exists>t. get s = (None, t) \<and> inv t \<and> ring_content (slots t) (rpos t) (wpos t) = []"
    if "ring_content (slots s) (rpos s) (wpos s) = []"
    using ring_none [OF inv] ring_empty_iff [of "rpos s" n "wpos s" "slots s"] b that inv by auto
  show "\<exists>t. get s = (Some x, t) \<and> inv t \<and> ring_content (slots t) (rpos t) (wpos t) = q"
    if "ring_content (slots s) (rpos s) (wpos s) = x # q" for q
  proof -
    have "rpos s \<noteq> wpos s" using that by auto
    with ring_take [OF inv] ring_content_get [of "rpos s" n "wpos s" "slots s"] b that show ?thesis by fastforce
  qed
qed

section \<open>The receiver firmware's queue\<close>

definition FIFOSIZE :: nat where [simp]: "FIFOSIZE = 10"

record 'a queue_t =
  q_data :: "'a list"
  q_head :: nat
  q_tail :: nat

definition queue_init :: "'a queue_t \<Rightarrow> 'a queue_t" where
  "queue_init f = f\<lparr>q_head := 0, q_tail := 0\<rparr>"

text \<open>An element is stored behind the tail, which then moves onto it.\<close>

definition queue_insert :: "'a \<Rightarrow> 'a queue_t \<Rightarrow> int \<times> 'a queue_t" where
  "queue_insert x f =
     (let newtail = q_tail f + 1;
          newtail = (if newtail \<ge> FIFOSIZE then 0 else newtail)
      in if newtail = q_head f then (0, f)
         else (1, f\<lparr>q_data := (q_data f)[newtail := x], q_tail := newtail\<rparr>))"

definition queue_remove :: "'a queue_t \<Rightarrow> int \<times> 'a option \<times> 'a queue_t" where
  "queue_remove f =
     (if q_head f = q_tail f then (0, None, f)
      else let newhead = q_head f + 1;
               newhead = (if newhead \<ge> FIFOSIZE then 0 else newhead)
           in (1, Some (q_data f ! newhead), f\<lparr>q_head := newhead\<rparr>))"

text \<open>The operations as a caller sees them: the flag, and the element when the flag is set.\<close>

definition queue_put :: "'a \<Rightarrow> 'a queue_t \<Rightarrow> bool \<times> 'a queue_t" where
  "queue_put x f = (let (ok, f) = queue_insert x f in (ok \<noteq> 0, f))"

definition queue_get :: "'a queue_t \<Rightarrow> 'a option \<times> 'a queue_t" where
  "queue_get f = (let (ok, x, f) = queue_remove f in (if ok \<noteq> 0 then x else None, f))"

definition queue_inv :: "'a queue_t \<Rightarrow> bool" where
  "queue_inv f \<longleftrightarrow> length (q_data f) = FIFOSIZE \<and> q_head f < FIFOSIZE \<and> q_tail f < FIFOSIZE"

lemma wrap_suc: "n < m \<Longrightarrow> (if n + 1 \<ge> m then 0 else n + 1) = Suc n mod m"
  by (simp add: mod_Suc)

lemma suc_mod_eq: "a < n \<Longrightarrow> b < n \<Longrightarrow> Suc a mod n = Suc b mod n \<longleftrightarrow> a = b"
  by (auto simp: mod_Suc)

interpretation receiver_queue: ring_buffer queue_put queue_get queue_inv q_data
  "\<lambda>f. Suc (q_head f) mod FIFOSIZE" "\<lambda>f. Suc (q_tail f) mod FIFOSIZE" FIFOSIZE
proof
  fix s :: "'a queue_t" and x :: 'a
  assume inv: "queue_inv s"
  then have b: "q_head s < FIFOSIZE" "q_tail s < FIFOSIZE" and len: "length (q_data s) = FIFOSIZE"
    by (simp_all add: queue_inv_def)
  let ?r = "Suc (q_head s) mod FIFOSIZE" and ?w = "Suc (q_tail s) mod FIFOSIZE"
  have w: "?w < FIFOSIZE" by simp
  have full: "Suc ?w mod FIFOSIZE = ?r \<longleftrightarrow> ?w = q_head s"
    by (rule suc_mod_eq [OF w b(1)])
  have empty: "?r = ?w \<longleftrightarrow> q_head s = q_tail s"
    by (rule suc_mod_eq [OF b])
  have put: "queue_put x s = (if ?w = q_head s then (False, s) else (True, s\<lparr>q_data := (q_data s)[?w := x], q_tail := ?w\<rparr>))"
    unfolding queue_put_def queue_insert_def Let_def wrap_suc [OF b(2)] by simp
  have get: "queue_get s = (if q_head s = q_tail s then (None, s) else (Some (q_data s ! ?r), s\<lparr>q_head := ?r\<rparr>))"
    unfolding queue_get_def queue_remove_def Let_def wrap_suc [OF b(1)] by simp
  show "?r < FIFOSIZE \<and> ?w < FIFOSIZE \<and> length (q_data s) = FIFOSIZE"
    using len by simp
  show "\<exists>t. queue_put x s = (True, t) \<and> queue_inv t \<and> q_data t = (q_data s)[?w := x] \<and>
      Suc (q_head t) mod FIFOSIZE = ?r \<and> Suc (q_tail t) mod FIFOSIZE = Suc ?w mod FIFOSIZE"
    if "Suc ?w mod FIFOSIZE \<noteq> ?r"
    using that inv unfolding full put by (simp add: queue_inv_def)
  show "\<exists>t y. queue_put x s = (False, t) \<and> queue_inv t \<and> q_data t = (q_data s)[?w := y] \<and>
      Suc (q_head t) mod FIFOSIZE = ?r \<and> Suc (q_tail t) mod FIFOSIZE = ?w"
    if "Suc ?w mod FIFOSIZE = ?r"
    using that inv unfolding full put by (intro exI [of _ s] exI [of _ "q_data s ! ?w"]) (simp only: if_True list_update_id simp_thms)
  show "queue_get s = (None, s)" if "?r = ?w"
    using that unfolding empty get by simp
  show "\<exists>t. queue_get s = (Some (q_data s ! ?r), t) \<and> queue_inv t \<and> q_data t = q_data s \<and>
      Suc (q_head t) mod FIFOSIZE = Suc ?r mod FIFOSIZE \<and> Suc (q_tail t) mod FIFOSIZE = ?w"
    if "?r \<noteq> ?w"
    using that inv unfolding empty get by (simp add: queue_inv_def)
qed

section \<open>The serial line\<close>

definition VCOM_FIFO_SIZE :: int where [simp]: "VCOM_FIFO_SIZE = 128"

record serial_fifo =
  sf_head :: int
  sf_tail :: int
  sf_buf :: "u8 list"

definition serial_fifo_init :: "serial_fifo \<Rightarrow> u8 list \<Rightarrow> serial_fifo" where
  "serial_fifo_init fifo buf = fifo\<lparr>sf_head := 0, sf_tail := 0, sf_buf := buf\<rparr>"

definition serial_fifo_put :: "u8 \<Rightarrow> serial_fifo \<Rightarrow> bool \<times> serial_fifo" where
  "serial_fifo_put c fifo =
     (let next_pos = (sf_head fifo + 1) mod VCOM_FIFO_SIZE
      in if next_pos = sf_tail fifo then (False, fifo)
         else (True, fifo\<lparr>sf_buf := (sf_buf fifo)[nat (sf_head fifo) := c], sf_head := next_pos\<rparr>))"

definition serial_fifo_get :: "serial_fifo \<Rightarrow> u8 option \<times> serial_fifo" where
  "serial_fifo_get fifo =
     (if sf_head fifo = sf_tail fifo then (None, fifo)
      else let next_pos = (sf_tail fifo + 1) mod VCOM_FIFO_SIZE
           in (Some (sf_buf fifo ! nat (sf_tail fifo)), fifo\<lparr>sf_tail := next_pos\<rparr>))"

definition serial_fifo_avail :: "serial_fifo \<Rightarrow> int" where
  "serial_fifo_avail fifo = (VCOM_FIFO_SIZE + sf_head fifo - sf_tail fifo) mod VCOM_FIFO_SIZE"

definition serial_fifo_free :: "serial_fifo \<Rightarrow> int" where
  "serial_fifo_free fifo = VCOM_FIFO_SIZE - 1 - serial_fifo_avail fifo"

definition serial_inv :: "serial_fifo \<Rightarrow> bool" where
  "serial_inv fifo \<longleftrightarrow> length (sf_buf fifo) = 128 \<and> 0 \<le> sf_head fifo \<and> sf_head fifo < 128 \<and>
     0 \<le> sf_tail fifo \<and> sf_tail fifo < 128"

lemma nat_suc_mod: "0 \<le> a \<Longrightarrow> nat ((a + 1) mod 128) = Suc (nat a) mod 128"
  by (simp add: nat_mod_distrib nat_add_distrib)

interpretation serial_line: ring_buffer serial_fifo_put serial_fifo_get serial_inv sf_buf
  "\<lambda>f. nat (sf_tail f)" "\<lambda>f. nat (sf_head f)" 128
proof
  fix s c assume inv: "serial_inv s"
  then have b: "0 \<le> sf_head s" "sf_head s < 128" "0 \<le> sf_tail s" "sf_tail s < 128" "length (sf_buf s) = 128"
    by (simp_all add: serial_inv_def)
  have full: "Suc (nat (sf_head s)) mod 128 = nat (sf_tail s) \<longleftrightarrow> (sf_head s + 1) mod 128 = sf_tail s"
    using b by (auto simp: nat_suc_mod [symmetric] nat_eq_iff2)
  show "nat (sf_tail s) < 128 \<and> nat (sf_head s) < 128 \<and> length (sf_buf s) = 128"
    using b by (simp add: nat_less_iff)
  show "\<exists>t. serial_fifo_put c s = (True, t) \<and> serial_inv t \<and> sf_buf t = (sf_buf s)[nat (sf_head s) := c] \<and>
      nat (sf_tail t) = nat (sf_tail s) \<and> nat (sf_head t) = Suc (nat (sf_head s)) mod 128"
    if "Suc (nat (sf_head s)) mod 128 \<noteq> nat (sf_tail s)"
    using that inv b(1) unfolding full by (simp add: serial_fifo_put_def serial_inv_def nat_suc_mod)
  show "\<exists>t y. serial_fifo_put c s = (False, t) \<and> serial_inv t \<and> sf_buf t = (sf_buf s)[nat (sf_head s) := y] \<and>
      nat (sf_tail t) = nat (sf_tail s) \<and> nat (sf_head t) = nat (sf_head s)"
    if "Suc (nat (sf_head s)) mod 128 = nat (sf_tail s)"
    using that inv unfolding full by (intro exI [of _ s] exI [of _ "sf_buf s ! nat (sf_head s)"]) (simp add: serial_fifo_put_def)
  show "serial_fifo_get s = (None, s)" if "nat (sf_tail s) = nat (sf_head s)"
    using that b by (simp add: serial_fifo_get_def)
  show "\<exists>t. serial_fifo_get s = (Some (sf_buf s ! nat (sf_tail s)), t) \<and> serial_inv t \<and> sf_buf t = sf_buf s \<and>
      nat (sf_tail t) = Suc (nat (sf_tail s)) mod 128 \<and> nat (sf_head t) = nat (sf_head s)"
    if "nat (sf_tail s) \<noteq> nat (sf_head s)"
    using that inv b(3) by (auto simp: serial_fifo_get_def serial_inv_def nat_suc_mod)
qed

text \<open>The two counters of the serial line are the characters waiting and the room left.\<close>

lemma serial_counts:
  assumes "serial_inv fifo"
  shows "serial_fifo_avail fifo = int (length (ring_content (sf_buf fifo) (nat (sf_tail fifo)) (nat (sf_head fifo))))"
    and "serial_fifo_avail fifo + serial_fifo_free fifo = 127"
proof -
  have "0 \<le> 128 + sf_head fifo - sf_tail fifo" "length (sf_buf fifo) = 128"
    and "nat (128 + sf_head fifo - sf_tail fifo) = nat (sf_head fifo) + 128 - nat (sf_tail fifo)"
    using assms by (auto simp: serial_inv_def)
  then show "serial_fifo_avail fifo = int (length (ring_content (sf_buf fifo) (nat (sf_tail fifo)) (nat (sf_head fifo))))"
    by (simp add: serial_fifo_avail_def ring_length zmod_int flip: \<open>nat _ = _\<close>)
qed (simp add: serial_fifo_free_def)

section \<open>The message queue\<close>

definition MSG_QUEUE_SIZE :: int where [simp]: "MSG_QUEUE_SIZE = 8"

record 'm msg_queue_t =
  mq_head :: int
  mq_tail :: int
  mq_msg :: "'m list"

definition msg_queue_empty :: "'m msg_queue_t \<Rightarrow> bool" where
  "msg_queue_empty q \<longleftrightarrow> mq_head q = mq_tail q"

definition msg_queue_full :: "'m msg_queue_t \<Rightarrow> bool" where
  "msg_queue_full q \<longleftrightarrow> (mq_tail q + 1) mod MSG_QUEUE_SIZE = mq_head q"

definition msg_dequeue :: "'m msg_queue_t \<Rightarrow> 'm option \<times> 'm msg_queue_t" where
  "msg_dequeue q =
     (if \<not> msg_queue_empty q
      then (Some (mq_msg q ! nat (mq_head q)), q\<lparr>mq_head := (mq_head q + 1) mod MSG_QUEUE_SIZE\<rparr>)
      else (None, q))"

definition msg_enqueue :: "'m \<Rightarrow> 'm msg_queue_t \<Rightarrow> int \<times> 'm msg_queue_t" where
  "msg_enqueue p q =
     (if msg_queue_full q then (-1, q)
      else (0, q\<lparr>mq_msg := (mq_msg q)[nat (mq_tail q) := p], mq_tail := (mq_tail q + 1) mod MSG_QUEUE_SIZE\<rparr>))"

definition msg_queue_init :: "'m msg_queue_t \<Rightarrow> 'm msg_queue_t" where
  "msg_queue_init q = q\<lparr>mq_head := 0, mq_tail := 0\<rparr>"

definition msg_put :: "'m \<Rightarrow> 'm msg_queue_t \<Rightarrow> bool \<times> 'm msg_queue_t" where
  "msg_put p q = (let (r, q) = msg_enqueue p q in (r = 0, q))"

definition msg_inv :: "'m msg_queue_t \<Rightarrow> bool" where
  "msg_inv q \<longleftrightarrow> length (mq_msg q) = 8 \<and> 0 \<le> mq_head q \<and> mq_head q < 8 \<and> 0 \<le> mq_tail q \<and> mq_tail q < 8"

lemma nat_suc_mod8: "0 \<le> a \<Longrightarrow> nat ((a + 1) mod 8) = Suc (nat a) mod 8"
  by (simp add: nat_mod_distrib nat_add_distrib)

interpretation message_queue: ring_buffer msg_put msg_dequeue msg_inv mq_msg
  "\<lambda>q. nat (mq_head q)" "\<lambda>q. nat (mq_tail q)" 8
proof
  fix s :: "'m msg_queue_t" and p :: 'm
  assume inv: "msg_inv s"
  then have b: "0 \<le> mq_tail s" "mq_tail s < 8" "0 \<le> mq_head s" "mq_head s < 8" "length (mq_msg s) = 8"
    by (simp_all add: msg_inv_def)
  have full: "Suc (nat (mq_tail s)) mod 8 = nat (mq_head s) \<longleftrightarrow> msg_queue_full s"
    using b by (auto simp: nat_suc_mod8 [symmetric] nat_eq_iff2 msg_queue_full_def)
  show "nat (mq_head s) < 8 \<and> nat (mq_tail s) < 8 \<and> length (mq_msg s) = 8"
    using b by (simp add: nat_less_iff)
  show "\<exists>t. msg_put p s = (True, t) \<and> msg_inv t \<and> mq_msg t = (mq_msg s)[nat (mq_tail s) := p] \<and>
      nat (mq_head t) = nat (mq_head s) \<and> nat (mq_tail t) = Suc (nat (mq_tail s)) mod 8"
    if "Suc (nat (mq_tail s)) mod 8 \<noteq> nat (mq_head s)"
    using that inv b(1) unfolding full by (simp add: msg_put_def msg_enqueue_def msg_inv_def nat_suc_mod8)
  show "\<exists>t y. msg_put p s = (False, t) \<and> msg_inv t \<and> mq_msg t = (mq_msg s)[nat (mq_tail s) := y] \<and>
      nat (mq_head t) = nat (mq_head s) \<and> nat (mq_tail t) = nat (mq_tail s)"
    if "Suc (nat (mq_tail s)) mod 8 = nat (mq_head s)"
    using that inv unfolding full
    by (intro exI [of _ s] exI [of _ "mq_msg s ! nat (mq_tail s)"]) (simp add: msg_put_def msg_enqueue_def)
  show "msg_dequeue s = (None, s)" if "nat (mq_head s) = nat (mq_tail s)"
    using that b by (simp add: msg_dequeue_def msg_queue_empty_def)
  show "\<exists>t. msg_dequeue s = (Some (mq_msg s ! nat (mq_head s)), t) \<and> msg_inv t \<and> mq_msg t = mq_msg s \<and>
      nat (mq_head t) = Suc (nat (mq_head s)) mod 8 \<and> nat (mq_tail t) = nat (mq_tail s)"
    if "nat (mq_head s) \<noteq> nat (mq_tail s)"
    using that inv b(3) by (auto simp: msg_dequeue_def msg_queue_empty_def msg_inv_def nat_suc_mod8)
qed

section \<open>The USB packets of the host\<close>

definition FIFO_SIZE :: nat where "FIFO_SIZE = 1000000"

record 'p fifo_t =
  packets :: "'p list"
  read_ptr :: nat
  write_ptr :: nat

text \<open>The new FIFO has the contents of the allocated block, which is \<open>block\<close> here.\<close>

definition fifo_init :: "'p list \<Rightarrow> 'p fifo_t" where
  "fifo_init block = \<lparr>packets = block, read_ptr = 0, write_ptr = 0\<rparr>"

definition fifo_inc_write_ptr :: "'p fifo_t \<Rightarrow> 'p fifo_t" where
  "fifo_inc_write_ptr fifo =
     (if read_ptr fifo \<noteq> (write_ptr fifo + 1) mod FIFO_SIZE
      then fifo\<lparr>write_ptr := (write_ptr fifo + 1) mod FIFO_SIZE\<rparr> else fifo)"

definition fifo_empty :: "'p fifo_t \<Rightarrow> bool" where
  "fifo_empty fifo \<longleftrightarrow> read_ptr fifo = write_ptr fifo"

definition fifo_push :: "'p fifo_t \<Rightarrow> 'p \<Rightarrow> 'p fifo_t" where
  "fifo_push fifo packet = fifo_inc_write_ptr (fifo\<lparr>packets := (packets fifo)[write_ptr fifo := packet]\<rparr>)"

definition fifo_pop :: "'p fifo_t \<Rightarrow> 'p \<times> 'p fifo_t" where
  "fifo_pop fifo =
     (let selected = read_ptr fifo;
          fifo = fifo\<lparr>read_ptr := (read_ptr fifo + 1) mod FIFO_SIZE\<rparr>
      in (packets fifo ! selected, fifo))"

text \<open>The slot that a reader of the USB device fills before it calls \<open>fifo_inc_write_ptr\<close>.\<close>

definition fifo_get_write_element :: "'p fifo_t \<Rightarrow> nat" where
  "fifo_get_write_element fifo = write_ptr fifo"

text \<open>The operations as the callers use them: they ask \<open>fifo_empty\<close> before each \<open>fifo_pop\<close>.\<close>

definition fifo_put :: "'p \<Rightarrow> 'p fifo_t \<Rightarrow> bool \<times> 'p fifo_t" where
  "fifo_put packet fifo = (read_ptr fifo \<noteq> (write_ptr fifo + 1) mod FIFO_SIZE, fifo_push fifo packet)"

definition fifo_get :: "'p fifo_t \<Rightarrow> 'p option \<times> 'p fifo_t" where
  "fifo_get fifo = (if fifo_empty fifo then (None, fifo) else let (p, fifo) = fifo_pop fifo in (Some p, fifo))"

definition fifo_inv :: "'p fifo_t \<Rightarrow> bool" where
  "fifo_inv fifo \<longleftrightarrow> length (packets fifo) = FIFO_SIZE \<and> read_ptr fifo < FIFO_SIZE \<and> write_ptr fifo < FIFO_SIZE"

interpretation usb_fifo: ring_buffer fifo_put fifo_get fifo_inv packets read_ptr write_ptr FIFO_SIZE
proof
  fix s :: "'p fifo_t" and x :: 'p
  assume inv: "fifo_inv s"
  have pos: "0 < FIFO_SIZE" by (simp add: FIFO_SIZE_def)
  show "read_ptr s < FIFO_SIZE \<and> write_ptr s < FIFO_SIZE \<and> length (packets s) = FIFO_SIZE"
    using inv by (simp add: fifo_inv_def)
  show "\<exists>t. fifo_put x s = (True, t) \<and> fifo_inv t \<and> packets t = (packets s)[write_ptr s := x] \<and>
      read_ptr t = read_ptr s \<and> write_ptr t = Suc (write_ptr s) mod FIFO_SIZE"
    if "Suc (write_ptr s) mod FIFO_SIZE \<noteq> read_ptr s"
    using that inv pos by (simp add: fifo_put_def fifo_push_def fifo_inc_write_ptr_def fifo_inv_def)
  show "\<exists>t y. fifo_put x s = (False, t) \<and> fifo_inv t \<and> packets t = (packets s)[write_ptr s := y] \<and>
      read_ptr t = read_ptr s \<and> write_ptr t = write_ptr s"
    if "Suc (write_ptr s) mod FIFO_SIZE = read_ptr s"
    using that inv pos by (auto simp: fifo_put_def fifo_push_def fifo_inc_write_ptr_def fifo_inv_def)
  show "fifo_get s = (None, s)" if "read_ptr s = write_ptr s"
    using that by (simp add: fifo_get_def fifo_empty_def)
  show "\<exists>t. fifo_get s = (Some (packets s ! read_ptr s), t) \<and> fifo_inv t \<and> packets t = packets s \<and>
      read_ptr t = Suc (read_ptr s) mod FIFO_SIZE \<and> write_ptr t = write_ptr s"
    if "read_ptr s \<noteq> write_ptr s"
    using that inv pos by (simp add: fifo_get_def fifo_empty_def fifo_pop_def fifo_inv_def Let_def)
qed

section \<open>The queues are queues\<close>

text \<open>
  C24. After initialisation and any sequence of insertions and removals, each of the four queues
  has answered like a first-in first-out list of bounded length: 9 packets in the receiver, 127
  characters on the serial line, 7 messages in btbr and 999999 packets on the host.
\<close>

theorem queues_refine_fifo:
  assumes "length (q_data f) = FIFOSIZE" and "length buf = 128" and "length (mq_msg q) = 8" and "length block = FIFO_SIZE"
  shows "fifo_run queue_put queue_get (queue_init f) pkts = fifo_spec 9 [] pkts \<and>
    fifo_run serial_fifo_put serial_fifo_get (serial_fifo_init sf buf) chars = fifo_spec 127 [] chars \<and>
    fifo_run msg_put msg_dequeue (msg_queue_init q) msgs = fifo_spec 7 [] msgs \<and>
    fifo_run fifo_put fifo_get (fifo_init block) usb = fifo_spec 999999 [] usb"
proof -
  have "queue_inv (queue_init f)" "serial_inv (serial_fifo_init sf buf)" "msg_inv (msg_queue_init q)" "fifo_inv (fifo_init block)"
    using assms by (simp_all add: queue_inv_def queue_init_def serial_inv_def serial_fifo_init_def
        msg_inv_def msg_queue_init_def fifo_inv_def fifo_init_def FIFO_SIZE_def)
  from receiver_queue.run_refines [OF this(1), of pkts] serial_line.run_refines [OF this(2), of chars]
    message_queue.run_refines [OF this(3), of msgs] usb_fifo.run_refines [OF this(4), of usb]
  show ?thesis
    by (simp add: queue_init_def serial_fifo_init_def msg_queue_init_def fifo_init_def FIFO_SIZE_def)
qed

lemma queues_refine_fifo_witness:
  "fifo_run queue_put queue_get (queue_init \<lparr>q_data = replicate 10 (0 :: nat), q_head = 3, q_tail = 7\<rparr>) [Put 4, Put 5, Get, Get, Get] =
     [Accepted, Accepted, Got 4, Got 5, Nothing]"
  using queues_refine_fifo [of "\<lparr>q_data = replicate 10 (0 :: nat), q_head = 3, q_tail = 7\<rparr>" "replicate 128 0"
      "\<lparr>mq_head = 0, mq_tail = 0, mq_msg = replicate 8 (0 :: nat)\<rparr>" "replicate FIFO_SIZE (0 :: nat)"
      "[Put 4, Put 5, Get, Get, Get]" "\<lparr>sf_head = 0, sf_tail = 0, sf_buf = []\<rparr>" "[]" "[]" "[]"]
  by simp

text \<open>
  C25. The host's \<open>fifo_pop\<close> does not ask whether there is a packet. On an empty FIFO it
  returns what was left in the slot and moves the read position past the write position: the FIFO
  then claims to hold a full load of 999999 packets, none of which was pushed.
\<close>

theorem fifo_pop_empty:
  assumes "fifo_inv fifo" and "fifo_empty fifo"
  shows "fst (fifo_pop fifo) = packets fifo ! write_ptr fifo \<and>
    length (ring_content (packets (snd (fifo_pop fifo))) (read_ptr (snd (fifo_pop fifo))) (write_ptr (snd (fifo_pop fifo)))) = FIFO_SIZE - 1"
proof -
  from assms have w: "write_ptr fifo < FIFO_SIZE" "read_ptr fifo = write_ptr fifo" "length (packets fifo) = FIFO_SIZE"
    by (simp_all add: fifo_inv_def fifo_empty_def)
  have pos: "0 < FIFO_SIZE" by (simp add: FIFO_SIZE_def)
  have "(w + n - Suc w mod n) mod n = n - 1" if "w < n" for w n :: nat
    using that by (auto simp: mod_Suc)
  with w show ?thesis
    by (simp add: fifo_pop_def Let_def ring_length)
qed

lemma fifo_pop_empty_witness:
  "fst (fifo_pop (fifo_init (replicate FIFO_SIZE ''stale''))) = ''stale''"
proof -
  have "FIFO_SIZE = 1000000" by (simp only: FIFO_SIZE_def)
  then have "0 < FIFO_SIZE" by linarith
  then have "fifo_inv (fifo_init (replicate FIFO_SIZE ''stale''))"
    by (simp add: fifo_inv_def fifo_init_def)
  moreover have "fifo_empty (fifo_init (replicate FIFO_SIZE ''stale''))"
    by (simp add: fifo_empty_def fifo_init_def)
  ultimately show ?thesis
    using fifo_pop_empty \<open>0 < FIFO_SIZE\<close> by (fastforce simp: fifo_init_def)
qed

section \<open>The memory pool of btbr\<close>

definition BUF_NUM :: nat where [simp]: "BUF_NUM = 16"

text \<open>
  A buffer is named by its index in \<open>el\<close>. The list of free buffers starts at \<open>pool_li\<close> and goes on
  along the \<open>li\<close> pointers, which are \<open>el_li\<close>; \<open>None\<close> is \<open>NULL\<close>. \<open>DIE\<close> stops the firmware: it is an error value.
\<close>

record mem_pool =
  pool_init :: int
  pool_li :: "nat option"
  el_li :: "nat option list"

datatype pool_die = Not_initialized | Cannot_alloc nat | No_more_buffers

definition mem_pool_init :: "mem_pool \<Rightarrow> mem_pool" where
  "mem_pool_init pool =
     pool\<lparr>el_li := map (\<lambda>i. if i < BUF_NUM - 1 then Some (i + 1) else None) [0..<BUF_NUM],
          pool_li := Some 0, pool_init := 1\<rparr>"

text \<open>The size of a buffer, a sum of \<open>sizeof\<close> of the compiler's structures, is the parameter \<open>buf_size\<close>.\<close>

definition mem_pool_alloc :: "nat \<Rightarrow> nat \<Rightarrow> mem_pool \<Rightarrow> pool_die + nat \<times> mem_pool" where
  "mem_pool_alloc buf_size sz pool =
     (if pool_init pool = 0 then Inl Not_initialized
      else if sz > buf_size then Inl (Cannot_alloc sz)
      else case pool_li pool of
        None \<Rightarrow> Inl No_more_buffers
      | Some el \<Rightarrow> Inr (el, pool\<lparr>pool_li := el_li pool ! el\<rparr>))"

definition mem_pool_free :: "nat \<Rightarrow> mem_pool \<Rightarrow> mem_pool" where
  "mem_pool_free el pool = pool\<lparr>el_li := (el_li pool)[el := pool_li pool], pool_li := Some el\<rparr>"

text \<open>The chain of free buffers.\<close>

fun free_chain :: "nat option list \<Rightarrow> nat option \<Rightarrow> nat list \<Rightarrow> bool" where
  "free_chain li p [] \<longleftrightarrow> p = None"
| "free_chain li p (x # xs) \<longleftrightarrow> p = Some x \<and> x < length li \<and> free_chain li (li ! x) xs"

lemma free_chain_other: "x \<notin> set xs \<Longrightarrow> free_chain (li[x := y]) p xs = free_chain li p xs"
  by (induction xs arbitrary: p) auto

lemma free_chain_init:
  "k \<le> 16 \<Longrightarrow> free_chain (map (\<lambda>i. if i < 15 then Some (i + 1) else None) [0..<16]) (if k < 16 then Some k else None) [k..<16]"
proof (induction "16 - k" arbitrary: k)
  case (Suc d)
  let ?li = "map (\<lambda>i. if i < 15 then Some (i + 1) else None) [0..<16] :: nat option list"
  from Suc have k: "k < 16" by simp
  then have "?li ! k = (if Suc k < 16 then Some (Suc k) else None)"
    by (auto simp del: upt_rec_numeral)
  moreover have "free_chain ?li (if Suc k < 16 then Some (Suc k) else None) [Suc k..<16]"
    using Suc.hyps(2) k by (intro Suc.hyps(1)) auto
  ultimately show ?case
    using k by (simp only: upt_conv_Cons free_chain.simps if_True length_map length_upt) simp
qed simp

text \<open>The states that a firmware can reach which frees only what it holds; the second argument is what it holds.\<close>

inductive pool_reachable :: "nat \<Rightarrow> mem_pool \<Rightarrow> nat set \<Rightarrow> bool" for buf_size where
  pool_start: "pool_reachable buf_size (mem_pool_init pool) {}"
| pool_alloc: "pool_reachable buf_size pool held \<Longrightarrow> mem_pool_alloc buf_size sz pool = Inr (el, pool') \<Longrightarrow>
    pool_reachable buf_size pool' (insert el held)"
| pool_free: "pool_reachable buf_size pool held \<Longrightarrow> el \<in> held \<Longrightarrow>
    pool_reachable buf_size (mem_pool_free el pool) (held - {el})"

definition pool_inv :: "mem_pool \<Rightarrow> nat set \<Rightarrow> bool" where
  "pool_inv pool held \<longleftrightarrow> pool_init pool \<noteq> 0 \<and> length (el_li pool) = BUF_NUM \<and>
     (\<exists>xs. free_chain (el_li pool) (pool_li pool) xs \<and> distinct xs \<and> set xs \<inter> held = {} \<and> set xs \<union> held = {..<BUF_NUM})"

lemma pool_inv_init: "pool_inv (mem_pool_init pool) {}"
  using free_chain_init [of 0] unfolding pool_inv_def mem_pool_init_def
  by (auto simp: lessThan_atLeast0 simp del: upt_rec_numeral)

lemma pool_inv_alloc:
  assumes "pool_inv pool held" "mem_pool_alloc buf_size sz pool = Inr (el, pool')"
  shows "pool_inv pool' (insert el held)" and "el \<notin> held" and "el < BUF_NUM"
proof -
  from assms(2) have el: "pool_li pool = Some el" and pool': "pool' = pool\<lparr>pool_li := el_li pool ! el\<rparr>"
    by (auto simp: mem_pool_alloc_def split: if_splits option.splits)
  from assms(1) obtain xs where xs: "free_chain (el_li pool) (pool_li pool) xs" "distinct xs"
      "set xs \<inter> held = {}" "set xs \<union> held = {..<BUF_NUM}"
    by (auto simp: pool_inv_def)
  with el obtain ys where ys: "xs = el # ys" by (cases xs) auto
  show "el \<notin> held" "el < BUF_NUM" using xs ys by auto
  show "pool_inv pool' (insert el held)"
    using assms(1) xs ys unfolding pool_inv_def pool' by (intro conjI exI [of _ ys]) auto
qed

lemma pool_inv_free:
  assumes "pool_inv pool held" "el \<in> held"
  shows "pool_inv (mem_pool_free el pool) (held - {el})"
proof -
  from assms(1) obtain xs where len: "pool_init pool \<noteq> 0" "length (el_li pool) = BUF_NUM"
    and xs: "free_chain (el_li pool) (pool_li pool) xs" "distinct xs"
      "set xs \<inter> held = {}" "set xs \<union> held = {..<BUF_NUM}"
    by (auto simp: pool_inv_def)
  with assms(2) have "el < BUF_NUM" "el \<notin> set xs" by auto
  with len xs assms(2) show ?thesis
    unfolding pool_inv_def mem_pool_free_def
    by (intro conjI exI [of _ "el # xs"]) (auto simp: free_chain_other)
qed

lemma pool_reachable_inv: "pool_reachable buf_size pool held \<Longrightarrow> pool_inv pool held"
  by (induction rule: pool_reachable.induct) (auto intro: pool_inv_init pool_inv_alloc pool_inv_free)

text \<open>
  C26. As long as the firmware frees only buffers it holds, an allocation of an admissible size hands
  out a buffer that nobody holds, and the pool dies only when all sixteen are held.
\<close>

theorem mem_pool_exclusive:
  assumes "pool_reachable buf_size pool held" and "sz \<le> buf_size"
  shows "case mem_pool_alloc buf_size sz pool of
      Inl e \<Rightarrow> e = No_more_buffers \<and> held = {..<16}
    | Inr (el, pool') \<Rightarrow> el < 16 \<and> el \<notin> held"
proof (cases "mem_pool_alloc buf_size sz pool")
  case (Inr r)
  with pool_inv_alloc [OF pool_reachable_inv [OF assms(1)]] show ?thesis by (cases r) simp
next
  case (Inl e)
  with pool_reachable_inv [OF assms(1)] assms(2) have none: "pool_li pool = None" "e = No_more_buffers"
    by (auto simp: mem_pool_alloc_def pool_inv_def split: option.splits)
  from pool_reachable_inv [OF assms(1)] obtain xs where "free_chain (el_li pool) None xs" "set xs \<union> held = {..<BUF_NUM}"
    unfolding pool_inv_def none by blast
  with none Inl show ?thesis by (cases xs) auto
qed

lemma mem_pool_exclusive_witness:
  "fst (projr (mem_pool_alloc 500 20 (mem_pool_init \<lparr>pool_init = 0, pool_li = None, el_li = []\<rparr>))) < 16"
  using mem_pool_exclusive [OF pool_start, of 20 500 "\<lparr>pool_init = 0, pool_li = None, el_li = []\<rparr>"]
  by (simp add: mem_pool_alloc_def mem_pool_init_def)

text \<open>
  C27. There is no check against a double free (\<open>MEM_DEBUG\<close> is off). After one, the buffer's
  pointer is itself: every later allocation hands out the same buffer, to any number of holders.
\<close>

theorem mem_pool_double_free:
  assumes "pool_inv pool held" and "el \<in> held" and "sz \<le> buf_size" and "sz' \<le> buf_size"
  shows "let pool' = mem_pool_free el (mem_pool_free el pool)
    in mem_pool_alloc buf_size sz pool' = Inr (el, pool') \<and> mem_pool_alloc buf_size sz' pool' = Inr (el, pool')"
proof -
  have "el < length (el_li pool)" "pool_init pool \<noteq> 0" using assms by (auto simp: pool_inv_def)
  with assms(3,4) show ?thesis by (simp add: mem_pool_free_def mem_pool_alloc_def Let_def)
qed

lemma mem_pool_double_free_witness:
  "let pool = snd (projr (mem_pool_alloc 500 20 (mem_pool_init \<lparr>pool_init = 0, pool_li = None, el_li = []\<rparr>)));
       pool = mem_pool_free 0 (mem_pool_free 0 pool)
   in mem_pool_alloc 500 20 pool = Inr (0, pool) \<and> mem_pool_alloc 500 40 pool = Inr (0, pool)"
proof -
  let ?p = "mem_pool_init \<lparr>pool_init = 0, pool_li = None, el_li = []\<rparr>"
  have a: "mem_pool_alloc 500 20 ?p = Inr (0, ?p\<lparr>pool_li := Some 1\<rparr>)"
    by (simp add: mem_pool_alloc_def mem_pool_init_def)
  have "pool_inv (?p\<lparr>pool_li := Some 1\<rparr>) {0}"
    using pool_inv_alloc(1) [OF pool_inv_init a] by simp
  from mem_pool_double_free [OF this, of 0 20 500 40] show ?thesis by (simp add: a)
qed

end
