(* ===== verification/LeAddress.thy ===== *)
theory LeAddress
  imports Prelude
begin

text \<open>
  The filter that tells the access addresses of Bluetooth Low Energy connections from noise
  (\<open>aa_data_channel_offenses\<close> of \<open>libbtbb/lib/src/bluetooth_le_packet.c\<close>), with the requirements of the
  Bluetooth specification as its reference: its tables, its count of offenses, and its verdict.
\<close>

section \<open>Access addresses\<close>

definition LE_ADV_AA :: u32 where [simp]: "LE_ADV_AA = 0x8E89BED6"

text \<open>The loop of \<open>count_bits\<close> is \<open>clear_lowest_loop\<close>; its counter is a byte.\<close>

definition le_count_bits :: "u32 \<Rightarrow> u8" where
  "le_count_bits n = of_nat (clear_lowest_loop n)"

definition aa_access_channel_off_by_one :: "u32 \<Rightarrow> int" where
  "aa_access_channel_off_by_one aa = (if le_count_bits (aa XOR LE_ADV_AA) = 1 then 1 else 0)"

definition EIGHT_BIT_TRANSITIONS_EVEN :: "int list" where
  "EIGHT_BIT_TRANSITIONS_EVEN =
    [0, 2, 2, 2, 2, 4, 2, 2, 2, 4, 4, 4, 2, 4, 2, 2,
     2, 4, 4, 4, 4, 6, 4, 4, 2, 4, 4, 4, 2, 4, 2, 2,
     2, 4, 4, 4, 4, 6, 4, 4, 4, 6, 6, 6, 4, 6, 4, 4,
     2, 4, 4, 4, 4, 6, 4, 4, 2, 4, 4, 4, 2, 4, 2, 2,
     2, 4, 4, 4, 4, 6, 4, 4, 4, 6, 6, 6, 4, 6, 4, 4,
     4, 6, 6, 6, 6, 8, 6, 6, 4, 6, 6, 6, 4, 6, 4, 4,
     2, 4, 4, 4, 4, 6, 4, 4, 4, 6, 6, 6, 4, 6, 4, 4,
     2, 4, 4, 4, 4, 6, 4, 4, 2, 4, 4, 4, 2, 4, 2, 2,
     1, 3, 3, 3, 3, 5, 3, 3, 3, 5, 5, 5, 3, 5, 3, 3,
     3, 5, 5, 5, 5, 7, 5, 5, 3, 5, 5, 5, 3, 5, 3, 3,
     3, 5, 5, 5, 5, 7, 5, 5, 5, 7, 7, 7, 5, 7, 5, 5,
     3, 5, 5, 5, 5, 7, 5, 5, 3, 5, 5, 5, 3, 5, 3, 3,
     1, 3, 3, 3, 3, 5, 3, 3, 3, 5, 5, 5, 3, 5, 3, 3,
     3, 5, 5, 5, 5, 7, 5, 5, 3, 5, 5, 5, 3, 5, 3, 3,
     1, 3, 3, 3, 3, 5, 3, 3, 3, 5, 5, 5, 3, 5, 3, 3,
     1, 3, 3, 3, 3, 5, 3, 3, 1, 3, 3, 3, 1, 3, 1, 1]"

definition EIGHT_BIT_TRANSITIONS_ODD :: "int list" where
  "EIGHT_BIT_TRANSITIONS_ODD =
    [1, 1, 3, 1, 3, 3, 3, 1, 3, 3, 5, 3, 3, 3, 3, 1,
     3, 3, 5, 3, 5, 5, 5, 3, 3, 3, 5, 3, 3, 3, 3, 1,
     3, 3, 5, 3, 5, 5, 5, 3, 5, 5, 7, 5, 5, 5, 5, 3,
     3, 3, 5, 3, 5, 5, 5, 3, 3, 3, 5, 3, 3, 3, 3, 1,
     3, 3, 5, 3, 5, 5, 5, 3, 5, 5, 7, 5, 5, 5, 5, 3,
     5, 5, 7, 5, 7, 7, 7, 5, 5, 5, 7, 5, 5, 5, 5, 3,
     3, 3, 5, 3, 5, 5, 5, 3, 5, 5, 7, 5, 5, 5, 5, 3,
     3, 3, 5, 3, 5, 5, 5, 3, 3, 3, 5, 3, 3, 3, 3, 1,
     2, 2, 4, 2, 4, 4, 4, 2, 4, 4, 6, 4, 4, 4, 4, 2,
     4, 4, 6, 4, 6, 6, 6, 4, 4, 4, 6, 4, 4, 4, 4, 2,
     4, 4, 6, 4, 6, 6, 6, 4, 6, 6, 8, 6, 6, 6, 6, 4,
     4, 4, 6, 4, 6, 6, 6, 4, 4, 4, 6, 4, 4, 4, 4, 2,
     2, 2, 4, 2, 4, 4, 4, 2, 4, 4, 6, 4, 4, 4, 4, 2,
     4, 4, 6, 4, 6, 6, 6, 4, 4, 4, 6, 4, 4, 4, 4, 2,
     2, 2, 4, 2, 4, 4, 4, 2, 4, 4, 6, 4, 4, 4, 4, 2,
     2, 2, 4, 2, 4, 4, 4, 2, 2, 2, 4, 2, 2, 2, 2, 0]"

definition AA_MSB6_ALLOWED :: "int list" where
  "AA_MSB6_ALLOWED =
    [0, 0, 1, 0, 1, 1, 1, 0, 1, 1, 1, 1, 1, 1, 1, 0,
     1, 1, 1, 1, 1, 1, 1, 1, 1, 1, 1, 1, 1, 1, 1, 0,
     0, 1, 1, 1, 1, 1, 1, 1, 1, 1, 1, 1, 1, 1, 1, 1,
     0, 1, 1, 1, 1, 1, 1, 1, 0, 1, 1, 1, 0, 1, 0, 0]"

definition AA_RUN_CASES :: "nat list" where
  "AA_RUN_CASES =
    [0x080, 0x180, 0x280, 0x380, 0x480, 0x580, 0x680, 0x780, 0x880, 0x980, 0xa80, 0xb80,
     0xc80, 0xd80, 0xe80, 0xf80, 0x101, 0x301, 0x501, 0x701, 0x901, 0xb01, 0xd01, 0xf01,
     0x202, 0x602, 0xa02, 0xe02, 0x203, 0x603, 0xa03, 0xe03, 0x404, 0xc04, 0x405, 0xc05,
     0x406, 0xc06, 0x407, 0xc07, 0x808, 0x809, 0x80a, 0x80b, 0x80c, 0x80d, 0x80e, 0x80f,
     0x010, 0x011, 0x012, 0x013, 0x014, 0x015, 0x016, 0x017, 0x018, 0x019, 0x01a, 0x01b,
     0x01c, 0x01d, 0x01e, 0x01f, 0x100, 0x300, 0x500, 0x700, 0x900, 0xb00, 0xd00, 0xf00,
     0x201, 0x601, 0xa01, 0xe01, 0x402, 0xc02, 0x403, 0xc03, 0x804, 0x805, 0x806, 0x807,
     0x008, 0x009, 0x00a, 0x00b, 0x00c, 0x00d, 0x00e, 0x00f, 0xe00, 0xc01, 0x802, 0x803,
     0x004, 0x005, 0x006, 0x007, 0x400, 0xc00, 0x801, 0x002, 0x003, 0x800, 0x001, 0x000,
     0x07f, 0x0fe, 0x2fe, 0x4fe, 0x6fe, 0x8fe, 0xafe, 0xcfe, 0xefe, 0x1fc, 0x5fc, 0x9fc,
     0xdfc, 0x1fd, 0x5fd, 0x9fd, 0xdfd, 0x3f8, 0xbf8, 0x3f9, 0xbf9, 0x3fa, 0xbfa, 0x3fb,
     0xbfb, 0x7f4, 0x7f5, 0x7f6, 0x7f7, 0xfe0, 0x0ff, 0x2ff, 0x4ff, 0x6ff, 0x8ff, 0xaff,
     0xcff, 0xeff, 0x1fe, 0x5fe, 0x9fe, 0xdfe, 0x3fc, 0xbfc, 0x3fd, 0xbfd, 0x7f8, 0x7f9,
     0x7fa, 0x7fb, 0xff0, 0xff1, 0xff2, 0xff3, 0xff4, 0xff5, 0xff6, 0xff7, 0x1ff, 0x5ff,
     0x9ff, 0xdff, 0x3fe, 0xbfe, 0x7fc, 0x7fd, 0xff8, 0xff9, 0xffa, 0xffb, 0x3ff, 0xbff,
     0x7fe, 0xffc, 0xffd, 0x7ff, 0xffe, 0xfff]"

definition aa_data_channel_offenses :: "u32 \<Rightarrow> int" where
  "aa_data_channel_offenses aa =
     (let retval = 0;
          odd0 = aa AND 1;
          aab0 = ucast (aa AND 0xff) :: u8;
          tr0 = (if odd0 \<noteq> 0 then EIGHT_BIT_TRANSITIONS_ODD ! unat aab0 else EIGHT_BIT_TRANSITIONS_EVEN ! unat aab0);
          odd1 = aab0 AND 0x80;
          aab1 = ucast (drop_bit 8 aa) :: u8;
          tr1 = tr0 + (if odd1 \<noteq> 0 then EIGHT_BIT_TRANSITIONS_ODD ! unat aab1 else EIGHT_BIT_TRANSITIONS_EVEN ! unat aab1);
          odd2 = aab1 AND 0x80;
          aab2 = ucast (drop_bit 16 aa) :: u8;
          tr2 = tr1 + (if odd2 \<noteq> 0 then EIGHT_BIT_TRANSITIONS_ODD ! unat aab2 else EIGHT_BIT_TRANSITIONS_EVEN ! unat aab2);
          odd3 = aab2 AND 0x80;
          aab3 = ucast (drop_bit 24 aa) :: u8;
          transitions = tr2 + (if odd3 \<noteq> 0 then EIGHT_BIT_TRANSITIONS_ODD ! unat aab3 else EIGHT_BIT_TRANSITIONS_EVEN ! unat aab3);
          retval = (if transitions > 24 then retval + (transitions - 24) else retval);
          retval = retval + (1 - AA_MSB6_ALLOWED ! unat (drop_bit 2 aab3));
          retval = retval + (if aab0 = aab1 \<and> aab0 = aab2 \<and> aab0 = aab3 then 1 else 0);
          retval = retval + (if aa = LE_ADV_AA then 1 else 0);
          retval = retval + aa_access_channel_off_by_one aa
      in fold (\<lambda>shift retval.
           let twelvebits = ucast (drop_bit shift aa AND 0xfff) :: u16
           in if unat twelvebits \<in> set AA_RUN_CASES then retval + 1 else retval)
         [0, 4, 8, 12, 16, 20] retval)"

subsection \<open>The rules of the specification\<close>

text \<open>
  The requirements on an access address that the code's comment quotes from the Bluetooth
  specification (volume 6, part B, section 2.1.2), on the bits of the address.
\<close>

definition transitions_between :: "nat \<Rightarrow> nat \<Rightarrow> u32 \<Rightarrow> nat" where
  "transitions_between lo hi aa = length (filter (\<lambda>i. bit aa i \<noteq> bit aa (Suc i)) [lo..<hi])"

definition seven_equal :: "u32 \<Rightarrow> nat \<Rightarrow> bool" where
  "seven_equal aa i \<longleftrightarrow> list_all (\<lambda>j. bit aa (i + j) = bit aa i) [0..<7]"

definition no_run_of_seven :: "u32 \<Rightarrow> bool" where
  "no_run_of_seven aa \<longleftrightarrow> list_all (\<lambda>i. \<not> seven_equal aa i) [0..<26]"

definition octets_equal :: "u32 \<Rightarrow> bool" where
  "octets_equal aa \<longleftrightarrow> list_all (\<lambda>i. bit aa i = bit aa (i + 8)) [0..<24]"

definition valid_access_address :: "u32 \<Rightarrow> bool" where
  "valid_access_address aa \<longleftrightarrow>
     no_run_of_seven aa \<and> aa \<noteq> LE_ADV_AA \<and> weight (aa XOR LE_ADV_AA) \<noteq> 1 \<and> \<not> octets_equal aa \<and>
     transitions_between 0 31 aa \<le> 24 \<and> 2 \<le> transitions_between 26 31 aa"

subsection \<open>The tables\<close>

text \<open>Transitions from a previous bit \<open>p\<close> through the low \<open>k\<close> bits of \<open>n\<close>.\<close>

fun trans :: "bool \<Rightarrow> nat \<Rightarrow> nat \<Rightarrow> nat" where
  "trans p 0 n = 0"
| "trans p (Suc k) n = (if p = odd n then 0 else 1) + trans (odd n) k (n div 2)"

lemma trans_append: "trans p (j + Suc k) n = trans p (Suc k) n + trans (odd (n div 2 ^ k)) j (n div 2 ^ Suc k)"
proof (induction k arbitrary: p n)
  case (Suc k)
  have "n div 2 ^ Suc k = n div 2 div 2 ^ k" "n div 2 ^ Suc (Suc k) = n div 2 div 2 ^ Suc k"
    by (simp_all only: power_Suc div_mult2_eq)
  then show ?case using Suc.IH [of "odd n" "n div 2"] by simp
qed simp

lemma trans_filter:
  "trans p (Suc k) n = (if p = odd n then 0 else 1) + length (filter (\<lambda>i. bit n i \<noteq> bit n (Suc i)) [0..<k])"
proof (induction k arbitrary: p n)
  case (Suc k)
  have "filter (\<lambda>i. bit n i \<noteq> bit n (Suc i)) [0..<Suc k] =
      (if bit n 0 \<noteq> bit n 1 then [0] else []) @ filter (\<lambda>i. bit n i \<noteq> bit n (Suc i)) (map Suc [0..<k])"
    by (simp add: map_Suc_upt upt_conv_Cons del: upt_Suc)
  also have "length \<dots> = (if odd n = odd (n div 2) then 0 else 1) +
      length (filter (\<lambda>i. bit (n div 2) i \<noteq> bit (n div 2) (Suc i)) [0..<k])"
    by (simp add: filter_map comp_def bit_Suc bit_0)
  finally show ?case
    using Suc.IH [of "odd n" "n div 2"] by (simp only: trans.simps)
qed simp

lemma trans_mod: "k \<le> m \<Longrightarrow> trans p k (n mod 2 ^ m) = trans p k n"
proof (induction k arbitrary: p n m)
  case (Suc k)
  then obtain l where m: "m = Suc l" by (cases m) auto
  have "n mod 2 ^ m div 2 = n div 2 mod 2 ^ l"
    unfolding m by (simp add: mod_mult2_eq)
  moreover have "odd (n mod 2 ^ m) = odd n"
    unfolding m by (simp add: dvd_mod_iff)
  ultimately show ?case using Suc.IH [of l] Suc.prems by (simp add: m)
qed simp

fun interleave :: "'a list \<Rightarrow> 'a list \<Rightarrow> 'a list" where
  "interleave (x # xs) (y # ys) = x # y # interleave xs ys"
| "interleave _ _ = []"

lemma length_interleave [simp]: "length xs = length ys \<Longrightarrow> length (interleave xs ys) = 2 * length xs"
  by (induction xs ys rule: interleave.induct) auto

lemma nth_interleave:
  "length xs = length ys \<Longrightarrow> n < 2 * length xs \<Longrightarrow>
   interleave xs ys ! n = (if odd n then ys ! (n div 2) else xs ! (n div 2))"
proof (induction xs ys arbitrary: n rule: interleave.induct)
  case (1 x xs y ys)
  show ?case
  proof (cases "n < 2")
    case False
    then obtain m where "n = Suc (Suc m)" by (metis add_2_eq_Suc le_Suc_ex not_less)
    with 1 show ?thesis by simp
  qed (auto simp: less_2_cases_iff)
qed auto

fun trans_table :: "bool \<Rightarrow> nat \<Rightarrow> int list" where
  "trans_table p 0 = [0]"
| "trans_table p (Suc k) =
     interleave (map (\<lambda>t. (if p then 1 else 0) + t) (trans_table False k))
                (map (\<lambda>t. (if p then 0 else 1) + t) (trans_table True k))"

lemma length_trans_table [simp]: "length (trans_table p k) = 2 ^ k"
  by (induction k arbitrary: p) auto

lemma nth_trans_table: "n < 2 ^ k \<Longrightarrow> trans_table p k ! n = int (trans p k n)"
proof (induction k arbitrary: p n)
  case (Suc k)
  then have "n div 2 < 2 ^ k" by auto
  with Suc show ?case by (auto simp: nth_interleave)
qed simp

lemma transition_tables:
  "EIGHT_BIT_TRANSITIONS_EVEN = trans_table False 8"
  "EIGHT_BIT_TRANSITIONS_ODD = trans_table True 8"
  "AA_MSB6_ALLOWED = map (\<lambda>t. if 2 \<le> t then 1 else 0) (interleave (trans_table False 5) (trans_table True 5))"
  by (simp_all add: EIGHT_BIT_TRANSITIONS_EVEN_def EIGHT_BIT_TRANSITIONS_ODD_def AA_MSB6_ALLOWED_def eval_nat_numeral)

lemma run_cases:
  "list_all (\<lambda>n. n mod 128 \<in> {0, 127} \<or> n div 2 mod 128 \<in> {0, 127} \<or> n div 4 mod 128 \<in> {0, 127} \<or>
     n div 8 mod 128 \<in> {0, 127} \<or> n div 16 mod 128 \<in> {0, 127} \<or> n div 32 mod 128 \<in> {0, 127}) AA_RUN_CASES"
  by (simp add: AA_RUN_CASES_def)

subsection \<open>What the filter counts\<close>

definition next_byte :: "nat \<Rightarrow> nat \<Rightarrow> int" where
  "next_byte k n = int (trans (if k = 0 then odd n else odd (n div 2 ^ (8 * k - 1))) 8 (n div 2 ^ (8 * k)))"

lemma bit_unat_word: "bit (unat w) i = bit w i"
  by (simp add: bit_unsigned_iff)

lemma bit_unat_div: "bit (unat (w :: 'a::len word) div 2 ^ k) i = bit w (k + i)"
  by (simp add: bit_unat_word flip: drop_bit_eq_div add: bit_drop_bit_eq)

lemma table_lookup:
  fixes b :: u8
  shows "(if q then EIGHT_BIT_TRANSITIONS_ODD ! unat b else EIGHT_BIT_TRANSITIONS_EVEN ! unat b) = int (trans q 8 (unat b))"
proof -
  have "unat b < 2 ^ 8" using unsigned_less [of b] by simp
  then show ?thesis by (simp add: transition_tables nth_trans_table)
qed

lemma unat_drop_bit_div: "unat (drop_bit k w) = unat (w :: 'a::len word) div 2 ^ k"
  by (simp only: unat_drop_bit_eq) (simp only: drop_bit_eq_div)

lemma unat_byte: "unat (ucast (drop_bit k (aa :: u32)) :: u8) = unat aa div 2 ^ k mod 2 ^ 8"
  by (simp only: unsigned_ucast_eq unat_drop_bit_div) (simp add: take_bit_eq_mod)

lemma top_bit_byte: "(ucast (drop_bit k (aa :: u32)) :: u8) AND 0x80 \<noteq> 0 \<longleftrightarrow> odd (unat aa div 2 ^ (k + 7))"
proof -
  have "(b AND 0x80 \<noteq> 0) = bit b 7" for b :: u8
    using and_exp_eq_0_iff_not_bit [of b 7] by simp
  moreover have "bit (ucast (drop_bit k aa) :: u8) 7 = odd (unat aa div 2 ^ (k + 7))"
    using bit_unat_div [of aa "k + 7" 0] by (simp add: bit_simps bit_0)
  ultimately show ?thesis by simp
qed

lemma trans_sum:
  "trans (odd n) 8 n + trans (odd (n div 2 ^ 7)) 8 (n div 2 ^ 8) + trans (odd (n div 2 ^ 15)) 8 (n div 2 ^ 16)
     + trans (odd (n div 2 ^ 23)) 8 (n div 2 ^ 24) = trans (odd n) 32 n"
proof -
  have d: "n div 2 ^ 8 div 2 ^ k = n div 2 ^ (8 + k)" "n div 2 ^ 16 div 2 ^ k = n div 2 ^ (16 + k)" for k
    by (simp_all only: power_add div_mult2_eq)
  have "trans (odd n) 32 n = trans (odd n) 8 n + trans (odd (n div 2 ^ 7)) 24 (n div 2 ^ 8)"
    using trans_append [of "odd n" 24 7 n] by (simp only: Suc_eq_plus1 numeral_plus_one arith_simps add.commute) simp
  moreover have "trans (odd (n div 2 ^ 7)) 24 (n div 2 ^ 8) =
      trans (odd (n div 2 ^ 7)) 8 (n div 2 ^ 8) + trans (odd (n div 2 ^ 15)) 16 (n div 2 ^ 16)"
    using trans_append [of "odd (n div 2 ^ 7)" 16 7 "n div 2 ^ 8"] d(1) [of 7] d(1) [of 8] by simp
  moreover have "trans (odd (n div 2 ^ 15)) 16 (n div 2 ^ 16) =
      trans (odd (n div 2 ^ 15)) 8 (n div 2 ^ 16) + trans (odd (n div 2 ^ 23)) 8 (n div 2 ^ 24)"
    using trans_append [of "odd (n div 2 ^ 15)" 8 7 "n div 2 ^ 16"] d(2) [of 7] d(2) [of 8] by simp
  ultimately show ?thesis by simp
qed

lemma trans_transitions: "trans (odd (unat aa)) 32 (unat aa) = transitions_between 0 31 aa"
  using trans_filter [of "odd (unat aa)" 31 "unat aa"]
  by (simp add: transitions_between_def bit_unat_word del: trans.simps)

lemma transitions_shift:
  "transitions_between k (k + m) aa = length (filter (\<lambda>i. bit (unat aa div 2 ^ k) i \<noteq> bit (unat aa div 2 ^ k) (Suc i)) [0..<m])"
proof -
  have "filter (\<lambda>i. bit aa i \<noteq> bit aa (Suc i)) [k..<k + m] = filter (\<lambda>i. bit aa i \<noteq> bit aa (Suc i)) (map (\<lambda>i. i + k) [0..<m])"
    by (simp add: map_add_upt add.commute)
  then show ?thesis
    by (simp add: transitions_between_def filter_map comp_def bit_unat_div add.commute)
qed

lemma msb6_lookup:
  "AA_MSB6_ALLOWED ! unat (drop_bit 2 (ucast (drop_bit 24 (aa :: u32)) :: u8)) = (if 2 \<le> transitions_between 26 31 aa then 1 else 0)"
proof -
  let ?m = "unat aa div 2 ^ 26"
  have lt: "unat aa < 2 ^ 32" using unsigned_less [of aa] by simp
  then have m: "?m < 64" "?m div 2 < 2 ^ 5" "unat aa div 2 ^ 24 < 256" by (simp_all add: less_mult_imp_div_less)
  have "unat (drop_bit 2 (ucast (drop_bit 24 aa) :: u8)) = unat aa div 2 ^ 24 mod 2 ^ 8 div 4"
    by (simp only: unat_drop_bit_div unat_byte) simp
  also have "\<dots> = ?m" using m(3) by (simp add: div_mult2_eq [symmetric])
  finally have idx: "unat (drop_bit 2 (ucast (drop_bit 24 aa) :: u8)) = ?m" .
  have "interleave (trans_table False 5) (trans_table True 5) ! ?m = int (trans (odd ?m) 5 (?m div 2))"
    using m by (simp only: nth_interleave length_trans_table nth_trans_table split: if_splits) simp
  also have "\<dots> = int (trans (odd ?m) (Suc 5) ?m)" by (simp only: trans.simps) simp
  also have "\<dots> = int (transitions_between 26 31 aa)"
    using transitions_shift [of 26 5 aa] by (simp only: trans_filter) simp
  finally show ?thesis
    unfolding idx transition_tables using m(1) by (subst nth_map) simp_all
qed

lemma low_byte: "(ucast (aa AND 0xff :: u32) :: u8) = ucast (drop_bit 0 aa)"
proof -
  have "(0xff :: u32) = mask 8" by (simp add: mask_eq_exp_minus_1)
  then show ?thesis by (intro bit_word_eqI) (simp only: bit_simps, simp add: bit_simps)
qed

lemma byte_eq: "(ucast (drop_bit j (aa :: u32)) :: u8) = ucast (drop_bit k aa) \<longleftrightarrow> (\<forall>i < 8. bit aa (j + i) = bit aa (k + i))"
  by (auto simp: bit_eq_iff bit_simps)

lemma octets_equal_bytes:
  "octets_equal aa \<longleftrightarrow>
     (ucast (aa AND 0xff) :: u8) = ucast (drop_bit 8 aa) \<and> (ucast (aa AND 0xff) :: u8) = ucast (drop_bit 16 aa) \<and>
     (ucast (aa AND 0xff) :: u8) = ucast (drop_bit 24 aa)"
proof -
  have thirds: "(\<forall>i < 24. P i) \<longleftrightarrow> (\<forall>i < 8. P i) \<and> (\<forall>i < 8. P (i + 8)) \<and> (\<forall>i < 8. P (i + 16))" for P :: "nat \<Rightarrow> bool"
  proof (intro iffI conjI allI impI)
    fix i :: nat assume *: "(\<forall>i < 8. P i) \<and> (\<forall>i < 8. P (i + 8)) \<and> (\<forall>i < 8. P (i + 16))" and i: "i < 24"
    then have "i < 8 \<or> i - 8 < 8 \<and> i - 8 + 8 = i \<or> i - 16 < 8 \<and> i - 16 + 16 = i" by linarith
    with * show "P i" by metis
  qed auto
  have "octets_equal aa \<longleftrightarrow> (\<forall>i < 8. bit aa i = bit aa (8 + i)) \<and> (\<forall>i < 8. bit aa (8 + i) = bit aa (16 + i)) \<and>
      (\<forall>i < 8. bit aa (16 + i) = bit aa (24 + i))"
    using thirds [of "\<lambda>i. bit aa i = bit aa (i + 8)"] unfolding octets_equal_def list_all_iff by (simp add: Ball_def add.commute)
  also have "\<dots> \<longleftrightarrow> (\<forall>i < 8. bit aa i = bit aa (8 + i)) \<and> (\<forall>i < 8. bit aa i = bit aa (16 + i)) \<and> (\<forall>i < 8. bit aa i = bit aa (24 + i))"
    by auto
  finally show ?thesis by (simp add: low_byte byte_eq del: drop_bit_0)
qed

lemma le_count_bits_1: "le_count_bits w = 1 \<longleftrightarrow> weight w = 1"
proof -
  have "weight w < 256" using weight_le_LENGTH [of w] by simp
  then have "unat (of_nat (weight w) :: u8) = weight w" by (simp add: unsigned_of_nat take_bit_nat_eq_self)
  then show ?thesis
    unfolding le_count_bits_def clear_lowest_loop_weight by (metis unsigned_1 unsigned_word_eqI)
qed

lemma seven_equal_window: "seven_equal aa i \<longleftrightarrow> unat aa div 2 ^ i mod 128 \<in> {0, 127}"
proof -
  let ?n = "unat aa div 2 ^ i"
  have bits: "bit (?n mod 128) j \<longleftrightarrow> j < 7 \<and> bit aa (i + j)" for j
    using bit_take_bit_iff [of 7 ?n j] by (simp add: take_bit_eq_mod bit_unat_div)
  have m: "bit (127 :: nat) j \<longleftrightarrow> j < 7" for j
    using bit_mask_iff [of 7 j, where 'a = nat] by (simp add: mask_eq_exp_minus_1)
  have "?n mod 128 = 0 \<longleftrightarrow> (\<forall>j < 7. \<not> bit aa (i + j))"
    by (auto simp: bit_eq_iff bits)
  moreover have "?n mod 128 = 127 \<longleftrightarrow> (\<forall>j < 7. bit aa (i + j))"
    by (auto simp: bit_eq_iff bits m)
  ultimately show ?thesis
    by (auto simp: seven_equal_def list_all_iff) (metis add.right_neutral zero_less_numeral)+
qed

lemma run_case_has_run:
  assumes "unat (ucast (drop_bit shift aa AND 0xfff) :: u16) \<in> set AA_RUN_CASES" "shift \<le> 20"
  shows "\<not> no_run_of_seven aa"
proof -
  let ?n = "unat aa div 2 ^ shift"
  have m: "(0xfff :: u32) = mask 12" by (simp add: mask_eq_exp_minus_1)
  have w: "unat (ucast (drop_bit shift aa AND 0xfff) :: u16) = take_bit 12 ?n"
    unfolding m take_bit_eq_mask [symmetric]
    by (simp only: unsigned_ucast_eq unsigned_take_bit_eq unat_drop_bit_div) simp
  have sh: "take_bit 12 ?n div 2 ^ k mod 128 = unat aa div 2 ^ (shift + k) mod 128" if "k \<le> 5" for k
  proof -
    have "take_bit 7 (drop_bit k (take_bit 12 ?n)) = take_bit 7 (drop_bit k ?n)"
      using that by (intro bit_eqI) (auto simp: bit_simps)
    then show ?thesis
      by (simp add: take_bit_eq_mod drop_bit_eq_div power_add div_mult2_eq)
  qed
  have "\<exists>k \<le> 5. take_bit 12 ?n div 2 ^ k mod 128 \<in> {0, 127}"
  proof -
    from run_cases assms(1) have "(\<lambda>n. n mod 128 \<in> {0, 127} \<or> n div 2 mod 128 \<in> {0, 127} \<or> n div 4 mod 128 \<in> {0, 127} \<or>
        n div 8 mod 128 \<in> {0, 127} \<or> n div 16 mod 128 \<in> {0, 127} \<or> n div 32 mod 128 \<in> {0, 127}) (take_bit 12 ?n)"
      unfolding w list_all_iff by (rule bspec)
    then have "\<exists>k \<in> {0, 1, 2, 3, 4, 5}. take_bit 12 ?n div 2 ^ k mod 128 \<in> {0, 127}"
      by (simp del: insert_iff add: bex_simps)
    moreover have "{0, 1, 2, 3, 4, 5} \<subseteq> {..5 :: nat}" by simp
    ultimately show ?thesis by (meson atMost_iff subsetD)
  qed
  then obtain k where k: "k \<le> 5" "seven_equal aa (shift + k)"
    unfolding seven_equal_window using sh by metis
  with assms(2) have "shift + k \<in> set [0..<26]" by simp
  with k(2) show ?thesis unfolding no_run_of_seven_def list_all_iff by blast
qed

subsection \<open>The verdict\<close>

definition run_offenses :: "u32 \<Rightarrow> nat" where
  "run_offenses aa = length (filter (\<lambda>shift. unat (ucast (drop_bit shift aa AND 0xfff) :: u16) \<in> set AA_RUN_CASES) [0, 4, 8, 12, 16, 20])"

lemma fold_count: "fold (\<lambda>x n. if P x then n + 1 else n) xs n = n + int (length (filter P xs))"
  by (induction xs arbitrary: n) auto

lemma offenses_sum:
  "aa_data_channel_offenses aa =
     max 0 (int (transitions_between 0 31 aa) - 24) + (if 2 \<le> transitions_between 26 31 aa then 0 else 1) +
     (if octets_equal aa then 1 else 0) + (if aa = LE_ADV_AA then 1 else 0) +
     (if weight (aa XOR LE_ADV_AA) = 1 then 1 else 0) + int (run_offenses aa)"
proof -
  let ?n = "unat aa"
  have odd0: "aa AND 1 \<noteq> 0 \<longleftrightarrow> odd ?n"
    using bit_unat_word [of aa 0] by (simp add: bit_0 and_one_eq odd_iff_mod_2_eq_one)
  have tr: "int (trans (odd ?n) 8 (unat (ucast (aa AND 0xff) :: u8))) +
      int (trans ((ucast (aa AND 0xff) :: u8) AND 0x80 \<noteq> 0) 8 (unat (ucast (drop_bit 8 aa) :: u8))) +
      int (trans ((ucast (drop_bit 8 aa) :: u8) AND 0x80 \<noteq> 0) 8 (unat (ucast (drop_bit 16 aa) :: u8))) +
      int (trans ((ucast (drop_bit 16 aa) :: u8) AND 0x80 \<noteq> 0) 8 (unat (ucast (drop_bit 24 aa) :: u8))) =
      int (transitions_between 0 31 aa)"
    using trans_sum [of ?n]
    by (simp only: low_byte unat_byte top_bit_byte trans_mod trans_transitions [symmetric] le_refl)
      (simp add: trans_transitions)
  show ?thesis
    unfolding aa_data_channel_offenses_def Let_def table_lookup odd0 tr msb6_lookup fold_count
      octets_equal_bytes aa_access_channel_off_by_one_def le_count_bits_1 run_offenses_def [symmetric]
    by (simp add: max_def)
qed

text \<open>
  C28. The filter for data channels never rejects an access address that meets the six
  requirements of the specification.
\<close>

theorem valid_addresses_pass:
  assumes "valid_access_address aa"
  shows "aa_data_channel_offenses aa = 0"
proof -
  have "run_offenses aa = 0"
    unfolding run_offenses_def length_0_conv filter_empty_conv
  proof (intro ballI notI)
    fix shift assume "shift \<in> set [0, 4, 8, 12, 16, 20 :: nat]"
      and "unat (ucast (drop_bit shift aa AND 0xfff) :: u16) \<in> set AA_RUN_CASES"
    with run_case_has_run [of shift aa] assms show False
      by (auto simp only: valid_access_address_def set_simps insert_iff empty_iff)
  qed
  with assms show ?thesis by (simp add: offenses_sum valid_access_address_def)
qed

lemma weight_adv: "weight (0xAF9A9CD5 XOR LE_ADV_AA) \<noteq> 1"
  by (simp add: weight_numeral)

lemma valid_addresses_pass_witness: "aa_data_channel_offenses 0xAF9A9CD5 = 0"
proof (rule valid_addresses_pass)
  show "valid_access_address 0xAF9A9CD5"
    using weight_adv by (simp add: valid_access_address_def no_run_of_seven_def seven_equal_def octets_equal_def
        transitions_between_def upt_eval)
qed

text \<open>
  C29. The converse fails. The filter accepts exactly the addresses that meet the other five
  requirements and have none of the listed windows, but of the 224 windows of twelve bits with
  a run of seven the code lists 186: \<open>0x17f\<close>, \<open>0x200\<close>, \<open>0xfe1\<close> and 35 more are missing. So \<open>0xBAB9F87F\<close>,
  whose last seven bits are ones, passes without an offense.
\<close>

theorem filter_misses_runs:
  "(aa_data_channel_offenses aa = 0 \<longleftrightarrow>
      run_offenses aa = 0 \<and> aa \<noteq> LE_ADV_AA \<and> weight (aa XOR LE_ADV_AA) \<noteq> 1 \<and> \<not> octets_equal aa \<and>
      transitions_between 0 31 aa \<le> 24 \<and> 2 \<le> transitions_between 26 31 aa) \<and>
   aa_data_channel_offenses 0xBAB9F87F = 0 \<and> seven_equal 0xBAB9F87F 0"
proof (intro conjI)
  show "aa_data_channel_offenses aa = 0 \<longleftrightarrow>
      run_offenses aa = 0 \<and> aa \<noteq> LE_ADV_AA \<and> weight (aa XOR LE_ADV_AA) \<noteq> 1 \<and> \<not> octets_equal aa \<and>
      transitions_between 0 31 aa \<le> 24 \<and> 2 \<le> transitions_between 26 31 aa"
    unfolding offenses_sum by (auto split: if_splits)
  have "run_offenses 0xBAB9F87F = 0"
    by (simp add: run_offenses_def AA_RUN_CASES_def)
  moreover have "weight (0xBAB9F87F XOR LE_ADV_AA) \<noteq> 1"
    by (simp add: weight_numeral)
  ultimately show "aa_data_channel_offenses 0xBAB9F87F = 0"
    unfolding offenses_sum by (simp add: octets_equal_def transitions_between_def upt_eval)
  show "seven_equal 0xBAB9F87F 0"
    by (simp add: seven_equal_def upt_eval)
qed

end
