(* ===== verification/LePacket.thy ===== *)
theory LePacket
  imports Prelude LeAddress "HOL-Library.Signed_Division"
begin

text \<open>
  Packets of Bluetooth Low Energy on the host (\<open>libbtbb/lib/src/bluetooth_le_packet.c\<close>): the structure,
  its decoding from the received bytes, and its printer with the parser of advertising data. Printing
  is a list of \<open>printf\<close> calls; reading outside \<open>symbols\<close> is \<open>None\<close>.
\<close>

section \<open>The packet\<close>

definition MAX_LE_SYMBOLS :: nat where [simp]: "MAX_LE_SYMBOLS = 64"

record lell_packet =
  lell_symbols :: "u8 list"
  lell_access_address :: u32
  lell_channel_idx :: u8
  lell_channel_k :: u8
  lell_length :: int
  lell_clk100ns :: u32
  lell_adv_type :: u8
  lell_adv_tx_add :: int
  lell_adv_rx_add :: int
  lell_access_address_offenses :: u32
  lell_refcount :: u32
  lell_access_address_ok :: bool

text \<open>\<open>calloc\<close> gives zeros.\<close>

definition lell_packet_new :: lell_packet where
  "lell_packet_new =
     \<lparr>lell_symbols = replicate MAX_LE_SYMBOLS 0, lell_access_address = 0, lell_channel_idx = 0, lell_channel_k = 0,
      lell_length = 0, lell_clk100ns = 0, lell_adv_type = 0, lell_adv_tx_add = 0, lell_adv_rx_add = 0,
      lell_access_address_offenses = 0, lell_refcount = 1, lell_access_address_ok = False\<rparr>"

definition lell_packet_ref :: "lell_packet \<Rightarrow> lell_packet" where
  "lell_packet_ref pkt = pkt\<lparr>lell_refcount := lell_refcount pkt + 1\<rparr>"

text \<open>\<open>None\<close> when the packet is freed.\<close>

definition lell_packet_unref :: "lell_packet \<Rightarrow> lell_packet option" where
  "lell_packet_unref pkt =
     (let pkt = pkt\<lparr>lell_refcount := lell_refcount pkt - 1\<rparr>
      in if lell_refcount pkt = 0 then None else Some pkt)"

text \<open>C divides integers towards zero.\<close>

definition le_channel_index :: "u16 \<Rightarrow> u8" where
  "le_channel_index phys_channel =
     (let p = uint phys_channel in
      if p = 2402 then 37
      else if p < 2426 then word_of_int ((p - 2404) sdiv 2)
      else if p = 2426 then 38
      else if p < 2480 then word_of_int (11 + (p - 2428) sdiv 2)
      else 39)"

definition lell_packet_is_data :: "lell_packet \<Rightarrow> bool" where
  "lell_packet_is_data pkt \<longleftrightarrow> lell_channel_idx pkt < 37"

definition lell_decode_pdu :: "lell_packet \<Rightarrow> lell_packet" where
  "lell_decode_pdu pkt =
     (if lell_packet_is_data pkt then
        let pkt = pkt\<lparr>lell_length := uint (lell_symbols pkt ! 5 AND 0x1f)\<rparr>;
            pkt = pkt\<lparr>lell_access_address_offenses := word_of_int (aa_data_channel_offenses (lell_access_address pkt))\<rparr>
        in pkt\<lparr>lell_access_address_ok := lell_access_address_offenses pkt = 0\<rparr>
      else
        let pkt = pkt\<lparr>lell_length := uint (lell_symbols pkt ! 5 AND 0x3f)\<rparr>;
            pkt = pkt\<lparr>lell_adv_type := lell_symbols pkt ! 4 AND 0xf\<rparr>;
            pkt = pkt\<lparr>lell_adv_tx_add := (if lell_symbols pkt ! 4 AND 0x40 \<noteq> 0 then 1 else 0)\<rparr>;
            pkt = pkt\<lparr>lell_adv_rx_add := (if lell_symbols pkt ! 4 AND 0x80 \<noteq> 0 then 1 else 0)\<rparr>;
            pkt = pkt\<lparr>lell_access_address_ok := lell_access_address pkt = 0x8e89bed6\<rparr>
        in pkt\<lparr>lell_access_address_offenses :=
              (if lell_access_address_ok pkt then 0
               else if aa_access_channel_off_by_one (lell_access_address pkt) \<noteq> 0 then 1 else 32)\<rparr>)"

definition lell_allocate_and_decode :: "u8 list \<Rightarrow> u16 \<Rightarrow> u32 \<Rightarrow> lell_packet option" where
  "lell_allocate_and_decode stream phys_channel clk100ns =
     do {
       symbols \<leftarrow> sub stream 0 MAX_LE_SYMBOLS;
       let pkt = lell_packet_new\<lparr>lell_symbols := symbols\<rparr>;
       let pkt = pkt\<lparr>lell_channel_idx := le_channel_index phys_channel\<rparr>;
       let pkt = pkt\<lparr>lell_channel_k := word_of_int ((uint phys_channel - 2402) sdiv 2)\<rparr>;
       let pkt = pkt\<lparr>lell_clk100ns := clk100ns\<rparr>;
       let pkt = pkt\<lparr>lell_access_address := 0\<rparr>;
       let pkt = pkt\<lparr>lell_access_address := lell_access_address pkt OR ucast (lell_symbols pkt ! 0)\<rparr>;
       let pkt = pkt\<lparr>lell_access_address := lell_access_address pkt OR push_bit 8 (ucast (lell_symbols pkt ! 1))\<rparr>;
       let pkt = pkt\<lparr>lell_access_address := lell_access_address pkt OR push_bit 16 (ucast (lell_symbols pkt ! 2))\<rparr>;
       let pkt = pkt\<lparr>lell_access_address := lell_access_address pkt OR push_bit 24 (ucast (lell_symbols pkt ! 3))\<rparr>;
       Some (lell_decode_pdu pkt)
     }"

definition lell_get_access_address :: "lell_packet \<Rightarrow> u32" where
  "lell_get_access_address pkt = lell_access_address pkt"

definition lell_get_access_address_offenses :: "lell_packet \<Rightarrow> u32" where
  "lell_get_access_address_offenses pkt = lell_access_address_offenses pkt"

definition lell_get_channel_index :: "lell_packet \<Rightarrow> u32" where
  "lell_get_channel_index pkt = ucast (lell_channel_idx pkt)"

definition lell_get_channel_k :: "lell_packet \<Rightarrow> u32" where
  "lell_get_channel_k pkt = ucast (lell_channel_k pkt)"

definition ADV_TYPE_NAMES :: "string list" where
  "ADV_TYPE_NAMES =
     [''ADV_IND'', ''ADV_DIRECT_IND'', ''ADV_NONCONN_IND'', ''SCAN_REQ'',
      ''SCAN_RSP'', ''CONNECT_REQ'', ''ADV_SCAN_IND'']"

definition lell_get_adv_type_str :: "lell_packet \<Rightarrow> string option" where
  "lell_get_adv_type_str pkt =
     (if lell_packet_is_data pkt then None
      else if unat (lell_adv_type pkt) < length ADV_TYPE_NAMES then Some (ADV_TYPE_NAMES ! unat (lell_adv_type pkt))
      else Some ''UNKNOWN'')"

section \<open>The printer\<close>

text \<open>
  An argument of \<open>printf\<close>: an integer, a string (\<open>None\<close> is \<open>NULL\<close>), or a double, given in quarters.
  \<open>printed\<close> is one call: the format without its final newline, whether it has one, and the arguments.
\<close>

datatype arg = AI int | AS "string option" | AD int
datatype printed = Printf string bool "arg list"

type_synonym out = "printed list option"

definition pr :: "string \<Rightarrow> arg list \<Rightarrow> out" where
  "pr fmt args = Some [Printf fmt False args]"

definition prn :: "string \<Rightarrow> arg list \<Rightarrow> out" where
  "prn fmt args = Some [Printf fmt True args]"

fun outs :: "out list \<Rightarrow> out" where
  "outs [] = Some []"
| "outs (x # xs) = do { a \<leftarrow> x; b \<leftarrow> outs xs; Some (a @ b) }"

definition pr_byte :: "string \<Rightarrow> u8 list \<Rightarrow> int \<Rightarrow> out" where
  "pr_byte fmt buf i = do { b \<leftarrow> rd buf i; pr fmt [AI (uint b)] }"

definition dump_addr :: "string \<Rightarrow> u8 list \<Rightarrow> int \<Rightarrow> int \<Rightarrow> out" where
  "dump_addr name buf offset random =
     outs [do { b \<leftarrow> rd buf (offset + 5); pr ''    %s%02x'' [AS (Some name), AI (uint b)] },
           outs (map (\<lambda>i. pr_byte '':%02x'' buf (offset + i)) [4, 3, 2, 1, 0]),
           prn '' (%s)'' [AS (Some (if random \<noteq> 0 then ''random'' else ''public''))]]"

definition dump_8 :: "string \<Rightarrow> u8 list \<Rightarrow> int \<Rightarrow> out" where
  "dump_8 name buf offset =
     do { b \<leftarrow> rd buf offset; prn ''    %s%02x (%d)'' [AS (Some name), AI (uint b), AI (uint b)] }"

definition dump_16 :: "string \<Rightarrow> u8 list \<Rightarrow> int \<Rightarrow> out" where
  "dump_16 name buf offset =
     do {
       b1 \<leftarrow> rd buf (offset + 1);
       b0 \<leftarrow> rd buf offset;
       let val = (push_bit 8 (ucast b1) OR ucast b0 :: u16);
       prn ''    %s%04x (%d)'' [AS (Some name), AI (uint val), AI (uint val)]
     }"

definition dump_24 :: "string \<Rightarrow> u8 list \<Rightarrow> int \<Rightarrow> out" where
  "dump_24 name buf offset =
     do {
       b2 \<leftarrow> rd buf (offset + 2);
       b1 \<leftarrow> rd buf (offset + 1);
       b0 \<leftarrow> rd buf offset;
       let val = (push_bit 16 (ucast b2) OR push_bit 8 (ucast b1) OR ucast b0 :: u32);
       prn ''    %s%06x'' [AS (Some name), AI (uint val)]
     }"

definition dump_32 :: "string \<Rightarrow> u8 list \<Rightarrow> int \<Rightarrow> out" where
  "dump_32 name buf offset =
     do {
       b3 \<leftarrow> rd buf (offset + 3);
       b2 \<leftarrow> rd buf (offset + 2);
       b1 \<leftarrow> rd buf (offset + 1);
       b0 \<leftarrow> rd buf (offset + 0);
       let val = (push_bit 24 (ucast b3) OR push_bit 16 (ucast b2) OR push_bit 8 (ucast b1) OR ucast b0 :: u32);
       prn ''    %s%08x'' [AS (Some name), AI (uint val)]
     }"

definition dump_uuid :: "u8 list \<Rightarrow> out" where
  "dump_uuid uuid =
     outs [outs (map (\<lambda>i. pr_byte ''%02x'' uuid i) [0, 1, 2, 3]), pr ''-'' [],
           outs (map (\<lambda>i. pr_byte ''%02x'' uuid i) [4, 5]), pr ''-'' [],
           outs (map (\<lambda>i. pr_byte ''%02x'' uuid i) [6, 7]), pr ''-'' [],
           outs (map (\<lambda>i. pr_byte ''%02x'' uuid i) [8, 9]), pr ''-'' [],
           outs (map (\<lambda>i. pr_byte ''%02x'' uuid i) [10, 11, 12, 13, 14, 15])]"

subsection \<open>Advertising data\<close>

definition AD_FLAGS :: "string list" where
  "AD_FLAGS =
     [''LE Limited Discoverable Mode'', ''LE General Discoverable Mode'',
      ''BR/EDR Not Supported'',
      ''Simultaneous LE and BR/EDR to Same Device Capable (Controller)'',
      ''Simultaneous LE and BR/EDR to Same Device Capable (Host)'',
      ''Reserved'', ''Reserved'', ''Reserved'']"

text \<open>\<open>isprint\<close> of the C locale.\<close>

definition isprint :: "u8 \<Rightarrow> bool" where
  "isprint c \<longleftrightarrow> 0x20 \<le> c \<and> c \<le> 0x7e"

text \<open>The indices of a loop \<open>for (i = a; i < b; ++i)\<close>.\<close>

definition for_range :: "int \<Rightarrow> int \<Rightarrow> int list" where
  "for_range a b = [a..b - 1]"

definition dump_flags :: "u8 list \<Rightarrow> int \<Rightarrow> out" where
  "dump_flags buf pos =
     outs [prn '' (Flags)'' [], pr ''           '' [],
           outs (map (\<lambda>i. do { b \<leftarrow> rd buf (pos + 1); pr ''%d'' [AI (if bit b (7 - i) then 1 else 0)] }) [0, 1, 2, 3, 4, 5, 6, 7]),
           prn [] [],
           outs (map (\<lambda>i. do {
               b \<leftarrow> rd buf (pos + 1);
               if bit b i then outs [pr ''               '' [], prn ''%s'' [AS (Some (AD_FLAGS ! i))]] else Some []
             }) [0, 1, 2, 3, 4, 5, 6, 7]),
           prn [] []]"

text \<open>The label \<open>print16\<close>: two bytes at a time, read as a little-endian \<open>uint16_t\<close>.\<close>

definition dump_print16 :: "u8 list \<Rightarrow> int \<Rightarrow> int \<Rightarrow> out" where
  "dump_print16 buf pos sublen =
     (if (sublen - 1) mod 2 = 0 then
        outs (map (\<lambda>k. do {
            lo \<leftarrow> rd buf (pos + 1 + 2 * k);
            hi \<leftarrow> rd buf (pos + 1 + 2 * k + 1);
            prn ''           %04x'' [AI (uint (push_bit 8 (ucast hi) OR ucast lo :: u16))]
          }) (for_range 0 ((sublen - 1) div 2)))
      else Some [])"

text \<open>The label \<open>print128\<close>: each byte goes to its place in the reversed \<open>uuid\<close>, printed when it is full.\<close>

definition print128_step :: "u8 list \<Rightarrow> int \<Rightarrow> int \<Rightarrow> u8 list \<times> printed list \<Rightarrow> (u8 list \<times> printed list) option" where
  "print128_step buf pos i = (\<lambda>(uuid, acc). do {
     b \<leftarrow> rd buf (pos + 1 + i);
     let uuid = uuid[nat (15 - i mod 16) := b];
     if i mod 16 = 15 then do {
       o1 \<leftarrow> outs [pr ''           '' [], dump_uuid uuid, prn [] []];
       Some (uuid, acc @ o1)
     } else Some (uuid, acc)
   })"

definition dump_print128 :: "u8 list \<Rightarrow> int \<Rightarrow> int \<Rightarrow> out" where
  "dump_print128 buf pos sublen =
     (if (sublen - 1) mod 16 = 0
      then map_option snd (foldM (print128_step buf pos) (for_range 0 (sublen - 1)) (replicate 16 0, []))
      else prn ''Wrong length (%d, must be divisible by 16)'' [AI (sublen - 1)])"

definition dump_name :: "u8 list \<Rightarrow> int \<Rightarrow> int \<Rightarrow> out" where
  "dump_name buf pos sublen =
     outs [prn '' (Complete Local Name)'' [], pr ''           '' [],
           outs (map (\<lambda>i. do { b \<leftarrow> rd buf (pos + i); pr ''%c'' [AI (if isprint b then uint b else 0x2e)] }) (for_range 1 sublen)),
           prn [] []]"

definition dump_tx_power :: "u8 list \<Rightarrow> int \<Rightarrow> int \<Rightarrow> out" where
  "dump_tx_power buf pos sublen =
     outs [prn '' (Tx Power Level)'' [], pr ''           '' [],
           if sublen - 1 = 1 then do { c \<leftarrow> rd buf (pos + 1); prn ''%d dBm'' [AI (sint c)] }
           else prn ''Wrong length (%d, should be 1)'' [AI (sublen - 1)]]"

definition le16 :: "u8 list \<Rightarrow> int \<Rightarrow> u16 option" where
  "le16 buf i = do { hi \<leftarrow> rd buf (i + 1); lo \<leftarrow> rd buf i; Some (push_bit 8 (ucast hi) OR ucast lo) }"

definition dump_interval_range :: "u8 list \<Rightarrow> int \<Rightarrow> int \<Rightarrow> out" where
  "dump_interval_range buf pos sublen =
     outs [prn '' (Slave Connection Interval Range)'' [], pr ''           '' [],
           if sublen - 1 = 4 then
             outs [do { val \<leftarrow> le16 buf (pos + 1); pr ''(%0.2f, '' [AD (uint val * 5)] },
                   do { val \<leftarrow> le16 buf (pos + 3); prn ''%0.2f) ms'' [AD (uint val * 5)] }]
           else prn ''Wrong length (%d, should be 4)'' [AI (sublen - 1)]]"

definition dump_service_data :: "u8 list \<Rightarrow> int \<Rightarrow> int \<Rightarrow> out" where
  "dump_service_data buf pos sublen =
     outs [prn '' (Service Data)'' [], pr ''           '' [],
           if sublen - 1 \<ge> 2 then
             outs [do { val \<leftarrow> le16 buf (pos + 1); pr ''UUID: %02x'' [AI (uint val)] },
                   if sublen - 1 > 2 then
                     outs [pr '', Additional:'' [],
                           outs (map (\<lambda>i. pr_byte '' %02x'' buf (pos + i)) (for_range 3 sublen))]
                   else Some [],
                   prn [] []]
           else prn ''Wrong length (%d, should be >= 2)'' [AI (sublen - 1)]]"

text \<open>The table of company names (\<open>bt_compidtostr\<close>) is the parameter \<open>compid\<close>.\<close>

definition dump_manufacturer :: "(u16 \<Rightarrow> string option) \<Rightarrow> u8 list \<Rightarrow> int \<Rightarrow> int \<Rightarrow> out" where
  "dump_manufacturer compid buf pos sublen =
     outs [prn '' (Manufacturer Specific Data)'' [], pr ''           '' [],
           if sublen - 1 \<ge> 2 then
             outs [do { company \<leftarrow> le16 buf (pos + 1); prn ''Company: %s'' [AS (compid company)] },
                   pr ''           '' [], pr ''Data:'' [],
                   outs (map (\<lambda>i. pr_byte '' %02x'' buf (pos + i)) (for_range 3 sublen)),
                   prn [] []]
           else prn ''Wrong length (%d, should be >= 2)'' [AI (sublen - 1)]]"

definition dump_ad_structure :: "(u16 \<Rightarrow> string option) \<Rightarrow> u8 list \<Rightarrow> int \<Rightarrow> int \<Rightarrow> u8 \<Rightarrow> out" where
  "dump_ad_structure compid buf pos sublen ad_type =
     (if ad_type = 0x01 then dump_flags buf pos
      else if ad_type = 0x02 then outs [prn '' (16-bit Service UUIDs, more available)'' [], dump_print16 buf pos sublen]
      else if ad_type = 0x03 then outs [prn '' (16-bit Service UUIDs) '' [], dump_print16 buf pos sublen]
      else if ad_type = 0x06 then outs [prn '' (128-bit Service UUIDs, more available)'' [], dump_print128 buf pos sublen]
      else if ad_type = 0x07 then outs [prn '' (128-bit Service UUIDs)'' [], dump_print128 buf pos sublen]
      else if ad_type = 0x09 then dump_name buf pos sublen
      else if ad_type = 0x0a then dump_tx_power buf pos sublen
      else if ad_type = 0x12 then dump_interval_range buf pos sublen
      else if ad_type = 0x16 then dump_service_data buf pos sublen
      else if ad_type = 0xff then dump_manufacturer compid buf pos sublen
      else outs [prn [] [], pr ''           '' [],
                 outs (map (\<lambda>i. pr_byte '' %02x'' buf (pos + i)) (for_range 1 sublen)),
                 prn [] []])"

function scan_rsp_loop :: "(u16 \<Rightarrow> string option) \<Rightarrow> u8 list \<Rightarrow> int \<Rightarrow> int \<Rightarrow> out" where
  "scan_rsp_loop compid buf len pos =
     (if pos < len then do {
        sub_len \<leftarrow> rd buf pos;
        if pos + 1 + uint sub_len > len
        then prn ''Error: attempt to read past end of buffer (%d + %d > %d)'' [AI (pos + 1), AI (uint sub_len), AI len]
        else if sub_len = 0 then prn ''Early return due to 0 length'' []
        else do {
          ad_type \<leftarrow> rd buf (pos + 1);
          outs [pr ''        Type %02x'' [AI (uint ad_type)],
                dump_ad_structure compid buf (pos + 1) (uint sub_len) ad_type,
                scan_rsp_loop compid buf len (pos + 1 + uint sub_len)]
        }
      } else Some [])"
  by pat_completeness auto
termination
proof (relation "measure (\<lambda>(compid, buf, len, pos). nat (len - pos))")
  fix compid :: "u16 \<Rightarrow> string option" and buf :: "u8 list" and len pos :: int and sub_len :: u8
  assume "pos < len"
  moreover have "0 \<le> uint sub_len" by simp
  ultimately show "((compid, buf, len, pos + 1 + uint sub_len), compid, buf, len, pos) \<in> measure (\<lambda>(compid, buf, len, pos). nat (len - pos))"
    by (simp only: in_measure split_conv zless_nat_eq_int_zless)
qed simp

declare scan_rsp_loop.simps [simp del]

definition dump_scan_rsp_data :: "(u16 \<Rightarrow> string option) \<Rightarrow> u8 list \<Rightarrow> int \<Rightarrow> out" where
  "dump_scan_rsp_data compid buf len = scan_rsp_loop compid buf len 0"

subsection \<open>Packets\<close>

definition LLID_STR :: "string list" where
  "LLID_STR =
     [''Reserved'', ''LL Data PDU / empty or L2CAP continuation'', ''LL Data PDU / L2CAP start'', ''LL Control PDU'']"

definition OPCODE_STR :: "string list" where
  "OPCODE_STR =
     [''LL_CONNECTION_UPDATE_REQ'', ''LL_CHANNEL_MAP_REQ'', ''LL_TERMINATE_IND'', ''LL_ENC_REQ'',
      ''LL_ENC_RSP'', ''LL_START_ENC_REQ'', ''LL_START_ENC_RSP'', ''LL_UNKNOWN_RSP'',
      ''LL_FEATURE_REQ'', ''LL_FEATURE_RSP'', ''LL_PAUSE_ENC_REQ'', ''LL_PAUSE_ENC_RSP'',
      ''LL_VERSION_IND'', ''LL_REJECT_IND'', ''LL_SLAVE_FEATURE_REQ'', ''LL_CONNECTION_PARAM_REQ'',
      ''LL_CONNECTION_PARAM_RSP'', ''LL_REJECT_IND_EXT'', ''LL_PING_REQ'', ''LL_PING_RSP'',
      ''Reserved for Future Use'']"

definition CONNECT_SCA :: "string list" where
  "CONNECT_SCA =
     [''251 ppm to 500 ppm'', ''151 ppm to 250 ppm'', ''101 ppm to 150 ppm'',
      ''76 ppm to 100 ppm'', ''51 ppm to 75 ppm'', ''31 ppm to 50 ppm'',
      ''21 ppm to 30 ppm'', ''0 ppm to 20 ppm'']"

definition valid_str :: "lell_packet \<Rightarrow> arg" where
  "valid_str pkt = AS (Some (if lell_access_address_ok pkt then ''valid'' else ''invalid''))"

definition lell_print_data :: "lell_packet \<Rightarrow> out" where
  "lell_print_data pkt =
     do {
       header \<leftarrow> rd (lell_symbols pkt) 4;
       let llid = unat (header AND 0x3);
       outs [prn ''Data / AA %08x (%s) / %2d bytes''
               [AI (uint (lell_access_address pkt)), valid_str pkt, AI (lell_length pkt)],
             prn ''    Channel Index: %d'' [AI (uint (lell_channel_idx pkt))],
             prn ''    LLID: %d / %s'' [AI (int llid), AS (Some (LLID_STR ! llid))],
             prn ''    NESN: %d  SN: %d  MD: %d''
               [AI (uint (drop_bit 2 header AND 1)), AI (uint (drop_bit 3 header AND 1)), AI (uint (drop_bit 4 header AND 1))],
             if llid = 3 then do {
               opcode \<leftarrow> rd (lell_symbols pkt) 6;
               prn ''    Opcode: %d / %s'' [AI (uint opcode), AS (Some (OPCODE_STR ! (if opcode < 0x14 then unat opcode else 0x14)))]
             } else Some []]
     }"

definition lell_print_connect_req :: "lell_packet \<Rightarrow> out" where
  "lell_print_connect_req pkt =
     (let symbols = lell_symbols pkt
      in outs [dump_addr ''InitA: '' symbols 6 (lell_adv_tx_add pkt),
               dump_addr ''AdvA:  '' symbols 12 (lell_adv_rx_add pkt),
               dump_32 ''AA:    '' symbols 18,
               dump_24 ''CRCInit: '' symbols 22,
               dump_8 ''WinSize: '' symbols 25,
               dump_16 ''WinOffset: '' symbols 26,
               dump_16 ''Interval: '' symbols 28,
               dump_16 ''Latency: '' symbols 30,
               dump_16 ''Timeout: '' symbols 32,
               pr ''    ChM:'' [],
               outs (map (\<lambda>i. pr_byte '' %02x'' symbols (34 + i)) [0, 1, 2, 3, 4]),
               prn [] [],
               do { b \<leftarrow> rd symbols 39; prn ''    Hop: %d'' [AI (uint (b AND 0x1f))] },
               do { b \<leftarrow> rd symbols 39;
                    prn ''    SCA: %d, %s'' [AI (uint (drop_bit 5 b)), AS (Some (CONNECT_SCA ! unat (drop_bit 5 b)))] }])"

definition lell_print_adv :: "(u16 \<Rightarrow> string option) \<Rightarrow> lell_packet \<Rightarrow> out" where
  "lell_print_adv compid pkt =
     (let symbols = lell_symbols pkt; adv_type = lell_adv_type pkt; len = lell_length pkt
      in outs [prn ''Advertising / AA %08x (%s)/ %2d bytes''
                 [AI (uint (lell_access_address pkt)), valid_str pkt, AI len],
               prn ''    Channel Index: %d'' [AI (uint (lell_channel_idx pkt))],
               prn ''    Type:  %s'' [AS (lell_get_adv_type_str pkt)],
               if adv_type = 0 \<or> adv_type = 2 \<or> adv_type = 6 then
                 outs [dump_addr ''AdvA:  '' symbols 6 (lell_adv_tx_add pkt),
                       if len - 6 > 0 then
                         outs [pr ''    AdvData:'' [],
                               outs (map (\<lambda>i. pr_byte '' %02x'' symbols (12 + i)) (for_range 0 (len - 6))),
                               prn [] [],
                               dump_scan_rsp_data compid (drop 12 symbols) (len - 6)]
                       else Some []]
               else if adv_type = 1 then
                 outs [dump_addr ''AdvA:  '' symbols 6 (lell_adv_tx_add pkt),
                       dump_addr ''InitA: '' symbols 12 (lell_adv_rx_add pkt)]
               else if adv_type = 3 then
                 outs [dump_addr ''ScanA: '' symbols 6 (lell_adv_tx_add pkt),
                       dump_addr ''AdvA:  '' symbols 12 (lell_adv_rx_add pkt)]
               else if adv_type = 4 then
                 outs [dump_addr ''AdvA:  '' symbols 6 (lell_adv_tx_add pkt),
                       pr ''    ScanRspData:'' [],
                       outs (map (\<lambda>i. pr_byte '' %02x'' symbols (12 + i)) (for_range 0 (len - 6))),
                       prn [] [],
                       dump_scan_rsp_data compid (drop 12 symbols) (len - 6)]
               else if adv_type = 5 then lell_print_connect_req pkt
               else Some []])"

definition lell_print :: "(u16 \<Rightarrow> string option) \<Rightarrow> lell_packet \<Rightarrow> out" where
  "lell_print compid pkt =
     (let symbols = lell_symbols pkt
      in outs [if lell_packet_is_data pkt then lell_print_data pkt else lell_print_adv compid pkt,
               prn [] [],
               pr ''    Data: '' [],
               outs (map (\<lambda>i. pr_byte '' %02x'' symbols i) (for_range 6 (6 + lell_length pkt))),
               prn [] [],
               pr ''    CRC:  '' [],
               outs (map (\<lambda>i. pr_byte '' %02x'' symbols (6 + lell_length pkt + i)) [0, 1, 2]),
               prn [] []])"

section \<open>The printer and the packet's bounds\<close>

definition reads_inside :: "'a option \<Rightarrow> bool" where
  "reads_inside x \<longleftrightarrow> x \<noteq> None"

named_theorems inside \<open>when a piece of the printer reads inside its buffer\<close>

lemma inside_outs [inside]: "reads_inside (outs xs) \<longleftrightarrow> list_all reads_inside xs"
  unfolding reads_inside_def by (induction xs) (auto simp: bind_eq_None_conv split: bind_splits)

declare outs.simps [simp del]

lemma inside_pr [inside]: "reads_inside (pr fmt args)" "reads_inside (prn fmt args)" "reads_inside (Some x)"
  by (simp_all add: pr_def prn_def reads_inside_def)

lemma inside_map [inside]: "list_all P (map f xs) \<longleftrightarrow> (\<forall>x \<in> set xs. P (f x))"
  by (simp add: list_all_iff)

lemma inside_byte [inside]: "reads_inside (pr_byte fmt buf i) \<longleftrightarrow> 0 \<le> i \<and> i < int (length buf)"
  by (auto simp: pr_byte_def pr_def rd_def reads_inside_def)

lemma inside_rd [inside]:
  "0 \<le> i \<Longrightarrow> i < int (length buf) \<Longrightarrow> reads_inside (do { b \<leftarrow> rd buf i; f b }) \<longleftrightarrow> reads_inside (f (buf ! nat i))"
  by (simp add: rd_inside)

lemma inside_le16 [inside]:
  "0 \<le> i \<Longrightarrow> i + 1 < int (length buf) \<Longrightarrow>
   reads_inside (do { v \<leftarrow> le16 buf i; f v }) \<longleftrightarrow> reads_inside (f (push_bit 8 (ucast (buf ! nat (i + 1))) OR ucast (buf ! nat i)))"
  by (simp add: le16_def rd_inside)

lemma in_for_range [inside]: "i \<in> set (for_range a b) \<longleftrightarrow> a \<le> i \<and> i < b"
  by (auto simp: for_range_def)

lemma inside_addr [inside]: "0 \<le> off \<Longrightarrow> off + 5 < int (length buf) \<Longrightarrow> reads_inside (dump_addr name buf off r)"
  by (simp add: dump_addr_def inside)

lemma inside_fields [inside]:
  "0 \<le> off \<Longrightarrow> off < int (length buf) \<Longrightarrow> reads_inside (dump_8 name buf off)"
  "0 \<le> off \<Longrightarrow> off + 1 < int (length buf) \<Longrightarrow> reads_inside (dump_16 name buf off)"
  "0 \<le> off \<Longrightarrow> off + 2 < int (length buf) \<Longrightarrow> reads_inside (dump_24 name buf off)"
  "0 \<le> off \<Longrightarrow> off + 3 < int (length buf) \<Longrightarrow> reads_inside (dump_32 name buf off)"
  by (simp_all add: dump_8_def dump_16_def dump_24_def dump_32_def inside Let_def)

lemma inside_uuid [inside]: "length uuid = 16 \<Longrightarrow> reads_inside (dump_uuid uuid)"
  by (simp add: dump_uuid_def inside)

lemma inside_print128_steps:
  assumes "length uuid = 16" "0 \<le> pos" "pos + 1 + int n \<le> int (length buf)"
  shows "reads_inside (foldM (print128_step buf pos) (map int [k..<n]) (uuid, acc))"
  using assms(1)
proof (induction "n - k" arbitrary: k uuid acc)
  case (Suc d)
  let ?uuid = "uuid[nat (15 - int k mod 16) := buf ! nat (pos + 1 + int k)]"
  have k: "k < n" using Suc.hyps(2) by simp
  have rd: "rd buf (pos + 1 + int k) = Some (buf ! nat (pos + 1 + int k))"
    using k assms(2,3) by (intro rd_inside) auto
  have len: "length ?uuid = 16" using Suc.prems by simp
  have "\<exists>acc'. print128_step buf pos (int k) (uuid, acc) = Some (?uuid, acc')"
    using inside_uuid [OF len]
    by (auto simp: print128_step_def rd Let_def reads_inside_def pr_def prn_def outs.simps)
  then obtain acc' where "print128_step buf pos (int k) (uuid, acc) = Some (?uuid, acc')" ..
  with Suc.hyps(1) [of "Suc k" ?uuid acc'] Suc.hyps(2) len k show ?case
    by (simp add: upt_conv_Cons)
qed (simp add: reads_inside_def)

lemma inside_print128 [inside]:
  assumes "0 \<le> pos" "1 \<le> sublen" "pos + sublen \<le> int (length buf)"
  shows "reads_inside (dump_print128 buf pos sublen)"
proof -
  have "for_range 0 (sublen - 1) = map int [0..<nat (sublen - 1)]"
    using assms(2) by (intro nth_equalityI) (simp_all add: for_range_def nth_upto)
  with inside_print128_steps [of "replicate 16 0" pos "nat (sublen - 1)" buf 0 "[]"] assms show ?thesis
    by (auto simp: dump_print128_def inside reads_inside_def prn_def)
qed

text \<open>
  The parser of an advertising structure stays inside the buffer when a byte follows the structure:
  \<open>dump_flags\<close> reads the byte behind the type even when the structure has none.
\<close>

lemma inside_ad_structure [inside]:
  assumes "0 \<le> pos" "1 \<le> sublen" "pos + sublen < int (length buf)"
  shows "reads_inside (dump_ad_structure compid buf pos sublen ad_type)"
proof -
  have "reads_inside (dump_flags buf pos)"
    using assms by (simp add: dump_flags_def inside split: if_split)
  moreover have "reads_inside (dump_print16 buf pos sublen)"
    using assms by (auto simp: dump_print16_def inside)
  moreover have "reads_inside (dump_name buf pos sublen)" "reads_inside (dump_tx_power buf pos sublen)"
      "reads_inside (dump_interval_range buf pos sublen)" "reads_inside (dump_service_data buf pos sublen)"
      "reads_inside (dump_manufacturer compid buf pos sublen)"
    using assms by (simp_all add: dump_name_def dump_tx_power_def dump_interval_range_def
        dump_service_data_def dump_manufacturer_def inside)
  ultimately show ?thesis
    using assms by (simp add: dump_ad_structure_def inside)
qed

lemma inside_scan_rsp_loop:
  "0 \<le> pos \<Longrightarrow> len < int (length buf) \<Longrightarrow> reads_inside (scan_rsp_loop compid buf len pos)"
proof (induction compid buf len pos rule: scan_rsp_loop.induct)
  case (1 compid buf len pos)
  show ?case
  proof (cases "pos < len")
    case True
    let ?n = "buf ! nat pos"
    have rd: "rd buf pos = Some ?n" using True 1(2,3) by (intro rd_inside) auto
    show ?thesis
    proof (cases "pos + 1 + uint ?n > len \<or> ?n = 0")
      case False
      then have "0 < uint ?n" by (simp add: word_neq_0_conv word_less_def)
      moreover from calculation(1) False 1(2,3) have rd1: "rd buf (pos + 1) = Some (buf ! nat (pos + 1))"
        by (intro rd_inside) linarith+
      moreover from calculation(1) rd1 False 1(2,3) have "reads_inside (scan_rsp_loop compid buf len (pos + 1 + uint ?n))"
        by (intro "1.IH" [OF True rd _ _ rd1]) auto
      moreover from calculation(1) False 1(2,3) have "reads_inside (dump_ad_structure compid buf (pos + 1) (uint ?n) (buf ! nat (pos + 1)))"
        by (intro inside_ad_structure) linarith+
      ultimately show ?thesis
        using True False by (subst scan_rsp_loop.simps) (simp add: rd rd1 inside_outs inside_pr)
    next
      case True' : True
      with True show ?thesis
        by (subst scan_rsp_loop.simps) (auto simp add: rd inside)
    qed
  qed (simp add: scan_rsp_loop.simps inside)
qed

lemma inside_scan_rsp [inside]: "len < int (length buf) \<Longrightarrow> reads_inside (dump_scan_rsp_data compid buf len)"
  by (simp add: dump_scan_rsp_data_def inside_scan_rsp_loop)

subsection \<open>Decoded packets\<close>

lemma masked_bounds: "uint (b AND 0x1f :: u8) \<le> 31" "uint (b AND 0x3f :: u8) \<le> 63" "unat (b AND 3 :: u8) < 4"
proof -
  have le: "uint (b AND m) \<le> uint m" for b m :: u8
    by (simp add: word_and_le1 flip: word_le_def)
  have "unat (b AND 3 :: u8) \<le> unat (3 :: u8)"
    by (simp only: word_and_le1 flip: word_le_nat_alt)
  with le [of b "0x1f"] le [of b "0x3f"]
  show "uint (b AND 0x1f :: u8) \<le> 31" "uint (b AND 0x3f :: u8) \<le> 63" "unat (b AND 3 :: u8) < 4"
    by simp_all
qed

text \<open>
  The type invariant of a decoded packet: its 64 bytes, and a length within the header's field, of
  five bits on the data channels and six on the advertising channels.
\<close>

definition lell_wf :: "lell_packet \<Rightarrow> bool" where
  "lell_wf pkt \<longleftrightarrow>
     length (lell_symbols pkt) = 64 \<and> 0 \<le> lell_length pkt \<and>
     lell_length pkt \<le> (if lell_packet_is_data pkt then 31 else 63) \<and>
     lell_adv_type pkt < 16 \<and> lell_adv_tx_add pkt \<in> {0, 1} \<and> lell_adv_rx_add pkt \<in> {0, 1} \<and>
     lell_refcount pkt = 1 \<and> lell_access_address_ok pkt = (lell_access_address_offenses pkt = 0)"

lemma decode_pdu_wf:
  assumes "length (lell_symbols pkt) = 64" "lell_refcount pkt = 1" "lell_adv_type pkt = 0"
    "lell_adv_tx_add pkt = 0" "lell_adv_rx_add pkt = 0"
  shows "lell_wf (lell_decode_pdu pkt)"
proof -
  have "b AND 0xf < (16 :: u8)" for b
    using word_and_le1 [of b "0xf"] by (rule le_less_trans) simp
  with assms masked_bounds show ?thesis
    by (cases "lell_packet_is_data pkt") (simp_all add: lell_decode_pdu_def lell_wf_def Let_def lell_packet_is_data_def)
qed

lemma decode_pdu_keeps [simp]:
  "lell_symbols (lell_decode_pdu pkt) = lell_symbols pkt" "lell_channel_idx (lell_decode_pdu pkt) = lell_channel_idx pkt"
  by (simp_all add: lell_decode_pdu_def Let_def)

text \<open>
  C30. From any 64 received bytes, on any channel, \<open>lell_allocate_and_decode\<close> builds a well-formed
  packet: a length within its field, flags that are 0 or 1, and an access address that is marked as
  good exactly when it has no offense.
\<close>

theorem lell_decode_wf:
  assumes "64 \<le> length stream"
  shows "\<exists>pkt. lell_allocate_and_decode stream phys_channel clk100ns = Some pkt \<and> lell_wf pkt \<and>
    lell_symbols pkt = take 64 stream \<and> lell_channel_idx pkt = le_channel_index phys_channel"
proof -
  have sub: "sub stream 0 64 = Some (take 64 stream)" using assms by (simp add: sub_inside)
  show ?thesis
    unfolding lell_allocate_and_decode_def Let_def MAX_LE_SYMBOLS_def sub bind.bind_lunit
    by (intro exI conjI, rule refl, intro decode_pdu_wf)
      (use assms in \<open>simp_all add: lell_packet_new_def\<close>)
qed

lemma lell_decode_wf_witness:
  "\<exists>pkt. lell_allocate_and_decode (replicate 5 0 @ 0x3f # replicate 58 0) 2402 7 = Some pkt \<and> lell_wf pkt"
proof -
  have "64 \<le> length (replicate 5 0 @ 0x3f # replicate 58 (0 :: u8))" by simp
  from lell_decode_wf [OF this, of 2402 7] show ?thesis by blast
qed

lemma inside_print_data:
  "length (lell_symbols pkt) = 64 \<Longrightarrow> reads_inside (lell_print_data pkt)"
  by (simp add: lell_print_data_def inside Let_def)

lemma inside_print_adv:
  "length (lell_symbols pkt) = 64 \<Longrightarrow> lell_length pkt \<le> 55 \<Longrightarrow> reads_inside (lell_print_adv compid pkt)"
  by (auto simp: lell_print_adv_def lell_print_connect_req_def inside Let_def)

text \<open>
  C31. \<open>lell_print\<close> reads inside the 64 bytes of a decoded packet exactly when its length is at
  most 55. Every data packet is safe. An advertising header may announce up to 63 bytes, and from 56
  on the printer reads past the end of \<open>symbols\<close>.
\<close>

theorem lell_print_bounds:
  assumes "lell_wf pkt"
  shows "(\<exists>text. lell_print compid pkt = Some text) \<longleftrightarrow> lell_length pkt \<le> 55"
proof -
  have len: "length (lell_symbols pkt) = 64" "0 \<le> lell_length pkt" "lell_packet_is_data pkt \<Longrightarrow> lell_length pkt \<le> 31"
    using assms by (auto simp: lell_wf_def)
  have "reads_inside (lell_print compid pkt) \<longleftrightarrow> lell_length pkt \<le> 55"
    using len inside_print_data [OF len(1)] inside_print_adv [OF len(1), of compid]
    by (auto simp: lell_print_def inside Let_def)
  then show ?thesis by (simp add: reads_inside_def)
qed

lemma lell_print_bounds_witness:
  "lell_print (\<lambda>_. None) (lell_packet_new\<lparr>lell_channel_idx := 37, lell_length := 56, lell_access_address_ok := True\<rparr>) = None"
proof -
  have "lell_wf (lell_packet_new\<lparr>lell_channel_idx := 37, lell_length := 56, lell_access_address_ok := True\<rparr>)"
    by (simp add: lell_wf_def lell_packet_new_def lell_packet_is_data_def)
  from lell_print_bounds [OF this, of "\<lambda>_. None"] show ?thesis
    by (simp add: lell_packet_new_def)
qed

end
