(* ===== verification/LeFirmware.thy ===== *)
theory LeFirmware
  imports BitCodes LePacket
begin

text \<open>
  Bluetooth Low Energy in the receiver firmware (\<open>bluetooth_rxtx/bluetooth_le.c\<close> and its header): channel
  numbers and hopping, the checksum in its bitwise, table and reversed versions, whitening, and the
  remapping of unused channels.
\<close>

section \<open>Tables\<close>

definition le_whitening :: "u8 list" where
  "le_whitening =
    [1, 1, 1, 1, 0, 1, 0, 1, 0, 1, 0, 0, 0, 0, 1, 0, 1, 1, 0, 1, 1, 1,
     1, 0, 0, 1, 1, 1, 0, 0, 1, 0, 1, 0, 1, 1, 0, 0, 1, 1, 0, 0, 0, 0,
     0, 1, 1, 0, 1, 1, 0, 1, 0, 1, 1, 1, 0, 1, 0, 0, 0, 1, 1, 0, 0, 1,
     0, 0, 0, 1, 0, 0, 0, 0, 0, 0, 1, 0, 0, 1, 0, 0, 1, 1, 0, 1, 0, 0,
     1, 1, 1, 1, 0, 1, 1, 1, 0, 0, 0, 0, 1, 1, 1, 1, 1, 1, 1, 0, 0, 0,
     1, 1, 1, 0, 1, 1, 0, 0, 0, 1, 0, 1, 0, 0, 1, 0, 1]"

definition le_whitening_index :: "nat list" where
  "le_whitening_index =
    [70, 62, 120, 111, 77, 46, 15, 101, 66, 39, 31, 26, 80, 83, 125, 89, 10, 35, 8, 54,
     122, 17, 33, 0, 58, 115, 6, 94, 86, 49, 52, 20, 40, 27, 84, 90, 63, 112, 47, 102]"

definition hop_interval_lut :: "u8 list" where
  "hop_interval_lut =
    [0, 1, 19, 25, 28, 15, 31, 16, 14, 33, 26, 27, 34, 20, 8, 5, 7, 24, 35, 2,
     13, 30, 32, 29, 17, 3, 10, 11, 4, 23, 21, 6, 22, 9, 12, 18, 36]"

definition btle_crc_lut :: "u32 list" where
  "btle_crc_lut =
    [0x000000, 0x01b4c0, 0x036980, 0x02dd40, 0x06d300, 0x0767c0, 0x05ba80, 0x040e40,
     0x0da600, 0x0c12c0, 0x0ecf80, 0x0f7b40, 0x0b7500, 0x0ac1c0, 0x081c80, 0x09a840,
     0x1b4c00, 0x1af8c0, 0x182580, 0x199140, 0x1d9f00, 0x1c2bc0, 0x1ef680, 0x1f4240,
     0x16ea00, 0x175ec0, 0x158380, 0x143740, 0x103900, 0x118dc0, 0x135080, 0x12e440,
     0x369800, 0x372cc0, 0x35f180, 0x344540, 0x304b00, 0x31ffc0, 0x332280, 0x329640,
     0x3b3e00, 0x3a8ac0, 0x385780, 0x39e340, 0x3ded00, 0x3c59c0, 0x3e8480, 0x3f3040,
     0x2dd400, 0x2c60c0, 0x2ebd80, 0x2f0940, 0x2b0700, 0x2ab3c0, 0x286e80, 0x29da40,
     0x207200, 0x21c6c0, 0x231b80, 0x22af40, 0x26a100, 0x2715c0, 0x25c880, 0x247c40,
     0x6d3000, 0x6c84c0, 0x6e5980, 0x6fed40, 0x6be300, 0x6a57c0, 0x688a80, 0x693e40,
     0x609600, 0x6122c0, 0x63ff80, 0x624b40, 0x664500, 0x67f1c0, 0x652c80, 0x649840,
     0x767c00, 0x77c8c0, 0x751580, 0x74a140, 0x70af00, 0x711bc0, 0x73c680, 0x727240,
     0x7bda00, 0x7a6ec0, 0x78b380, 0x790740, 0x7d0900, 0x7cbdc0, 0x7e6080, 0x7fd440,
     0x5ba800, 0x5a1cc0, 0x58c180, 0x597540, 0x5d7b00, 0x5ccfc0, 0x5e1280, 0x5fa640,
     0x560e00, 0x57bac0, 0x556780, 0x54d340, 0x50dd00, 0x5169c0, 0x53b480, 0x520040,
     0x40e400, 0x4150c0, 0x438d80, 0x423940, 0x463700, 0x4783c0, 0x455e80, 0x44ea40,
     0x4d4200, 0x4cf6c0, 0x4e2b80, 0x4f9f40, 0x4b9100, 0x4a25c0, 0x48f880, 0x494c40,
     0xda6000, 0xdbd4c0, 0xd90980, 0xd8bd40, 0xdcb300, 0xdd07c0, 0xdfda80, 0xde6e40,
     0xd7c600, 0xd672c0, 0xd4af80, 0xd51b40, 0xd11500, 0xd0a1c0, 0xd27c80, 0xd3c840,
     0xc12c00, 0xc098c0, 0xc24580, 0xc3f140, 0xc7ff00, 0xc64bc0, 0xc49680, 0xc52240,
     0xcc8a00, 0xcd3ec0, 0xcfe380, 0xce5740, 0xca5900, 0xcbedc0, 0xc93080, 0xc88440,
     0xecf800, 0xed4cc0, 0xef9180, 0xee2540, 0xea2b00, 0xeb9fc0, 0xe94280, 0xe8f640,
     0xe15e00, 0xe0eac0, 0xe23780, 0xe38340, 0xe78d00, 0xe639c0, 0xe4e480, 0xe55040,
     0xf7b400, 0xf600c0, 0xf4dd80, 0xf56940, 0xf16700, 0xf0d3c0, 0xf20e80, 0xf3ba40,
     0xfa1200, 0xfba6c0, 0xf97b80, 0xf8cf40, 0xfcc100, 0xfd75c0, 0xffa880, 0xfe1c40,
     0xb75000, 0xb6e4c0, 0xb43980, 0xb58d40, 0xb18300, 0xb037c0, 0xb2ea80, 0xb35e40,
     0xbaf600, 0xbb42c0, 0xb99f80, 0xb82b40, 0xbc2500, 0xbd91c0, 0xbf4c80, 0xbef840,
     0xac1c00, 0xada8c0, 0xaf7580, 0xaec140, 0xaacf00, 0xab7bc0, 0xa9a680, 0xa81240,
     0xa1ba00, 0xa00ec0, 0xa2d380, 0xa36740, 0xa76900, 0xa6ddc0, 0xa40080, 0xa5b440,
     0x81c800, 0x807cc0, 0x82a180, 0x831540, 0x871b00, 0x86afc0, 0x847280, 0x85c640,
     0x8c6e00, 0x8ddac0, 0x8f0780, 0x8eb340, 0x8abd00, 0x8b09c0, 0x89d480, 0x886040,
     0x9a8400, 0x9b30c0, 0x99ed80, 0x985940, 0x9c5700, 0x9de3c0, 0x9f3e80, 0x9e8a40,
     0x972200, 0x9696c0, 0x944b80, 0x95ff40, 0x91f100, 0x9045c0, 0x929880, 0x932c40]"

definition whitening_word :: "nat list list" where
  "whitening_word =
    [[0xc3bcb240, 0x5f4a371f, 0x9a9cf685, 0x44c5d6c1, 0xe1de5920, 0xafa51b8f, 0xcd4e7b42, 0x2262eb60, 0xf0ef2c90, 0x57d28dc7, 0x66a73da1, 0x113175b0],
     [0xbcb24089, 0x4a371fc3, 0x9cf6855f, 0xc5d6c19a, 0xde592044, 0xa51b8fe1, 0x4e7b42af, 0x62eb60cd, 0xef2c9022, 0xd28dc7f0, 0xa73da157, 0x3175b066],
     [0x3da157d2, 0x75b066a7, 0x96481131, 0x46e3f877, 0x9ed0abe9, 0xbad83353, 0xcb240898, 0xa371fc3b, 0xcf6855f4, 0x5d6c19a9, 0xe592044c, 0x51b8fe1d],
     [0x42afa51b, 0x60cd4e7b, 0x902262eb, 0xc7f0ef2c, 0xa157d28d, 0xb066a73d, 0x48113175, 0xe3f87796, 0xd0abe946, 0xd833539e, 0x240898ba, 0x71fc3bcb],
     [0x3f877964, 0x0abe946e, 0x833539ed, 0x40898bad, 0x1fc3bcb2, 0x855f4a37, 0xc19a9cf6, 0x2044c5d6, 0x8fe1de59, 0x42afa51b, 0x60cd4e7b, 0x902262eb],
     [0x40898bad, 0x1fc3bcb2, 0x855f4a37, 0xc19a9cf6, 0x2044c5d6, 0x8fe1de59, 0x42afa51b, 0x60cd4e7b, 0x902262eb, 0xc7f0ef2c, 0xa157d28d, 0xb066a73d],
     [0xc19a9cf6, 0x2044c5d6, 0x8fe1de59, 0x42afa51b, 0x60cd4e7b, 0x902262eb, 0xc7f0ef2c, 0xa157d28d, 0xb066a73d, 0x48113175, 0xe3f87796, 0xd0abe946],
     [0xbe946e3f, 0x3539ed0a, 0x898bad83, 0xc3bcb240, 0x5f4a371f, 0x9a9cf685, 0x44c5d6c1, 0xe1de5920, 0xafa51b8f, 0xcd4e7b42, 0x2262eb60, 0xf0ef2c90],
     [0x3bcb2408, 0xf4a371fc, 0xa9cf6855, 0x4c5d6c19, 0x1de59204, 0xfa51b8fe, 0xd4e7b42a, 0x262eb60c, 0x0ef2c902, 0x7d28dc7f, 0x6a73da15, 0x13175b06],
     [0x44c5d6c1, 0xe1de5920, 0xafa51b8f, 0xcd4e7b42, 0x2262eb60, 0xf0ef2c90, 0x57d28dc7, 0x66a73da1, 0x113175b0, 0xf8779648, 0xabe946e3, 0x33539ed0],
     [0xc5d6c19a, 0xde592044, 0xa51b8fe1, 0x4e7b42af, 0x62eb60cd, 0xef2c9022, 0xd28dc7f0, 0xa73da157, 0x3175b066, 0x77964811, 0xe946e3f8, 0x539ed0ab],
     [0xbad83353, 0xcb240898, 0xa371fc3b, 0xcf6855f4, 0x5d6c19a9, 0xe592044c, 0x51b8fe1d, 0xe7b42afa, 0x2eb60cd4, 0xf2c90226, 0x28dc7f0e, 0x73da157d],
     [0xc7f0ef2c, 0xa157d28d, 0xb066a73d, 0x48113175, 0xe3f87796, 0xd0abe946, 0xd833539e, 0x240898ba, 0x71fc3bcb, 0x6855f4a3, 0x6c19a9cf, 0x92044c5d],
     [0xb8fe1de5, 0xb42afa51, 0xb60cd4e7, 0xc902262e, 0xdc7f0ef2, 0xda157d28, 0x5b066a73, 0x64811317, 0x6e3f8779, 0xed0abe94, 0xad833539, 0xb240898b],
     [0x39ed0abe, 0x8bad8335, 0xbcb24089, 0x4a371fc3, 0x9cf6855f, 0xc5d6c19a, 0xde592044, 0xa51b8fe1, 0x4e7b42af, 0x62eb60cd, 0xef2c9022, 0xd28dc7f0],
     [0x46e3f877, 0x9ed0abe9, 0xbad83353, 0xcb240898, 0xa371fc3b, 0xcf6855f4, 0x5d6c19a9, 0xe592044c, 0x51b8fe1d, 0xe7b42afa, 0x2eb60cd4, 0xf2c90226],
     [0x33539ed0, 0x0898bad8, 0xfc3bcb24, 0x55f4a371, 0x19a9cf68, 0x044c5d6c, 0xfe1de592, 0x2afa51b8, 0x0cd4e7b4, 0x02262eb6, 0x7f0ef2c9, 0x157d28dc],
     [0x4c5d6c19, 0x1de59204, 0xfa51b8fe, 0xd4e7b42a, 0x262eb60c, 0x0ef2c902, 0x7d28dc7f, 0x6a73da15, 0x13175b06, 0x87796481, 0xbe946e3f, 0x3539ed0a],
     [0xcd4e7b42, 0x2262eb60, 0xf0ef2c90, 0x57d28dc7, 0x66a73da1, 0x113175b0, 0xf8779648, 0xabe946e3, 0x33539ed0, 0x0898bad8, 0xfc3bcb24, 0x55f4a371],
     [0xb240898b, 0x371fc3bc, 0xf6855f4a, 0xd6c19a9c, 0x592044c5, 0x1b8fe1de, 0x7b42afa5, 0xeb60cd4e, 0x2c902262, 0x8dc7f0ef, 0x3da157d2, 0x75b066a7],
     [0xcf6855f4, 0x5d6c19a9, 0xe592044c, 0x51b8fe1d, 0xe7b42afa, 0x2eb60cd4, 0xf2c90226, 0x28dc7f0e, 0x73da157d, 0x175b066a, 0x79648113, 0x946e3f87],
     [0xb066a73d, 0x48113175, 0xe3f87796, 0xd0abe946, 0xd833539e, 0x240898ba, 0x71fc3bcb, 0x6855f4a3, 0x6c19a9cf, 0x92044c5d, 0xb8fe1de5, 0xb42afa51],
     [0x3175b066, 0x77964811, 0xe946e3f8, 0x539ed0ab, 0x98bad833, 0x3bcb2408, 0xf4a371fc, 0xa9cf6855, 0x4c5d6c19, 0x1de59204, 0xfa51b8fe, 0xd4e7b42a],
     [0x4e7b42af, 0x62eb60cd, 0xef2c9022, 0xd28dc7f0, 0xa73da157, 0x3175b066, 0x77964811, 0xe946e3f8, 0x539ed0ab, 0x98bad833, 0x3bcb2408, 0xf4a371fc],
     [0xcb240898, 0xa371fc3b, 0xcf6855f4, 0x5d6c19a9, 0xe592044c, 0x51b8fe1d, 0xe7b42afa, 0x2eb60cd4, 0xf2c90226, 0x28dc7f0e, 0x73da157d, 0x175b066a],
     [0xb42afa51, 0xb60cd4e7, 0xc902262e, 0xdc7f0ef2, 0xda157d28, 0x5b066a73, 0x64811317, 0x6e3f8779, 0xed0abe94, 0xad833539, 0xb240898b, 0x371fc3bc],
     [0x3539ed0a, 0x898bad83, 0xc3bcb240, 0x5f4a371f, 0x9a9cf685, 0x44c5d6c1, 0xe1de5920, 0xafa51b8f, 0xcd4e7b42, 0x2262eb60, 0xf0ef2c90, 0x57d28dc7],
     [0x4a371fc3, 0x9cf6855f, 0xc5d6c19a, 0xde592044, 0xa51b8fe1, 0x4e7b42af, 0x62eb60cd, 0xef2c9022, 0xd28dc7f0, 0xa73da157, 0x3175b066, 0x77964811],
     [0x371fc3bc, 0xf6855f4a, 0xd6c19a9c, 0x592044c5, 0x1b8fe1de, 0x7b42afa5, 0xeb60cd4e, 0x2c902262, 0x8dc7f0ef, 0x3da157d2, 0x75b066a7, 0x96481131],
     [0x48113175, 0xe3f87796, 0xd0abe946, 0xd833539e, 0x240898ba, 0x71fc3bcb, 0x6855f4a3, 0x6c19a9cf, 0x92044c5d, 0xb8fe1de5, 0xb42afa51, 0xb60cd4e7],
     [0xc902262e, 0xdc7f0ef2, 0xda157d28, 0x5b066a73, 0x64811317, 0x6e3f8779, 0xed0abe94, 0xad833539, 0xb240898b, 0x371fc3bc, 0xf6855f4a, 0xd6c19a9c],
     [0xb60cd4e7, 0xc902262e, 0xdc7f0ef2, 0xda157d28, 0x5b066a73, 0x64811317, 0x6e3f8779, 0xed0abe94, 0xad833539, 0xb240898b, 0x371fc3bc, 0xf6855f4a],
     [0x2262eb60, 0xf0ef2c90, 0x57d28dc7, 0x66a73da1, 0x113175b0, 0xf8779648, 0xabe946e3, 0x33539ed0, 0x0898bad8, 0xfc3bcb24, 0x55f4a371, 0x19a9cf68],
     [0x5d6c19a9, 0xe592044c, 0x51b8fe1d, 0xe7b42afa, 0x2eb60cd4, 0xf2c90226, 0x28dc7f0e, 0x73da157d, 0x175b066a, 0x79648113, 0x946e3f87, 0x39ed0abe],
     [0xdc7f0ef2, 0xda157d28, 0x5b066a73, 0x64811317, 0x6e3f8779, 0xed0abe94, 0xad833539, 0xb240898b, 0x371fc3bc, 0xf6855f4a, 0xd6c19a9c, 0x592044c5],
     [0xa371fc3b, 0xcf6855f4, 0x5d6c19a9, 0xe592044c, 0x51b8fe1d, 0xe7b42afa, 0x2eb60cd4, 0xf2c90226, 0x28dc7f0e, 0x73da157d, 0x175b066a, 0x79648113],
     [0xde592044, 0xa51b8fe1, 0x4e7b42af, 0x62eb60cd, 0xef2c9022, 0xd28dc7f0, 0xa73da157, 0x3175b066, 0x77964811, 0xe946e3f8, 0x539ed0ab, 0x98bad833],
     [0xa157d28d, 0xb066a73d, 0x48113175, 0xe3f87796, 0xd0abe946, 0xd833539e, 0x240898ba, 0x71fc3bcb, 0x6855f4a3, 0x6c19a9cf, 0x92044c5d, 0xb8fe1de5],
     [0x2044c5d6, 0x8fe1de59, 0x42afa51b, 0x60cd4e7b, 0x902262eb, 0xc7f0ef2c, 0xa157d28d, 0xb066a73d, 0x48113175, 0xe3f87796, 0xd0abe946, 0xd833539e],
     [0x5f4a371f, 0x9a9cf685, 0x44c5d6c1, 0xe1de5920, 0xafa51b8f, 0xcd4e7b42, 0x2262eb60, 0xf0ef2c90, 0x57d28dc7, 0x66a73da1, 0x113175b0, 0xf8779648]]"

section \<open>Channels\<close>

datatype link_state_t = LINK_INACTIVE | LINK_LISTENING | LINK_CONN_PENDING | LINK_CONNECTED

record le_state_t =
  le_access_address :: u32
  le_synch :: u16
  le_syncl :: u16
  le_crc_init :: u32
  le_crc_init_reversed :: u32
  le_crc_verify :: int
  le_link_state :: link_state_t
  le_channel_idx :: u8
  le_channel_increment :: u8
  le_conn_epoch :: u32
  le_interval_timer :: u16
  le_conn_interval :: u16
  le_conn_count :: u16
  le_win_size :: u8
  le_win_offset :: u16
  le_update_pending :: int
  le_update_instant :: u16
  le_update_interval :: u16
  le_update_win_size :: u8
  le_update_win_offset :: u16
  le_do_follow :: int
  le_target :: "u8 list"
  le_target_mask :: "u8 list"
  le_target_set :: int
  le_last_packet :: u32

definition btle_channel_index_to_phys :: "u8 \<Rightarrow> u16" where
  "btle_channel_index_to_phys idx =
     (let i = uint idx in
      word_of_int
        (if i < 11 then 2404 + 2 * i
         else if i < 37 then 2428 + 2 * (i - 11)
         else if i = 37 then 2402
         else if i = 38 then 2426
         else 2480))"

definition btle_channel_index :: "u16 \<Rightarrow> u8" where
  "btle_channel_index channel =
     (let channel = word_of_int ((uint channel - 2402) sdiv 2) :: u16 in
      if channel = 0 then 37
      else if channel < 12 then ucast (channel - 1)
      else if channel = 12 then 38
      else if channel < 39 then ucast (channel - 2)
      else 39)"

definition btle_next_hop :: "le_state_t \<Rightarrow> u16 \<times> le_state_t" where
  "btle_next_hop le =
     (let phys = btle_channel_index_to_phys (le_channel_idx le)
      in (phys, le\<lparr>le_channel_idx := word_of_int ((uint (le_channel_idx le) + uint (le_channel_increment le)) mod 37)\<rparr>))"

text \<open>
  C39. The firmware's two conversions between the forty channel indices and frequencies are
  inverse to each other, and the host's \<open>le_channel_index\<close> agrees with them.
\<close>

theorem channel_numbers_agree:
  "map (\<lambda>idx. btle_channel_index (btle_channel_index_to_phys idx)) (map of_nat [0..<40]) = map of_nat [0..<40] \<and>
   map (\<lambda>f. btle_channel_index_to_phys (btle_channel_index f)) (map (\<lambda>k. of_nat (2402 + 2 * k)) [0..<40]) =
     map (\<lambda>k. of_nat (2402 + 2 * k)) [0..<40] \<and>
   map btle_channel_index (map (\<lambda>k. of_nat (2402 + 2 * k)) [0..<40]) = map le_channel_index (map (\<lambda>k. of_nat (2402 + 2 * k)) [0..<40])"
  by (simp add: btle_channel_index_def btle_channel_index_to_phys_def le_channel_index_def upt_eval)

text \<open>The frequencies a connection visits in its next \<open>n\<close> hops.\<close>

fun btle_hops :: "nat \<Rightarrow> le_state_t \<Rightarrow> u16 list" where
  "btle_hops 0 le = []"
| "btle_hops (Suc n) le = (let (phys, le) = btle_next_hop le in phys # btle_hops n le)"

lemma next_hop_idx:
  "uint (le_channel_idx (snd (btle_next_hop le))) = (uint (le_channel_idx le) + uint (le_channel_increment le)) mod 37"
  "le_channel_increment (snd (btle_next_hop le)) = le_channel_increment le"
proof -
  have "(uint (le_channel_idx le) + uint (le_channel_increment le)) mod 37 < 37" by simp
  then have "(uint (le_channel_idx le) + uint (le_channel_increment le)) mod 37 < 256" by linarith
  then show "uint (le_channel_idx (snd (btle_next_hop le))) = (uint (le_channel_idx le) + uint (le_channel_increment le)) mod 37"
    by (simp add: btle_next_hop_def Let_def uint_word_of_int_eq take_bit_int_eq_self)
qed (simp add: btle_next_hop_def Let_def)

lemma btle_hops_channels:
  assumes "uint (le_channel_idx le) < 37"
  shows "btle_hops n le = map (\<lambda>k. btle_channel_index_to_phys
    (word_of_int ((uint (le_channel_idx le) + int k * uint (le_channel_increment le)) mod 37))) [0..<n]"
  using assms
proof (induction n arbitrary: le)
  case (Suc n)
  let ?le = "snd (btle_next_hop le)" and ?i = "uint (le_channel_increment le)"
  have "uint (le_channel_idx ?le) < 37" unfolding next_hop_idx by simp
  note IH = Suc.IH [OF this, unfolded next_hop_idx]
  have "(uint (le_channel_idx le) + ?i) mod 37 + int k * ?i = (uint (le_channel_idx le) + ?i) mod 37 + int k * ?i"
    and shift: "((uint (le_channel_idx le) + ?i) mod 37 + int k * ?i) mod 37 = (uint (le_channel_idx le) + int (Suc k) * ?i) mod 37" for k
    by (simp_all add: mod_simps algebra_simps)
  have "btle_hops (Suc n) le = btle_channel_index_to_phys (le_channel_idx le) # btle_hops n ?le"
    by (simp add: btle_next_hop_def Let_def)
  also have "\<dots> = map (\<lambda>k. btle_channel_index_to_phys (word_of_int ((uint (le_channel_idx le) + int k * ?i) mod 37))) (0 # map Suc [0..<n])"
    unfolding IH shift using Suc.prems by (simp add: comp_def)
  finally show ?case by (simp add: map_Suc_upt upt_conv_Cons del: upt_Suc)
qed simp

text \<open>
  Every increment has an inverse modulo 37, which is what \<open>hop_interval_lut\<close> tabulates.
\<close>

lemma hop_interval_inverse:
  assumes "0 < n" "n < 37"
  shows "int n * uint (hop_interval_lut ! n) mod 37 = 1" and "uint (hop_interval_lut ! n) < 37"
proof -
  have "list_all (\<lambda>n. int n * uint (hop_interval_lut ! n) mod 37 = 1 \<and> uint (hop_interval_lut ! n) < 37) [1..<37]"
    by (simp add: hop_interval_lut_def upt_eval)
  then have "int n * uint (hop_interval_lut ! n) mod 37 = 1 \<and> uint (hop_interval_lut ! n) < 37"
    using assms by (simp only: list_all_iff set_upt atLeastLessThan_iff) simp
  then show "int n * uint (hop_interval_lut ! n) mod 37 = 1" "uint (hop_interval_lut ! n) < 37"
    by blast+
qed

lemma mod_solve:
  fixes a c i j m :: int
  assumes "i * j mod m = 1"
  shows "(a + ((c - a) * j mod m) * i) mod m = c mod m"
proof -
  have "((c - a) * j mod m) * i mod m = (c - a) * j * i mod m" by (rule mod_mult_left_eq)
  also have "(c - a) * j * i = (c - a) * (i * j)" by simp
  also have "\<dots> mod m = (c - a) * (i * j mod m) mod m" by (rule mod_mult_right_eq [symmetric])
  finally have "((c - a) * j mod m) * i mod m = (c - a) mod m" using assms by simp
  from mod_add_cong [OF refl [of "a mod m"] this] show ?thesis by simp
qed

lemma hop_count:
  fixes a c i :: int
  assumes "0 < i" "i < 37" "0 \<le> c" "c < 37"
  obtains k :: nat where "k < 37" "(a + int k * i) mod 37 = c"
proof -
  let ?j = "uint (hop_interval_lut ! nat i)"
  let ?k = "nat ((c - a) * ?j mod 37)"
  have "i * ?j mod 37 = 1"
    using hop_interval_inverse(1) [of "nat i"] assms by simp
  then have "(a + int ?k * i) mod 37 = c"
    using mod_solve [of i ?j 37 a c] assms by simp
  moreover have "(c - a) * ?j mod 37 < 37" by simp
  then have "?k < 37" by linarith
  ultimately show ?thesis using that by blast
qed

text \<open>
  C32. A connection with any increment from 1 to 36 returns to every data channel: the next
  37 hops visit all 37 of them, each once.
\<close>

theorem btle_visits_every_channel:
  assumes "le_channel_idx le < 37" and "0 < le_channel_increment le" and "le_channel_increment le < 37"
  shows "set (btle_hops 37 le) = btle_channel_index_to_phys ` of_nat ` {0..<37} \<and> distinct (btle_hops 37 le)"
proof -
  let ?a = "uint (le_channel_idx le)" and ?i = "uint (le_channel_increment le)"
  let ?phys = "\<lambda>c :: nat. btle_channel_index_to_phys (of_nat c)"
  have i: "0 < ?i" "?i < 37" "?a < 37" using assms by (simp_all add: word_less_def)
  have hops: "btle_hops 37 le = map (\<lambda>k. ?phys (nat ((?a + int k * ?i) mod 37))) [0..<37]"
    unfolding btle_hops_channels [OF i(3)] by simp
  let ?g = "\<lambda>k :: nat. nat ((?a + int k * ?i) mod 37)"
  have "?g ` {0..<37} = {0..<37}"
  proof (intro equalityI subsetI)
    fix c :: nat assume "c \<in> {0..<37}"
    then obtain k where k: "k < 37" "(?a + int k * ?i) mod 37 = int c"
      using hop_count [OF i(1,2), of "int c" ?a] by auto
    then have "c = ?g k" by simp
    with k(1) show "c \<in> ?g ` {0..<37}" by (intro image_eqI [of _ _ k]) simp_all
  next
    fix c assume "c \<in> ?g ` {0..<37}"
    then obtain k where "c = ?g k" by blast
    moreover have "(?a + int k * ?i) mod 37 < 37" by simp
    ultimately show "c \<in> {0..<37}" by (simp add: nat_less_iff)
  qed
  moreover have "set (btle_hops 37 le) = ?phys ` ?g ` {0..<37}"
    unfolding hops set_map set_upt image_image ..
  ultimately have all: "set (btle_hops 37 le) = ?phys ` {0..<37}" by simp
  have "map (\<lambda>c. btle_channel_index (?phys c)) [0..<37] = map of_nat [0..<37]"
    by (simp add: btle_channel_index_def btle_channel_index_to_phys_def upt_eval)
  moreover have "distinct (map (of_nat :: nat \<Rightarrow> u8) [0..<37])" by (simp add: upt_eval)
  ultimately have "distinct (map (\<lambda>c. btle_channel_index (?phys c)) [0..<37])" by (simp only:)
  then have "inj_on ?phys {0..<37}"
    by (simp add: distinct_map inj_on_def)
  then have "card (set (btle_hops 37 le)) = length (btle_hops 37 le)"
    unfolding all by (simp add: card_image hops)
  with all show ?thesis by (auto simp: card_distinct image_image)
qed

definition example_connection :: le_state_t where
  "example_connection =
     \<lparr>le_access_address = 0, le_synch = 0, le_syncl = 0, le_crc_init = 0, le_crc_init_reversed = 0, le_crc_verify = 1,
      le_link_state = LINK_CONNECTED, le_channel_idx = 0, le_channel_increment = 5, le_conn_epoch = 0, le_interval_timer = 0,
      le_conn_interval = 6, le_conn_count = 0, le_win_size = 1, le_win_offset = 0, le_update_pending = 0, le_update_instant = 0,
      le_update_interval = 0, le_update_win_size = 0, le_update_win_offset = 0, le_do_follow = 1, le_target = replicate 6 0,
      le_target_mask = replicate 6 0, le_target_set = 0, le_last_packet = 0\<rparr>"

lemma btle_visits_every_channel_witness: "distinct (btle_hops 37 example_connection)"
  using btle_visits_every_channel [of example_connection] by (simp add: example_connection_def)

text \<open>
  C37. Whoever counts \<open>n\<close> hops from 2404 MHz to 2406 MHz learns the increment of the connection:
  it is entry \<open>n\<close> of \<open>hop_interval_lut\<close>, and no other increment below 37 explains the count.
\<close>

theorem hop_interval_recovers:
  assumes "le_channel_idx le = 0" and "le_channel_increment le < 37" and "0 < n" and "n < 37"
  shows "btle_hops (Suc n) le ! n = 2406 \<longleftrightarrow> le_channel_increment le = hop_interval_lut ! n"
proof -
  let ?i = "uint (le_channel_increment le)" and ?j = "uint (hop_interval_lut ! n)"
  let ?c = "int n * ?i mod 37"
  note inv = hop_interval_inverse [OF assms(3,4)]
  have i: "0 \<le> ?i" "?i < 37" using assms(2) by (simp_all add: word_less_def)
  have c: "0 \<le> ?c" "?c < 37" by simp_all
  have "btle_hops (Suc n) le ! n = btle_channel_index_to_phys (word_of_int ?c)"
    using btle_hops_channels [of le "Suc n"] assms(1) by (simp add: nth_append del: upt_Suc)
  moreover have "btle_channel_index_to_phys (word_of_int ?c) = 2406 \<longleftrightarrow> ?c = 1"
  proof -
    have "list_all (\<lambda>k. btle_channel_index_to_phys (word_of_int (int k)) = 2406 \<longleftrightarrow> k = 1) [0..<37]"
      by (simp add: btle_channel_index_to_phys_def upt_eval)
    then have "btle_channel_index_to_phys (word_of_int (int (nat ?c))) = 2406 \<longleftrightarrow> nat ?c = 1"
      using c by (simp only: list_all_iff set_upt) (metis atLeastLessThan_iff nat_less_iff zero_le of_nat_numeral)
    moreover have "nat ?c = 1 \<longleftrightarrow> ?c = 1" by linarith
    ultimately show ?thesis using c by simp
  qed
  moreover have "?c = 1 \<longleftrightarrow> ?i = ?j"
  proof
    assume "?c = 1"
    then have "?i = (0 + ((?i - 0) * ?j mod 37) * int n) mod 37"
      using mod_solve [of "int n" ?j 37 0 ?i] inv(1) i by simp
    also have "\<dots> = ?j * ?c mod 37"
      by (simp add: mod_mult_left_eq mod_mult_right_eq ac_simps)
    finally show "?i = ?j" using \<open>?c = 1\<close> inv(2) by simp
  qed (simp add: inv)
  ultimately show ?thesis by (simp add: word_uint_eq_iff)
qed

lemma hop_interval_recovers_witness: "hop_interval_lut ! 15 = 5"
proof -
  have "btle_hops (Suc 15) example_connection ! 15 = 2406"
    using btle_hops_channels [of example_connection "Suc 15"]
    by (simp add: example_connection_def btle_channel_index_to_phys_def nth_append del: upt_Suc btle_hops.simps)
  then show ?thesis
    using hop_interval_recovers [of example_connection 15]
    by (simp add: example_connection_def del: btle_hops.simps)
qed

section \<open>The checksum\<close>

text \<open>One turn of the inner loop of \<open>btle_calc_crc\<close>: the low bits of \<open>state\<close> and \<open>cur\<close> decide.\<close>

definition btle_crc_bit :: "u32 \<times> u8 \<Rightarrow> u32 \<times> u8" where
  "btle_crc_bit = (\<lambda>(state, cur).
     let next_bit = (state XOR ucast cur) AND 1;
         cur = drop_bit 1 cur;
         state = drop_bit 1 state
     in (if next_bit \<noteq> 0 then (state OR push_bit 23 1) XOR 0x5a6000 else state, cur))"

definition btle_calc_crc :: "u32 \<Rightarrow> u8 list \<Rightarrow> u32" where
  "btle_calc_crc crc_init data =
     fold (\<lambda>byte state. fst ((btle_crc_bit ^^ 8) (state, byte))) data (crc_init AND 0xffffff)"

definition btle_reverse_bit :: "u8 \<Rightarrow> nat \<Rightarrow> u32 \<Rightarrow> u32" where
  "btle_reverse_bit cur j state =
     (let top_bit = drop_bit 23 state;
          state = push_bit 1 state AND 0xffffff;
          state = state OR (top_bit XOR (drop_bit (7 - j) (ucast cur) AND 1))
      in if top_bit \<noteq> 0 then state XOR 0xb4c000 else state)"

definition btle_reverse_crc :: "u32 \<Rightarrow> u8 list \<Rightarrow> u32" where
  "btle_reverse_crc crc data =
     (let state = fold (\<lambda>cur state. fold (btle_reverse_bit cur) [0..<8] state) (rev data) crc
      in fold (\<lambda>i ret. ret OR push_bit (23 - i) (drop_bit i state AND 1)) [0..<24] 0)"

definition btle_crcgen_lut :: "u32 \<Rightarrow> u8 list \<Rightarrow> u32" where
  "btle_crcgen_lut crc_init data =
     fold (\<lambda>byte state.
         let key = byte XOR ucast (state AND 0xff)
         in drop_bit 8 state XOR btle_crc_lut ! unat key)
       data (crc_init AND 0xffffff)"

text \<open>The bit step without the byte, on a register of 24 bits.\<close>

definition crc24_step :: "u32 \<Rightarrow> u32" where
  "crc24_step s = drop_bit 1 s XOR (if bit s 0 then 0xda6000 else 0)"

interpretation crc24: xor_linear crc24_step
  by unfold_locales (auto simp: crc24_step_def drop_bit_xor bit_simps xor.assoc xor.left_commute)

lemma crc24_steps_linear: "(crc24_step ^^ n) (x XOR y) = (crc24_step ^^ n) x XOR (crc24_step ^^ n) y"
  by (induction n) (simp_all add: crc24.xor)

interpretation crc24_byte: xor_linear "crc24_step ^^ 8"
  by unfold_locales (rule crc24_steps_linear)

lemma bits_24: "take_bit 24 s = s \<Longrightarrow> bit s n \<Longrightarrow> n < 24"
  by (metis bit_take_bit_iff)

lemma crc24_step_range: "take_bit 24 s = s \<Longrightarrow> take_bit 24 (crc24_step s) = crc24_step s"
proof -
  assume s: "take_bit 24 s = s"
  have "take_bit 24 (drop_bit 1 s) = drop_bit 1 s"
    by (rule bit_word_eqI) (auto simp: bit_simps dest: bits_24 [OF s])
  moreover have "take_bit 24 (if b then 0xda6000 else 0 :: u32) = (if b then 0xda6000 else 0)" for b
    by simp
  ultimately show ?thesis
    unfolding crc24_step_def take_bit_xor by simp
qed

lemma crc_bit_step:
  assumes "take_bit 24 s = s"
  shows "btle_crc_bit (s, cur) = (crc24_step (s XOR ucast cur) XOR ucast (drop_bit 1 cur), drop_bit 1 cur)"
proof -
  have high: "\<not> bit s 24" using assms by (metis bit_take_bit_iff less_irrefl)
  have "drop_bit 1 s OR 0x800000 = drop_bit 1 s XOR 0x800000"
  proof (rule bit_word_eqI)
    fix n :: nat
    have "bit (0x800000 :: u32) n \<longleftrightarrow> n = 23"
      using bit_exp_iff [of 23 n, where 'a = "32 word"] by (auto dest: bit_imp_le_length)
    then show "bit (drop_bit 1 s OR 0x800000) n = bit (drop_bit 1 s XOR 0x800000) n"
      using high by (auto simp: bit_simps)
  qed
  then have set: "(drop_bit 1 s OR push_bit 23 1) XOR 0x5a6000 = drop_bit 1 s XOR 0xda6000"
    by (simp add: xor.assoc)
  have odd: "(s XOR ucast cur) AND 1 \<noteq> 0 \<longleftrightarrow> bit (s XOR ucast cur :: u32) 0"
    by (simp add: and_one_eq odd_iff_mod_2_eq_one bit_0)
  have "(ucast (drop_bit 1 cur) :: u32) = drop_bit 1 (ucast cur)"
    by (rule bit_word_eqI) (auto simp: bit_simps dest: bit_imp_le_length)
  then show ?thesis
    unfolding btle_crc_bit_def Let_def split_conv odd set crc24_step_def drop_bit_xor
    by (simp add: xor.assoc xor.left_commute xor.commute)
qed

lemma crc_bits:
  assumes "take_bit 24 s = s" "n \<le> 8"
  shows "(btle_crc_bit ^^ n) (s, cur) = ((crc24_step ^^ n) (s XOR ucast cur) XOR ucast (drop_bit n cur), drop_bit n cur)"
  using assms(2)
proof (induction n)
  case (Suc n)
  have cur24: "take_bit 24 (ucast (c :: u8) :: u32) = ucast c" for c
    by (rule bit_word_eqI) (auto simp: bit_simps dest: bit_imp_le_length)
  have "take_bit 24 ((crc24_step ^^ n) (s XOR ucast cur)) = (crc24_step ^^ n) (s XOR ucast cur)"
    by (induction n) (simp_all add: take_bit_xor assms(1) cur24 crc24_step_range)
  then have "take_bit 24 ((crc24_step ^^ n) (s XOR ucast cur) XOR ucast (drop_bit n cur)) =
      (crc24_step ^^ n) (s XOR ucast cur) XOR ucast (drop_bit n cur)"
    by (simp add: take_bit_xor cur24)
  from crc_bit_step [OF this, of "drop_bit n cur"] Suc show ?case
    by (simp add: xor.assoc drop_bit_drop_bit add.commute)
qed (simp add: xor.assoc)

lemma crc_byte:
  "take_bit 24 s = s \<Longrightarrow> fst ((btle_crc_bit ^^ 8) (s, cur)) = (crc24_step ^^ 8) (s XOR ucast cur)"
proof -
  have "drop_bit 8 cur = 0" by (rule bit_word_eqI) (auto simp: bit_simps dest: bit_imp_le_length)
  then show "take_bit 24 s = s \<Longrightarrow> ?thesis" by (simp add: crc_bits)
qed

lemma btle_crc_lut_span: "btle_crc_lut = span_xor (map (\<lambda>i. (crc24_step ^^ 8) (2 ^ i)) [7, 6, 5, 4, 3, 2, 1, 0])"
proof -
  have eight: "(f ^^ 8) x = f (f (f (f (f (f (f (f x)))))))" for f :: "u32 \<Rightarrow> u32" and x
    by (simp add: numeral_eq_Suc)
  have "map (\<lambda>i. (crc24_step ^^ 8) (2 ^ i)) [7, 6, 5, 4, 3, 2, 1, 0 :: nat] =
      [0xda6000, 0x6d3000, 0x369800, 0x1b4c00, 0xda600, 0x6d300, 0x36980, 0x1b4c0]"
    unfolding list.map eight by (simp add: crc24_step_def)
  then show ?thesis
    by (simp only: btle_crc_lut_def) (simp add: span_xor.simps Let_def)
qed

lemma crc24_shift:
  "take_bit 24 s = s \<Longrightarrow> n \<le> 8 \<Longrightarrow> (crc24_step ^^ n) (push_bit n (drop_bit n s)) = drop_bit n s"
proof (induction n arbitrary: s)
  case (Suc n)
  have "bit (push_bit (Suc n) (drop_bit (Suc n) s)) 0 = False"
    by (simp only: bit_push_bit_iff) simp
  moreover have "drop_bit 1 (push_bit (Suc n) (drop_bit (Suc n) s)) = push_bit n (drop_bit n (drop_bit 1 s))"
    by (rule bit_word_eqI) (auto simp: bit_simps simp del: push_bit_Suc dest: bits_24 [OF Suc.prems(1)])
  ultimately have "crc24_step (push_bit (Suc n) (drop_bit (Suc n) s)) = push_bit n (drop_bit n (drop_bit 1 s))"
    unfolding crc24_step_def by simp
  moreover have "take_bit 24 (drop_bit 1 s) = drop_bit 1 s"
    by (rule bit_word_eqI) (auto simp: bit_simps dest: bits_24 [OF Suc.prems(1)])
  ultimately show ?case
    using Suc.IH [of "drop_bit 1 s"] Suc.prems(2) by (simp add: funpow_swap1 drop_bit_drop_bit del: push_bit_Suc)
qed simp

lemma crc_lut_byte:
  fixes byte :: u8
  assumes "take_bit 24 s = s"
  shows "drop_bit 8 s XOR btle_crc_lut ! unat (byte XOR ucast (s AND 0xff)) = (crc24_step ^^ 8) (s XOR ucast byte)"
proof -
  let ?k = "byte XOR ucast (s AND 0xff)"
  have "(crc24_step ^^ 8) (ucast ?k) = xsel (map (\<lambda>i. (crc24_step ^^ 8) (2 ^ i)) [7, 6, 5, 4, 3, 2, 1, 0])
      (map (bit (ucast ?k :: u32)) [7, 6, 5, 4, 3, 2, 1, 0])"
    by (rule crc24_byte.columns) (auto simp: bit_simps dest!: bit_imp_le_length)
  also have "\<dots> = btle_crc_lut ! unat ?k"
    unfolding btle_crc_lut_span by (subst span_xor_byte) (simp_all add: bit_simps)
  finally have "btle_crc_lut ! unat ?k = (crc24_step ^^ 8) (ucast ?k)" ..
  moreover have "s XOR ucast byte = push_bit 8 (drop_bit 8 s) XOR ucast ?k"
    unfolding low_byte
    by (rule bit_word_eqI) (auto simp: bit_simps not_le dest: bit_imp_le_length)
  ultimately show ?thesis
    using crc24_shift [OF assms, of 8] by (simp add: crc24_byte.xor)
qed

lemma crc24_init: "take_bit 24 (s AND 0xffffff) = (s AND 0xffffff :: u32)"
proof -
  have "(0xffffff :: u32) = mask 24" by (simp add: mask_eq_exp_minus_1)
  then show ?thesis by (simp add: take_bit_eq_mask and.assoc)
qed

lemma crc24_keep: "take_bit 24 s = s \<Longrightarrow> take_bit 24 ((crc24_step ^^ n) (s XOR ucast (b :: u8))) = (crc24_step ^^ n) (s XOR ucast b)"
proof (induction n)
  case 0
  have "take_bit 24 (ucast b :: u32) = ucast b"
    by (rule bit_word_eqI) (auto simp: bit_simps dest: bit_imp_le_length)
  with 0 show ?case by (simp add: take_bit_xor)
qed (simp add: crc24_step_range)

text \<open>
  C33. The table version of the checksum computes what the bitwise one does, for every initial
  value and every packet.
\<close>

theorem crc_table_version: "btle_crcgen_lut crc_init data = btle_calc_crc crc_init data"
proof -
  have "fold (\<lambda>byte s. drop_bit 8 s XOR btle_crc_lut ! unat (byte XOR ucast (s AND 0xff))) data s =
      fold (\<lambda>byte s. fst ((btle_crc_bit ^^ 8) (s, byte))) data s" if "take_bit 24 s = s" for s
    using that by (induction data arbitrary: s) (simp_all add: crc_lut_byte crc_byte crc24_keep)
  from this [OF crc24_init] show ?thesis
    by (simp add: btle_crcgen_lut_def btle_calc_crc_def Let_def)
qed

text \<open>Running the register backwards.\<close>

definition rev24 :: "u32 \<Rightarrow> u32" where
  "rev24 s = fold (\<lambda>i ret. ret OR push_bit (23 - i) (drop_bit i s AND 1)) [0..<24] 0"

lemma crc24_bit_23: "take_bit 24 s = s \<Longrightarrow> bit (crc24_step s) 23 = bit s 0"
proof -
  assume "take_bit 24 s = s"
  then have "\<not> bit s 24" by (metis bit_take_bit_iff less_irrefl)
  then show ?thesis by (simp add: crc24_step_def bit_simps)
qed

lemma or_low_bit: "\<not> bit w 0 \<Longrightarrow> w OR 1 = w XOR 1" for w :: u32
  by (rule bit_word_eqI) (auto simp: bit_simps intro: gr0I)

lemma low_bit: "w AND 1 = of_bool (bit w 0)" for w :: "'a::len word"
  by (rule bit_word_eqI) (auto simp: bit_simps)

lemma shift_out: "push_bit 1 (drop_bit 1 w) = w XOR of_bool (bit w 0)" for w :: u32
proof (rule bit_word_eqI)
  fix n show "bit (push_bit 1 (drop_bit 1 w)) n = bit (w XOR of_bool (bit w 0)) n"
    by (cases n) (auto simp: bit_simps Suc_eq_plus1_left simp del: push_bit_Suc One_nat_def dest: bit_imp_le_length)
qed

lemma bit_fold_or: "bit (fold (\<lambda>i ret. ret OR f i) xs a :: u32) n \<longleftrightarrow> bit a n \<or> (\<exists>i \<in> set xs. bit (f i) n)"
  by (induction xs arbitrary: a) (auto simp: bit_simps)

lemma bit_rev24: "bit (rev24 s) n \<longleftrightarrow> n < 24 \<and> bit s (23 - n)"
proof -
  have "bit (push_bit (23 - i) (drop_bit i s AND 1)) n \<longleftrightarrow> n = 23 - i \<and> bit s i" if "i < 24" for i
    using that by (auto simp: low_bit bit_simps)
  then have "bit (rev24 s) n \<longleftrightarrow> (\<exists>i < 24. n = 23 - i \<and> bit s i)"
    unfolding rev24_def bit_fold_or by auto
  then show ?thesis by (auto intro!: exI [of _ "23 - n"])
qed

lemma reverse_bit_step:
  assumes "take_bit 24 s = s" "k < 8"
  shows "btle_reverse_bit cur (7 - k) (crc24_step s) = s XOR of_bool (bit cur k)"
proof -
  have m: "w AND 0xffffff = take_bit 24 w" for w :: u32
    by (simp add: take_bit_eq_mask mask_eq_exp_minus_1)
  have "drop_bit 23 (crc24_step s) = of_bool (bit s 0)"
    using bits_24 [OF crc24_step_range [OF assms(1)]] crc24_bit_23 [OF assms(1)]
    by (intro bit_word_eqI) (fastforce simp: bit_simps dest: bit_imp_le_length)
  moreover have "push_bit 1 (crc24_step s) AND 0xffffff = s XOR of_bool (bit s 0) XOR (if bit s 0 then 0xb4c000 else 0)"
  proof -
    have "push_bit 1 (crc24_step s) = push_bit 1 (drop_bit 1 s) XOR (if bit s 0 then 0x1b4c000 else 0)"
      unfolding crc24_step_def push_bit_xor by simp
    then show ?thesis
      unfolding m shift_out take_bit_xor using assms(1) by (simp add: xor.assoc)
  qed
  moreover have "drop_bit (7 - (7 - k)) (ucast cur) AND 1 = (of_bool (bit cur k) :: u32)"
    using assms(2) by (simp add: low_bit bit_simps)
  ultimately show ?thesis
    unfolding btle_reverse_bit_def Let_def
    by (cases "bit s 0"; cases "bit cur k")
      (simp_all add: or_low_bit bit_xor_iff xor.assoc xor.commute xor.left_commute)
qed

text \<open>The bitwise algorithm over the low \<open>n\<close> bits of a byte, one forward step at a time.\<close>

lemma crc24_step_even: "crc24_step (w XOR of_bool (bit w 0)) = drop_bit 1 w"
proof -
  have "\<not> bit (w XOR of_bool (bit w 0)) 0" by (simp add: bit_simps)
  moreover have "drop_bit 1 (w XOR of_bool (bit w 0)) = drop_bit 1 w"
    by (rule bit_word_eqI) (auto simp: bit_simps)
  ultimately show ?thesis by (simp add: crc24_step_def)
qed

lemma crc_bits_Suc:
  fixes cur :: u8
  assumes "take_bit 24 s = s" "n < 8"
  defines "t \<equiv> fst ((btle_crc_bit ^^ n) (s, cur))"
  shows "fst ((btle_crc_bit ^^ Suc n) (s, cur)) = crc24_step (t XOR of_bool (bit cur n))" and "take_bit 24 t = t"
proof -
  let ?v = "ucast (drop_bit n cur) :: u32"
  have pair: "(btle_crc_bit ^^ n) (s, cur) = (t, drop_bit n cur)"
    using crc_bits [OF assms(1), of n cur] assms(2) by (simp add: t_def)
  have t: "t = (crc24_step ^^ n) (s XOR ucast cur) XOR ?v"
    using crc_bits [OF assms(1), of n cur] assms(2) by (simp add: t_def)
  have "take_bit 24 ?v = ?v"
    by (rule bit_word_eqI) (auto simp: bit_simps dest: bit_imp_le_length)
  then show range: "take_bit 24 t = t"
    unfolding t by (simp only: take_bit_xor crc24_keep [OF assms(1)])
  have "(ucast (drop_bit 1 (drop_bit n cur)) :: u32) = drop_bit 1 ?v"
    by (rule bit_word_eqI) (auto simp: bit_simps dest: bit_imp_le_length)
  then have "fst ((btle_crc_bit ^^ Suc n) (s, cur)) = crc24_step (t XOR ?v) XOR drop_bit 1 ?v"
    using crc_bit_step [OF range, of "drop_bit n cur"] by (simp add: pair del: drop_bit_drop_bit)
  also have "t XOR ?v = (t XOR of_bool (bit cur n)) XOR (?v XOR of_bool (bit ?v 0))"
    by (simp add: bit_simps xor.assoc xor.left_commute xor.commute)
  also have "crc24_step \<dots> XOR drop_bit 1 ?v = crc24_step (t XOR of_bool (bit cur n))"
    by (subst crc24.xor) (simp only: crc24_step_even xor.assoc xor_self_eq xor.right_neutral)
  finally show "fst ((btle_crc_bit ^^ Suc n) (s, cur)) = crc24_step (t XOR of_bool (bit cur n))" .
qed

lemma reverse_bits:
  assumes "take_bit 24 s = s" "n \<le> 8"
  shows "fold (btle_reverse_bit cur) [8 - n..<8] (fst ((btle_crc_bit ^^ n) (s, cur))) = s"
  using assms(2)
proof (induction n)
  case (Suc n)
  let ?t = "fst ((btle_crc_bit ^^ n) (s, cur))"
  have t: "take_bit 24 ?t = ?t" using crc_bits_Suc(2) [OF assms(1)] Suc.prems by simp
  then have "take_bit 24 (?t XOR of_bool (bit cur n)) = ?t XOR of_bool (bit cur n)"
    by (simp add: take_bit_xor)
  from reverse_bit_step [OF this, of n cur]
  have "btle_reverse_bit cur (7 - n) (fst ((btle_crc_bit ^^ Suc n) (s, cur))) = ?t"
    using Suc.prems crc_bits_Suc(1) [OF assms(1), of n cur] by (simp add: xor.assoc)
  moreover have "[8 - Suc n..<8] = (7 - n) # [8 - n..<8]"
  proof -
    have "8 - Suc n = 7 - n" "Suc (7 - n) = 8 - n" using Suc.prems by linarith+
    then show ?thesis by (simp only: upt_conv_Cons)
  qed
  ultimately show ?case using Suc by simp
qed simp

lemma reverse_byte: "take_bit 24 s = s \<Longrightarrow> fold (btle_reverse_bit cur) [0..<8] (fst ((btle_crc_bit ^^ 8) (s, cur))) = s"
  using reverse_bits [of s 8 cur] by simp

lemma reverse_packet:
  "take_bit 24 s = s \<Longrightarrow>
   fold (\<lambda>cur state. fold (btle_reverse_bit cur) [0..<8] state) (rev data)
     (fold (\<lambda>byte state. fst ((btle_crc_bit ^^ 8) (state, byte))) data s) = s"
proof (induction data arbitrary: s)
  case (Cons b data)
  have "take_bit 24 (fst ((btle_crc_bit ^^ 8) (s, b))) = fst ((btle_crc_bit ^^ 8) (s, b))"
    using Cons.prems by (simp only: crc_byte crc24_keep)
  with Cons reverse_byte show ?case by (simp del: funpow.simps)
qed simp

text \<open>
  C34. \<open>btle_reverse_crc\<close> recovers the initial value from the checksum of any packet, in the opposite
  bit order: the checksum takes it reversed.
\<close>

theorem crc_reversal: "btle_reverse_crc (btle_calc_crc crc_init data) data = rev24 (crc_init AND 0xffffff)"
  using reverse_packet [OF crc24_init]
  by (simp only: btle_reverse_crc_def btle_calc_crc_def rev24_def Let_def)

section \<open>Whitening\<close>

text \<open>The loop over the bits of one byte; it returns the byte and the position in \<open>whitening\<close>.\<close>

definition le_dewhiten_bit :: "u8 \<Rightarrow> nat \<Rightarrow> u8 \<times> nat \<Rightarrow> u8 \<times> nat" where
  "le_dewhiten_bit b j = (\<lambda>(out_byte, idx).
     let bit1 = drop_bit (7 - j) b AND 1;
         bit1 = bit1 XOR le_whitening ! idx;
         idx = (idx + 1) mod length le_whitening
     in (out_byte OR push_bit j bit1, idx))"

definition le_dewhiten_byte :: "u8 \<Rightarrow> nat \<Rightarrow> u8 \<times> nat" where
  "le_dewhiten_byte b idx = fold (le_dewhiten_bit b) [0..<8] (0, idx)"

fun le_dewhiten_loop :: "u8 list \<Rightarrow> nat \<Rightarrow> u8 list" where
  "le_dewhiten_loop [] idx = []"
| "le_dewhiten_loop (b # bs) idx = (let (out_byte, idx) = le_dewhiten_byte b idx in out_byte # le_dewhiten_loop bs idx)"

definition le_dewhiten :: "u8 list \<Rightarrow> u32 \<Rightarrow> u8 list" where
  "le_dewhiten data channel = le_dewhiten_loop data (le_whitening_index ! unat (btle_channel_index (ucast channel)))"

text \<open>
  The whitening sequence of the specification (volume 6, part B, section 3.2): a register of seven
  bits, position 0 in bit 0, set to one in position 0 and to the channel index in positions 1 to 6,
  the most significant bit first.
\<close>

definition le_whitening_seed :: "u8 \<Rightarrow> u8" where
  "le_whitening_seed c = 1 OR fold (\<lambda>k s. s OR push_bit (6 - k) (drop_bit k c AND 1)) [0..<6] 0"

definition le_whitening_bit :: "u8 \<Rightarrow> nat \<Rightarrow> bool" where
  "le_whitening_bit c n = bit ((whitening_step ^^ n) (le_whitening_seed c)) 6"

lemma le_whitening_rotated: "le_whitening = drop 23 WHITENING_DATA @ take 23 WHITENING_DATA"
  by (simp add: le_whitening_def WHITENING_DATA_def)

lemma le_seeds: "map (\<lambda>c. whitening_states ! ((23 + le_whitening_index ! c) mod 127)) [0..<40] = map (\<lambda>c. le_whitening_seed (of_nat c)) [0..<40]"
  by (simp add: whitening_states_def le_whitening_index_def le_whitening_seed_def upt_eval)

lemma le_whitening_length [simp]: "length le_whitening = 127"
  by (simp add: le_whitening_def)

lemma nth_le_whitening: "n < 127 \<Longrightarrow> le_whitening ! n = WHITENING_DATA ! ((23 + n) mod 127)"
  unfolding le_whitening_rotated by (auto simp: nth_append mod_if)

lemma le_whitening_lfsr:
  assumes "c < 40"
  shows "le_whitening ! ((le_whitening_index ! c + n) mod 127) = of_bool (le_whitening_bit (of_nat c) n)"
proof -
  let ?k = "(23 + le_whitening_index ! c) mod 127"
  have "le_whitening ! ((le_whitening_index ! c + n) mod 127) = WHITENING_DATA ! ((?k + n) mod 127)"
    by (simp add: nth_le_whitening mod_simps ac_simps)
  also have "\<dots> = of_bool (bit (whitening_states ! ((?k + n) mod 127)) 6)"
    by (subst whitening_states_output [symmetric]) simp
  also have "whitening_states ! ((?k + n) mod 127) = (whitening_step ^^ n) (whitening_states ! ?k)"
    by (simp add: whitening_states_run)
  also have "whitening_states ! ?k = le_whitening_seed (of_nat c)"
    using arg_cong [OF le_seeds, of "\<lambda>xs. xs ! c"] assms by simp
  finally show ?thesis by (simp only: le_whitening_bit_def)
qed

lemma btle_channel_index_lt: "btle_channel_index f < 40"
proof -
  have "ucast (w - v) < (40 :: u8)" if "v \<le> w" "w < 39" for v w :: u16
  proof -
    have "unat (w - v) < 39" using that by (simp add: unat_sub word_less_nat_alt)
    then show ?thesis by (simp add: word_less_nat_alt unsigned_ucast_eq take_bit_nat_eq_self)
  qed
  moreover have "1 \<le> w \<and> w < 39" if "w \<noteq> 0" "w < 12" for w :: u16
    using that by (auto simp: word_le_nat_alt word_less_nat_alt Suc_le_eq unat_gt_0)
  moreover have "2 \<le> w" if "\<not> w < 12" for w :: u16
    using that by (simp add: word_le_nat_alt word_less_nat_alt)
  ultimately show ?thesis by (auto simp: btle_channel_index_def Let_def)
qed

lemma le_dewhiten_byte_bits:
  assumes "idx < 127"
  shows "snd (le_dewhiten_byte b idx) = (idx + 8) mod 127"
    and "j < 8 \<Longrightarrow> bit (fst (le_dewhiten_byte b idx)) j \<longleftrightarrow> bit b (7 - j) \<noteq> (le_whitening ! ((idx + j) mod 127) = 1)"
proof -
  let ?step = "le_dewhiten_bit b"
  have w: "le_whitening ! (k mod 127) = of_bool (le_whitening ! (k mod 127) = 1)" for k
  proof -
    have "list_all (\<lambda>w. w = 0 \<or> w = 1) le_whitening" by (simp add: le_whitening_def)
    then have "le_whitening ! (k mod 127) = 0 \<or> le_whitening ! (k mod 127) = 1" by (simp add: list_all_length)
    then show ?thesis by auto
  qed
  have "snd (fold ?step [0..<n] (0, idx)) = (idx + n) mod 127 \<and>
      (\<forall>j. bit (fst (fold ?step [0..<n] (0, idx))) j \<longleftrightarrow> j < n \<and> (bit b (7 - j) \<noteq> (le_whitening ! ((idx + j) mod 127) = 1)))"
    if "n \<le> 8" for n
    using that
  proof (induction n)
    case (Suc n)
    obtain out_byte k where st: "fold ?step [0..<n] (0, idx) = (out_byte, k)" by (cases "fold ?step [0..<n] (0, idx)")
    have k: "k = (idx + n) mod 127"
      and o: "\<And>j. bit out_byte j \<longleftrightarrow> j < n \<and> (bit b (7 - j) \<noteq> (le_whitening ! ((idx + j) mod 127) = 1))"
      using Suc st by auto
    have "drop_bit (7 - n) b AND 1 XOR le_whitening ! k = of_bool (bit b (7 - n) \<noteq> (le_whitening ! ((idx + n) mod 127) = 1))"
      unfolding k by (subst w) (simp add: low_bit bit_simps)
    then have "fold ?step [0..<Suc n] (0, idx) =
        (out_byte OR push_bit n (of_bool (bit b (7 - n) \<noteq> (le_whitening ! ((idx + n) mod 127) = 1))), (k + 1) mod 127)"
      by (simp only: upt_Suc_append fold_append comp_apply st fold_simps le_dewhiten_bit_def Let_def split_conv le_whitening_length zero_le simp_thms)
    with Suc.prems show ?case
      by (auto simp: o k bit_simps mod_simps less_Suc_eq)
  qed (simp add: assms)
  from this [of 8] show "snd (le_dewhiten_byte b idx) = (idx + 8) mod 127"
    and "j < 8 \<Longrightarrow> bit (fst (le_dewhiten_byte b idx)) j \<longleftrightarrow> bit b (7 - j) \<noteq> (le_whitening ! ((idx + j) mod 127) = 1)"
    by (simp_all add: le_dewhiten_byte_def del: upt_rec_numeral)
qed

lemma le_dewhiten_loop_bits:
  assumes "i < length data" "j < 8" "idx < 127"
  shows "bit (le_dewhiten_loop data idx ! i) j \<longleftrightarrow>
    bit (data ! i) (7 - j) \<noteq> (le_whitening ! ((idx + 8 * i + j) mod 127) = 1)"
  using assms
proof (induction data arbitrary: i idx)
  case (Cons b data)
  let ?idx = "(idx + 8) mod 127"
  have step: "le_dewhiten_loop (b # data) idx = fst (le_dewhiten_byte b idx) # le_dewhiten_loop data ?idx"
    using le_dewhiten_byte_bits(1) [OF Cons.prems(3), of b] by (simp add: split_def)
  note le_dewhiten_loop.simps(2) [simp del]
  show ?case
  proof (cases i)
    case 0
    then show ?thesis
      using le_dewhiten_byte_bits(2) [OF Cons.prems(3,2), of b] by (simp add: step)
  next
    case (Suc k)
    have "(?idx + (8 * k + j)) mod 127 = (idx + 8 + (8 * k + j)) mod 127"
      by (rule mod_add_left_eq)
    then have "(?idx + 8 * k + j) mod 127 = (idx + 8 * Suc k + j) mod 127"
      by (simp add: add.assoc)
    with Suc Cons.IH [of k ?idx] Cons.prems show ?thesis by (simp only: step) simp
  qed
qed simp

text \<open>
  C35. \<open>le_dewhiten\<close> takes the bits of each byte in the opposite order and removes from them the
  whitening sequence of the specification, seeded with the index of the channel.
\<close>

theorem le_dewhiten_is_lfsr:
  assumes "i < length data" and "j < 8"
  shows "bit (le_dewhiten data channel ! i) j \<longleftrightarrow>
    bit (data ! i) (7 - j) \<noteq> le_whitening_bit (btle_channel_index (ucast channel)) (8 * i + j)"
proof -
  let ?c = "unat (btle_channel_index (ucast channel))"
  have c: "?c < 40" using btle_channel_index_lt [of "ucast channel"] by (simp add: word_less_nat_alt)
  have "list_all (\<lambda>k. k < 127) le_whitening_index" "length le_whitening_index = 40"
    by (simp_all add: le_whitening_index_def)
  with c have "le_whitening_index ! ?c < 127" by (simp add: list_all_length)
  from le_dewhiten_loop_bits [OF assms this] le_whitening_lfsr [OF c, of "8 * i + j"] show ?thesis
    by (simp add: le_dewhiten_def add.assoc)
qed

lemma le_dewhiten_is_lfsr_witness: "bit (le_dewhiten [0xb1] 2402 ! 0) 0 \<longleftrightarrow> True \<noteq> le_whitening_bit 37 0"
  using le_dewhiten_is_lfsr [of 0 "[0xb1]" 0 2402] by (simp add: btle_channel_index_def)

text \<open>Five periods of the sequence as one number, bit \<open>n\<close> for position \<open>n\<close>.\<close>

definition le_whitening_number :: nat where
  "le_whitening_number = horner_sum of_bool 2 (map (\<lambda>w. w = 1) (concat (replicate 5 le_whitening)))"

lemma nth_concat_replicate: "n < k * length xs \<Longrightarrow> concat (replicate k xs) ! n = xs ! (n mod length xs)"
proof (induction k arbitrary: n)
  case (Suc k)
  show ?case
  proof (cases "n < length xs")
    case False
    with Suc.IH [of "n - length xs"] Suc.prems show ?thesis by (simp add: nth_append le_mod_geq not_less)
  qed (simp add: nth_append)
qed simp

lemma bit_whitening_number: "n < 635 \<Longrightarrow> bit le_whitening_number n \<longleftrightarrow> le_whitening ! (n mod 127) = 1"
proof -
  assume "n < 635"
  moreover have len: "length (concat (replicate 5 le_whitening)) = 635"
    by (simp add: length_concat sum_list_replicate)
  ultimately show ?thesis
    using nth_concat_replicate [of n 5 le_whitening]
    by (simp add: le_whitening_number_def bit_horner_sum_bit_iff)
qed

lemma le_whitening_number_value:
  "le_whitening_number = 91954823427302262420532624130117695589036107682010495300069453759730553973449573983897281323389220091286415709781622295605342308511924415976306414195871915121184094392815783065353170963874479"
proof -
  have "horner_sum of_bool 2 (map (\<lambda>w. w = 1) le_whitening) = (109732864799707433118045610993052762799 :: nat)"
    by (simp add: le_whitening_def)
  moreover have "concat (replicate 5 xs) = xs @ xs @ xs @ xs @ xs" for xs :: "u8 list"
    by (simp add: numeral_eq_Suc)
  ultimately show ?thesis
    by (simp add: le_whitening_number_def horner_sum_append)
qed

text \<open>The words of a row as one number.\<close>

fun row_number :: "nat list \<Rightarrow> nat" where
  "row_number [] = 0"
| "row_number (x # xs) = x + 2 ^ 32 * row_number xs"

lemma bit_row_number:
  "list_all (\<lambda>x. x < 2 ^ 32) xs \<Longrightarrow> w < length xs \<Longrightarrow> k < 32 \<Longrightarrow> bit (row_number xs) (32 * w + k) = bit (xs ! w) k"
proof (induction xs arbitrary: w)
  case (Cons x xs)
  have low: "take_bit 32 (row_number (x # xs)) = x" and high: "drop_bit 32 (row_number (x # xs)) = row_number xs"
    using Cons.prems(1) by (simp_all add: take_bit_eq_mod drop_bit_eq_div)
  show ?case
  proof (cases w)
    case 0
    have "bit (take_bit 32 (row_number (x # xs))) k = bit (row_number (x # xs)) k"
      using Cons.prems(3) by (simp only: bit_take_bit_iff) simp
    then show ?thesis using 0 low by simp
  next
    case (Suc v)
    have "bit (drop_bit 32 (row_number (x # xs))) (32 * v + k) = bit (row_number (x # xs)) (32 + (32 * v + k))"
      by (simp only: bit_drop_bit_eq comp_apply)
    then show ?thesis using Suc Cons high by (simp add: add.assoc del: row_number.simps)
  qed
qed simp

lemma whitening_word_rows:
  "map2 (\<lambda>row k. row_number row + 2 ^ 384 * drop_bit (384 + k) le_whitening_number) whitening_word le_whitening_index =
   map (\<lambda>k. drop_bit k le_whitening_number) le_whitening_index"
  unfolding le_whitening_number_value by (simp add: whitening_word_def le_whitening_index_def)

lemma whitening_word_shape:
  "length whitening_word = 40 \<and> list_all (\<lambda>row. length row = 12 \<and> list_all (\<lambda>x. x < 2 ^ 32) row) whitening_word"
  by (simp add: whitening_word_def)

lemma bit_row:
  assumes "c < 40" "n < 384"
  shows "bit (row_number (whitening_word ! c)) n = bit le_whitening_number (le_whitening_index ! c + n)"
proof -
  have len: "length le_whitening_index = 40" "length whitening_word = 40"
    using whitening_word_shape by (simp_all add: le_whitening_index_def)
  let ?k = "le_whitening_index ! c"
  have "row_number (whitening_word ! c) + 2 ^ 384 * drop_bit (384 + ?k) le_whitening_number = drop_bit ?k le_whitening_number"
    using arg_cong [OF whitening_word_rows, of "\<lambda>xs. xs ! c"] assms(1) len by simp
  then have "take_bit 384 (row_number (whitening_word ! c)) = take_bit 384 (drop_bit ?k le_whitening_number)"
    by (simp only: take_bit_eq_mod) (metis mod_mult_self2)
  then have "bit (take_bit 384 (row_number (whitening_word ! c))) n = bit (take_bit 384 (drop_bit ?k le_whitening_number)) n"
    by (simp only:)
  then show ?thesis using assms(2) by (simp only: bit_take_bit_iff bit_drop_bit_eq comp_apply) simp
qed

text \<open>
  C38. The table \<open>whitening_word\<close> is the whitening sequence of each of the forty channels,
  packed into words: bit \<open>k\<close> of word \<open>w\<close> is position \<open>32 w + k\<close>.
\<close>

theorem whitening_words_packed:
  assumes "c < 40" and "w < 12" and "k < 32"
  shows "bit (whitening_word ! c ! w) k \<longleftrightarrow> le_whitening_bit (of_nat c) (32 * w + k)"
proof -
  let ?n = "32 * w + k" and ?k = "le_whitening_index ! c"
  have row: "length (whitening_word ! c) = 12" "list_all (\<lambda>x. x < 2 ^ 32) (whitening_word ! c)"
    using whitening_word_shape assms(1) by (auto simp: list_all_length)
  have idx: "?k < 127"
  proof -
    have "list_all (\<lambda>k. k < 127) le_whitening_index" "length le_whitening_index = 40"
      by (simp_all add: le_whitening_index_def)
    with assms(1) show ?thesis by (simp add: list_all_length)
  qed
  have "bit (whitening_word ! c ! w) k = bit (row_number (whitening_word ! c)) ?n"
    using bit_row_number [OF row(2), of w k] row(1) assms by simp
  also have "\<dots> = bit le_whitening_number (?k + ?n)"
    using assms by (intro bit_row) auto
  also have "\<dots> \<longleftrightarrow> le_whitening ! ((?k + ?n) mod 127) = 1"
    using idx assms by (intro bit_whitening_number) auto
  also have "\<dots> \<longleftrightarrow> le_whitening_bit (of_nat c) ?n"
    by (simp add: le_whitening_lfsr [OF assms(1)])
  finally show ?thesis .
qed

lemma whitening_words_packed_witness: "bit (whitening_word ! 37 ! 11) 31 \<longleftrightarrow> le_whitening_bit 37 383"
  using whitening_words_packed [of 37 11 31] by simp

section \<open>Channel maps\<close>

record le_channel_remapping_t =
  channel_in_use :: "int list"
  remapping_index :: "u8 list"
  total_channels :: u32

text \<open>The bits of one byte of the map, at most \<open>n\<close> of them, up to channel 36.\<close>

fun parse_map_byte :: "nat \<Rightarrow> u32 \<Rightarrow> nat \<Rightarrow> le_channel_remapping_t \<Rightarrow> nat \<times> le_channel_remapping_t" where
  "parse_map_byte 0 byte idx r = (idx, r)"
| "parse_map_byte (Suc n) byte idx r =
     (let r = (if byte AND 1 \<noteq> 0
               then r\<lparr>channel_in_use := (channel_in_use r)[idx := 1],
                      remapping_index := (remapping_index r)[unat (total_channels r) := of_nat idx],
                      total_channels := total_channels r + 1\<rparr>
               else r\<lparr>channel_in_use := (channel_in_use r)[idx := 0]\<rparr>);
          byte = drop_bit 1 byte;
          idx = idx + 1
      in if idx = 37 then (idx, r) else parse_map_byte n byte idx r)"

definition le_parse_channel_map :: "u8 list \<Rightarrow> le_channel_remapping_t" where
  "le_parse_channel_map channel_map =
     snd (fold (\<lambda>i (idx, r). parse_map_byte 8 (ucast (channel_map ! i)) idx r) [0..<5]
       (0, \<lparr>channel_in_use = replicate 37 0, remapping_index = replicate 37 0, total_channels = 0\<rparr>))"

text \<open>
  A channel that is not in use is mapped through \<open>remapping_index\<close>; an access outside an array and
  the division by zero, when no channel is in use, are \<open>None\<close>.
\<close>

definition le_map_channel :: "u8 \<Rightarrow> le_channel_remapping_t \<Rightarrow> u8 option" where
  "le_map_channel channel_idx r =
     do {
       in_use \<leftarrow> rd (channel_in_use r) (uint channel_idx);
       if in_use \<noteq> 0 then Some channel_idx
       else if total_channels r = 0 then None
       else rd (remapping_index r) (uint (ucast channel_idx mod total_channels r))
     }"

text \<open>Channel \<open>c\<close> in a map, and the used channels in increasing order.\<close>

definition in_map :: "u8 list \<Rightarrow> nat \<Rightarrow> bool" where
  "in_map channel_map c = bit (channel_map ! (c div 8)) (c mod 8)"

definition used_channels_of :: "u8 list \<Rightarrow> nat list" where
  "used_channels_of channel_map = filter (in_map channel_map) [0..<37]"

text \<open>The state of the parser after the first \<open>n\<close> channels.\<close>

definition parsed :: "u8 list \<Rightarrow> nat \<Rightarrow> le_channel_remapping_t \<Rightarrow> bool" where
  "parsed channel_map n r \<longleftrightarrow>
     (let used = filter (in_map channel_map) [0..<n] in
      length (channel_in_use r) = 37 \<and> length (remapping_index r) = 37 \<and> total_channels r = of_nat (length used) \<and>
      (\<forall>c < n. channel_in_use r ! c \<noteq> 0 \<longleftrightarrow> in_map channel_map c) \<and>
      take (length used) (remapping_index r) = map of_nat used)"

lemma parse_map_byte_parsed:
  assumes "parsed channel_map idx r" "k \<le> 8" "idx < 37" "idx + k = 8 * Suc i"
    "\<And>j. j < k \<Longrightarrow> bit byte j = in_map channel_map (idx + j)"
  shows "\<exists>r'. parse_map_byte k byte idx r = (min (idx + k) 37, r') \<and> parsed channel_map (min (idx + k) 37) r'"
  using assms
proof (induction k arbitrary: byte idx r)
  case (Suc k)
  let ?used = "filter (in_map channel_map) [0..<idx]"
  let ?r = "if byte AND 1 \<noteq> 0
               then r\<lparr>channel_in_use := (channel_in_use r)[idx := 1],
                      remapping_index := (remapping_index r)[unat (total_channels r) := of_nat idx],
                      total_channels := total_channels r + 1\<rparr>
               else r\<lparr>channel_in_use := (channel_in_use r)[idx := 0]\<rparr>"
  have bit0: "byte AND 1 \<noteq> 0 \<longleftrightarrow> in_map channel_map idx"
    using Suc.prems(5) [of 0] by (simp add: low_bit)
  have len: "length ?used \<le> idx" using length_filter_le [of _ "[0..<idx]"] by simp
  then have "unat (of_nat (length ?used) :: u32) = length ?used"
    using Suc.prems(3) by (simp add: unsigned_of_nat take_bit_nat_eq_self)
  note used = this
  have step: "parsed channel_map (Suc idx) ?r"
  proof (cases "in_map channel_map idx")
    case True
    have "length ?used < length (remapping_index r)"
      using Suc.prems(1,3) len by (simp add: parsed_def Let_def)
    then have "take (Suc (length ?used)) ((remapping_index r)[length ?used := of_nat idx]) = map of_nat (?used @ [idx])"
      using Suc.prems(1) by (simp add: take_Suc_conv_app_nth parsed_def Let_def)
    with True Suc.prems(1,3) used show ?thesis
      unfolding bit0 by (auto simp: parsed_def Let_def nth_list_update less_Suc_eq)
  next
    case False
    with Suc.prems(1,3) show ?thesis
      unfolding bit0 by (auto simp: parsed_def Let_def nth_list_update less_Suc_eq)
  qed
  have eq: "parse_map_byte (Suc k) byte idx r =
      (if Suc idx = 37 then (Suc idx, ?r) else parse_map_byte k (drop_bit 1 byte) (Suc idx) ?r)"
    by (subst parse_map_byte.simps) (simp only: Let_def Suc_eq_plus1)
  show ?case
  proof (cases "Suc idx = 37")
    case True
    then have "min (idx + Suc k) 37 = Suc idx" by simp
    then show ?thesis using step True unfolding eq by simp
  next
    case False
    have "bit (drop_bit 1 byte) j = in_map channel_map (Suc idx + j)" if "j < k" for j
      using Suc.prems(5) [of "Suc j"] that by (simp add: bit_simps)
    from Suc.IH [OF step _ _ _ this] Suc.prems False show ?thesis unfolding eq by simp
  qed
qed simp

lemma le_parse_channel_map_parsed:
  assumes "length channel_map = 5"
  shows "parsed channel_map 37 (le_parse_channel_map channel_map)"
proof -
  let ?step = "\<lambda>i (idx, r). parse_map_byte 8 (ucast (channel_map ! i)) idx r"
  let ?init = "(0, \<lparr>channel_in_use = replicate 37 0, remapping_index = replicate 37 0, total_channels = 0\<rparr>)"
  have "\<exists>r. fold ?step [0..<n] ?init = (min (8 * n) 37, r) \<and> parsed channel_map (min (8 * n) 37) r" if "n \<le> 5" for n
    using that
  proof (induction n)
    case (Suc n)
    then obtain r where r: "fold ?step [0..<n] ?init = (8 * n, r)" "parsed channel_map (8 * n) r"
      by auto
    have "bit (ucast (channel_map ! n) :: u32) j = in_map channel_map (8 * n + j)" if "j < 8" for j
      using that by (simp add: in_map_def bit_simps div_mult_self4 mod_mult_self4)
    from parse_map_byte_parsed [OF r(2) _ _ _ this, of 8 n] Suc.prems r(1) show ?case
      by (simp add: algebra_simps)
  qed (simp add: parsed_def)
  from this [of 5] show ?thesis
    unfolding le_parse_channel_map_def by auto
qed

text \<open>
  C36. With the remapping of any channel map that has a used channel, every channel is mapped to a used
  one: to itself when it is used, and otherwise to the used channel whose number in increasing order
  is the channel's index modulo the number of used channels. A map without a used channel divides by
  zero at every channel.
\<close>

theorem le_remapping:
  assumes "length channel_map = 5" and "c < 37"
  shows "le_map_channel (of_nat c) (le_parse_channel_map channel_map) =
    (let used = used_channels_of channel_map in
     if c \<in> set used then Some (of_nat c)
     else if used = [] then None
     else Some (of_nat (used ! (c mod length used))))"
proof -
  let ?r = "le_parse_channel_map channel_map" and ?used = "used_channels_of channel_map"
  have p: "length (channel_in_use ?r) = 37" "length (remapping_index ?r) = 37"
      "total_channels ?r = of_nat (length ?used)" "channel_in_use ?r ! c \<noteq> 0 \<longleftrightarrow> c \<in> set ?used"
      "take (length ?used) (remapping_index ?r) = map of_nat ?used"
    using le_parse_channel_map_parsed [OF assms(1)] assms(2)
    by (auto simp: parsed_def Let_def used_channels_of_def simp del: upt_rec_numeral)
  have c: "uint (of_nat c :: u8) = int c"
    using assms(2) by (simp add: uint_word_of_int_eq unsigned_of_nat take_bit_nat_eq_self)
  have len: "length ?used \<le> 37"
    using length_filter_le [of "in_map channel_map" "[0..<37]"] by (simp add: used_channels_of_def del: upt_rec_numeral)
  show ?thesis
  proof (cases "c \<in> set ?used \<or> ?used = []")
    case True
    with p c assms(2) show ?thesis by (auto simp: le_map_channel_def rd_inside)
  next
    case False
    let ?k = "c mod length ?used"
    have k: "?k < length ?used" using False by simp
    have u: "unat (of_nat (length ?used) :: u32) = length ?used"
      using len by (simp add: unsigned_of_nat take_bit_nat_eq_self)
    have "unat (ucast (of_nat c :: u8) :: u32) = c"
      using assms(2) by (simp add: unsigned_ucast_eq unsigned_of_nat take_bit_nat_eq_self)
    with u have "unat (ucast (of_nat c :: u8) mod (of_nat (length ?used) :: u32)) = ?k"
      by (simp only: unat_mod_distrib)
    moreover have "uint w = int (unat w)" for w :: u32 by simp
    ultimately have idx: "uint (ucast (of_nat c :: u8) mod (of_nat (length ?used) :: u32)) = int ?k"
      by metis
    have rd: "rd (remapping_index ?r) (int ?k) = Some (of_nat (?used ! ?k))"
      using arg_cong [OF p(5), of "\<lambda>xs. xs ! ?k"] k len p(2) by (simp add: rd_def)
    have "(of_nat (length ?used) :: u32) \<noteq> 0"
      using u False by (metis length_0_conv unsigned_0)
    then show ?thesis
      using False p(1,3,4) c assms(2) by (simp add: le_map_channel_def rd_inside idx rd Let_def)
  qed
qed

lemma le_remapping_witness: "le_map_channel 7 (le_parse_channel_map [0x06, 0, 0, 0, 0]) = Some 2"
  using le_remapping [of "[0x06, 0, 0, 0, 0]" 7]
  by (simp add: used_channels_of_def in_map_def upt_eval flip: numeral_2_eq_2)

end
