(* ===== verification/Spec2Isabelle.thy ===== *)
theory Spec2Isabelle
  imports AccessCode Follow Queues LeFirmware
begin

text \<open>
  A verification library for the host and firmware code of the Ubertooth Bluetooth sniffer.
\<close>

end
